theory Spec2Isabelle
  imports Complex_Main "HOL-Library.Word"
begin

unbundle bit_operations_syntax

section \<open>Buffers, instruction sets and block widths\<close>

text \<open>
  The kernels of \<^verbatim>\<open>int4mm_kernel.cpp\<close> work on raw pointers into contiguous buffers.
  A buffer is a store from element index to element; a pointer into it is an offset, and
  \<^verbatim>\<open>p[i]\<close> reads the store at \<open>p + i\<close>. Sizes and indices are tensor sizes and
  offsets, never negative, so they are natural numbers; the C++ \<^verbatim>\<open>int\<close> is taken wide
  enough for them (no wrap-around is modelled).
\<close>

type_synonym 'a buf = "nat \<Rightarrow> 'a"

text \<open>
  One variant of the file is compiled per translation unit, chosen by the preprocessor
  (\<^verbatim>\<open>CPU_CAPABILITY_AVX512\<close>, \<^verbatim>\<open>CPU_CAPABILITY_AVX2\<close>, or neither).
\<close>

datatype isa = AVX512 | AVX2 | Scalar

text \<open>
  Modelled from the spec: \<^verbatim>\<open>vec::Vectorized<float>::size()\<close> comes from the header
  \<^verbatim>\<open>ATen/cpu/vec/vec.h\<close>, which is not among the sources. The widths are the ones the
  comment at \<^verbatim>\<open>BLOCK_N\<close> in \<^verbatim>\<open>int4pack_mm_kernel\<close> gives
  (``64 for avx512 and 32 for avx2/non-vectorized''), that is 16 floats for 512-bit vectors
  and 8 floats otherwise.
\<close>

definition Vectorized_float_size :: "isa \<Rightarrow> nat" where
  "Vectorized_float_size v = (case v of AVX512 \<Rightarrow> 16 | AVX2 \<Rightarrow> 8 | Scalar \<Rightarrow> 8)"

text \<open>\<^verbatim>\<open>constexpr int BLOCK_N = vec::Vectorized<float>::size() * 4;\<close>\<close>

definition BLOCK_N :: "isa \<Rightarrow> nat" where
  "BLOCK_N v = Vectorized_float_size v * 4"

text \<open>\<^verbatim>\<open>constexpr int BLOCK_M = 4;\<close>\<close>

definition BLOCK_M :: nat where
  "BLOCK_M = 4"

text \<open>
  \<^verbatim>\<open>inline bool is_block_start(int index, int BLOCK_SIZE) { return !(index & (BLOCK_SIZE -1)); }\<close>
\<close>

definition is_block_start :: "int \<Rightarrow> int \<Rightarrow> bool" where
  "is_block_start index BLOCK_SIZE \<longleftrightarrow> (index AND (BLOCK_SIZE - 1)) = 0"

text \<open>
  Modelled from the spec: \<^verbatim>\<open>at::parallel_for\<close> is not among the sources. The spec's
  contract is ``do range [begin,end) possibly in parallel, default chunking''; the model
  gives the whole range to one worker, and calls nothing when the range is empty.
\<close>

definition parallel_for :: "nat \<Rightarrow> nat \<Rightarrow> (nat \<Rightarrow> nat \<Rightarrow> 'r) \<Rightarrow> 'r \<Rightarrow> 'r" where
  "parallel_for begin end' f skip = (if begin < end' then f begin end' else skip)"

section \<open>The weight packer\<close>

text \<open>
  The expression \<^verbatim>\<open>(((uint8_t)(val1) << 4)) | ((uint8_t)(val0))\<close> stored into a
  \<^verbatim>\<open>uint8_t\<close>: both values are cut to a byte, promoted to \<^verbatim>\<open>int\<close> for the shift and
  the bitwise or, and the result is cut to a byte again.
\<close>

definition packed_byte :: "32 word \<Rightarrow> 32 word \<Rightarrow> 8 word" where
  "packed_byte val1 val0 =
     ucast (push_bit 4 (ucast (ucast val1 :: 8 word) :: 32 word) OR
            (ucast (ucast val0 :: 8 word) :: 32 word))"

text \<open>The values of \<^verbatim>\<open>n\<close> in \<^verbatim>\<open>for (int n = 0; n < nb_size; n += 2)\<close>.\<close>

definition step2 :: "nat \<Rightarrow> nat list" where
  "step2 nb_size = map (\<lambda>j. 2 * j) [0..<(nb_size + 1) div 2]"

text \<open>
  The loop that packs adjacent columns, used for every block of the non-vectorized
  variant and for the short last block of the vectorized ones:
  \<^verbatim>\<open>dst[k * nb_size / 2 + n / 2] = (val1 << 4) | val0\<close> with
  \<^verbatim>\<open>val0 = src[n * K + k]\<close> and \<^verbatim>\<open>val1 = src[n * K + K + k]\<close>.
\<close>

definition pack_adjacent ::
  "32 word buf \<Rightarrow> nat \<Rightarrow> nat \<Rightarrow> nat \<Rightarrow> nat \<Rightarrow> nat \<Rightarrow> 8 word buf \<Rightarrow> 8 word buf" where
  "pack_adjacent weight src dst K nb_size k =
     fold (\<lambda>n P. P(dst + (k * nb_size) div 2 + n div 2 :=
                     packed_byte (weight (src + n * K + K + k)) (weight (src + n * K + k))))
       (step2 nb_size)"

text \<open>The full-width block of the AVX512 variant: 64 columns, lane 0 with lane 2, lane 1 with lane 3.\<close>

definition pack_avx512_full ::
  "32 word buf \<Rightarrow> nat \<Rightarrow> nat \<Rightarrow> nat \<Rightarrow> nat \<Rightarrow> 8 word buf \<Rightarrow> 8 word buf" where
  "pack_avx512_full weight src dst K k =
     fold (\<lambda>d P.
        let val0 = weight (src + (d + 0) * K + k);
            val1 = weight (src + (d + 16) * K + k);
            val2 = weight (src + (d + 32) * K + k);
            val3 = weight (src + (d + 48) * K + k);
            packed02 = packed_byte val2 val0;
            packed13 = packed_byte val3 val1
        in (P(dst + k * 32 + d := packed02))(dst + k * 32 + 16 + d := packed13))
       [0..<16]"

text \<open>The full-width block of the AVX2 variant: 32 columns, lane 0 with lane 1.\<close>

definition pack_avx2_full ::
  "32 word buf \<Rightarrow> nat \<Rightarrow> nat \<Rightarrow> nat \<Rightarrow> nat \<Rightarrow> 8 word buf \<Rightarrow> 8 word buf" where
  "pack_avx2_full weight src dst K k =
     fold (\<lambda>d P.
        let val0 = weight (src + (d + 0) * K + k);
            val1 = weight (src + (d + 16) * K + k);
            packed01 = packed_byte val1 val0
        in P(dst + k * 16 + d := packed01))
       [0..<16]"

text \<open>The body of the loop over \<^verbatim>\<open>k\<close>, with its three preprocessor branches.\<close>

definition pack_row ::
  "isa \<Rightarrow> 32 word buf \<Rightarrow> nat \<Rightarrow> nat \<Rightarrow> nat \<Rightarrow> nat \<Rightarrow> nat \<Rightarrow> 8 word buf \<Rightarrow> 8 word buf" where
  "pack_row v weight src dst K nb_size k =
     (case v of
        AVX512 \<Rightarrow>
          if nb_size = BLOCK_N AVX512 then pack_avx512_full weight src dst K k
          else pack_adjacent weight src dst K nb_size k
      | AVX2 \<Rightarrow>
          if nb_size = BLOCK_N AVX2 then pack_avx2_full weight src dst K k
          else pack_adjacent weight src dst K nb_size k
      | Scalar \<Rightarrow> pack_adjacent weight src dst K nb_size k)"

text \<open>
  The body of the loop over the blocks \<^verbatim>\<open>i\<close>:
  \<^verbatim>\<open>nb_size = std::min(BLOCK_N, N - i * BLOCK_N)\<close>,
  \<^verbatim>\<open>src = weight_data + i * BLOCK_N * K\<close>,
  \<^verbatim>\<open>dst = weight_packed_data + i * K * BLOCK_N / 2\<close>.
\<close>

definition pack_block ::
  "isa \<Rightarrow> 32 word buf \<Rightarrow> nat \<Rightarrow> nat \<Rightarrow> nat \<Rightarrow> 8 word buf \<Rightarrow> 8 word buf" where
  "pack_block v weight N K i =
     (let nb_size = min (BLOCK_N v) (N - i * BLOCK_N v);
          src = i * BLOCK_N v * K;
          dst = (i * K * BLOCK_N v) div 2
      in fold (pack_row v weight src dst K nb_size) [0..<K])"

text \<open>
  \<^verbatim>\<open>weight_to_int4pack_kernel\<close>: the blocks \<open>begin\<close> to \<open>end - 1\<close> are packed in
  order. The caller's buffer \<open>weight_packed\<close> is the starting store, and the result is
  the store afterwards.
\<close>

definition weight_to_int4pack_kernel ::
  "isa \<Rightarrow> 8 word buf \<Rightarrow> 32 word buf \<Rightarrow> nat \<Rightarrow> nat \<Rightarrow> 8 word buf" where
  "weight_to_int4pack_kernel v weight_packed weight N K =
     (let NB = (N + BLOCK_N v - 1) div BLOCK_N v
      in parallel_for 0 NB
           (\<lambda>begin end'. fold (pack_block v weight N K) [begin..<end'] weight_packed)
           weight_packed)"

section \<open>Pointers, floating point and the output trace\<close>

text \<open>
  A read-only pointer is a buffer together with an offset: \<^verbatim>\<open>p[i]\<close> is \<open>rd p i\<close> and
  \<^verbatim>\<open>p + n\<close> is \<open>ptr_add p n\<close>.
\<close>

type_synonym 'a ptr = "'a buf \<times> nat"

definition rd :: "'a ptr \<Rightarrow> nat \<Rightarrow> 'a" where
  "rd p i = fst p (snd p + i)"

definition ptr_add :: "'a ptr \<Rightarrow> nat \<Rightarrow> 'a ptr" where
  "ptr_add p n = (fst p, snd p + n)"

text \<open>
  The kernels never read the output matrix; they only store into it. The output is
  therefore the trace of the stores, in program order: the pair \<open>(i, x)\<close> stands for
  \<^verbatim>\<open>C_data[i] = x\<close>. The contents of the buffer afterwards are the caller's buffer
  with the stores applied.
\<close>

type_synonym 'a writes = "(nat \<times> 'a) list"

definition store :: "nat \<Rightarrow> 'a \<Rightarrow> 'a writes \<Rightarrow> 'a writes" where
  "store i x C = C @ [(i, x)]"

definition apply_writes :: "'a writes \<Rightarrow> 'a buf \<Rightarrow> 'a buf" where
  "apply_writes C = fold (\<lambda>(i, x) f. f(i := x)) C"

text \<open>
  Floating-point values are the real numbers they denote; infinities, NaNs and the sign
  of zero are not modelled. The arithmetic of the hardware and the conversions of
  \<^verbatim>\<open>c10::BFloat16\<close> (not among the sources) are parameters: \<open>round_f32\<close> rounds a
  real result to a 32-bit \<^verbatim>\<open>float\<close>, \<open>round_bf16\<close> is the conversion of a \<^verbatim>\<open>float\<close>
  to \<^verbatim>\<open>BFloat16\<close>. The conversion of a \<^verbatim>\<open>BFloat16\<close> to \<^verbatim>\<open>float\<close> is exact.
\<close>

record fpenv =
  round_f32 :: "real \<Rightarrow> real"
  round_bf16 :: "real \<Rightarrow> real"

text \<open>\<^verbatim>\<open>a + b\<close> and \<^verbatim>\<open>a * b\<close> on \<^verbatim>\<open>float\<close>, and the fused multiply-add \<^verbatim>\<open>a * b + c\<close>.\<close>

definition f32_add :: "fpenv \<Rightarrow> real \<Rightarrow> real \<Rightarrow> real" where
  "f32_add fp a b = round_f32 fp (a + b)"

definition f32_mul :: "fpenv \<Rightarrow> real \<Rightarrow> real \<Rightarrow> real" where
  "f32_mul fp a b = round_f32 fp (a * b)"

definition f32_fmadd :: "fpenv \<Rightarrow> real \<Rightarrow> real \<Rightarrow> real \<Rightarrow> real" where
  "f32_fmadd fp a b c = round_f32 fp (a * b + c)"

text \<open>Arithmetic without rounding error.\<close>

definition exact :: fpenv where
  "exact = \<lparr>round_f32 = (\<lambda>x. x), round_bf16 = (\<lambda>x. x)\<rparr>"

section \<open>The non-vectorized tile kernel\<close>

text \<open>The table of \<^verbatim>\<open>convert_int4_to_float\<close>.\<close>

definition lut :: "real list" where
  "lut = [-8, -7, -6, -5, -4, -3, -2, -1, 0, 1, 2, 3, 4, 5, 6, 7]"

definition convert_int4_to_float :: "8 word \<Rightarrow> bool \<Rightarrow> real" where
  "convert_int4_to_float a is_even =
     (let index = (if is_even then a AND 0x0F else drop_bit 4 a)
      in lut ! unat index)"

text \<open>
  The loop over \<^verbatim>\<open>k\<close> of the non-vectorized \<^verbatim>\<open>tinygemm_kernel\<close>, for one \<^verbatim>\<open>m\<close> and
  one \<^verbatim>\<open>n\<close>: the value of \<^verbatim>\<open>c_val\<close> when the loop ends. \<^verbatim>\<open>BLOCK_K\<close> is not zero
  (the code divides by it).
\<close>

definition c_val_step ::
  "fpenv \<Rightarrow> real ptr \<Rightarrow> 8 word ptr \<Rightarrow> real ptr \<Rightarrow> nat \<Rightarrow> nat \<Rightarrow> nat \<Rightarrow> nat \<Rightarrow>
   nat \<Rightarrow> nat \<Rightarrow> nat \<Rightarrow> real \<Rightarrow> real" where
  "c_val_step fp A B ScaleAndZeros lda ldb ldc BLOCK_K m n k c_val =
     (let kb = k div BLOCK_K;
          scale = rd ScaleAndZeros (kb * ldc * 2 + n * 2);
          zero = rd ScaleAndZeros (kb * ldc * 2 + n * 2 + 1);
          a_val = rd A (m * lda + k);
          b_pack = rd B (k * ldb + n div 2);
          b_val = convert_int4_to_float b_pack (n mod 2 = 0);
          b_val = f32_add fp (f32_mul fp b_val scale) zero
      in f32_add fp c_val (f32_mul fp a_val b_val))"

definition c_val_loop ::
  "fpenv \<Rightarrow> real ptr \<Rightarrow> 8 word ptr \<Rightarrow> real ptr \<Rightarrow> nat \<Rightarrow> nat \<Rightarrow> nat \<Rightarrow> nat \<Rightarrow>
   nat \<Rightarrow> nat \<Rightarrow> nat \<Rightarrow> real" where
  "c_val_loop fp A B ScaleAndZeros lda ldb ldc K BLOCK_K m n =
     fold (c_val_step fp A B ScaleAndZeros lda ldb ldc BLOCK_K m n) [0..<K] 0"

text \<open>
  The non-vectorized \<^verbatim>\<open>tinygemm_kernel<BLOCK_M, BLOCK_N>\<close>: for every \<^verbatim>\<open>m\<close> and
  \<^verbatim>\<open>n\<close>, the loop over \<^verbatim>\<open>k\<close> and then \<^verbatim>\<open>C[m * ldc + n] = c_val\<close>, which converts
  the \<^verbatim>\<open>float\<close> to \<^verbatim>\<open>BFloat16\<close>.
\<close>

definition tinygemm_kernel_scalar ::
  "fpenv \<Rightarrow> nat \<Rightarrow> nat \<Rightarrow> real ptr \<Rightarrow> 8 word ptr \<Rightarrow> real ptr \<Rightarrow> nat \<Rightarrow> nat \<Rightarrow> nat \<Rightarrow>
   nat \<Rightarrow> nat \<Rightarrow> nat \<Rightarrow> real writes \<Rightarrow> real writes" where
  "tinygemm_kernel_scalar fp BLOCK_M' BLOCK_N' A B ScaleAndZeros C_ptr lda ldb ldc K BLOCK_K =
     fold (\<lambda>m. fold (\<lambda>n.
         store (C_ptr + m * ldc + n)
           (round_bf16 fp (c_val_loop fp A B ScaleAndZeros lda ldb ldc K BLOCK_K m n)))
       [0..<BLOCK_N']) [0..<BLOCK_M']"

section \<open>Vector registers and intrinsics\<close>

text \<open>
  A vector register is a function from the lane index to the lane's value; the lanes
  beyond the register's width are never read. The intrinsics have the lane-wise meaning
  of Intel's documentation; where the meaning does not depend on the width, one
  definition serves the 128-, 256- and 512-bit forms. An integer register is given in
  the lane width the next instruction reads it in, and \<open>epi16_bytes\<close> is the change of
  view from 16-bit lanes to bytes (little-endian).
\<close>

type_synonym 'a vec = "nat \<Rightarrow> 'a"

text \<open>
  Modelled from the spec: \<^verbatim>\<open>c10::ForcedUnroll\<close> comes from \<^verbatim>\<open>c10/util/Unroll.h\<close>,
  which is not among the sources. The spec calls it a fixed-size unrolled loop:
  \<^verbatim>\<open>ForcedUnroll<n>{}(f, args...)\<close> calls \<^verbatim>\<open>f(0, args...)\<close> to
  \<^verbatim>\<open>f(n - 1, args...)\<close> in this order.
\<close>

definition ForcedUnroll :: "nat \<Rightarrow> (nat \<Rightarrow> 's \<Rightarrow> 's) \<Rightarrow> 's \<Rightarrow> 's" where
  "ForcedUnroll n f = fold f [0..<n]"

definition mm_loadu_si64 :: "8 word ptr \<Rightarrow> 8 word vec" where
  "mm_loadu_si64 p = (\<lambda>l. if l < 8 then rd p l else 0)"

definition mm_load_bytes :: "8 word ptr \<Rightarrow> 8 word vec" where
  "mm_load_bytes p = (\<lambda>l. rd p l)"

definition mm_cvtepu8_epi16 :: "8 word vec \<Rightarrow> 16 word vec" where
  "mm_cvtepu8_epi16 a = (\<lambda>l. ucast (a l))"

definition mm_set1_epi8 :: "8 word \<Rightarrow> 16 word vec" where
  "mm_set1_epi8 x = (\<lambda>l. push_bit 8 (ucast x) OR ucast x)"

definition mm_andnot_si128 :: "16 word vec \<Rightarrow> 16 word vec \<Rightarrow> 16 word vec" where
  "mm_andnot_si128 a b = (\<lambda>l. NOT (a l) AND b l)"

definition mm_and_si128 :: "16 word vec \<Rightarrow> 16 word vec \<Rightarrow> 16 word vec" where
  "mm_and_si128 a b = (\<lambda>l. a l AND b l)"

definition mm_or_si128 :: "16 word vec \<Rightarrow> 16 word vec \<Rightarrow> 16 word vec" where
  "mm_or_si128 a b = (\<lambda>l. a l OR b l)"

definition mm_slli_epi16 :: "16 word vec \<Rightarrow> nat \<Rightarrow> 16 word vec" where
  "mm_slli_epi16 a n = (\<lambda>l. push_bit n (a l))"

definition epi16_bytes :: "16 word vec \<Rightarrow> 8 word vec" where
  "epi16_bytes a = (\<lambda>l. if even l then ucast (a (l div 2)) else ucast (drop_bit 8 (a (l div 2))))"

definition mm_extract_epi64 :: "8 word vec \<Rightarrow> nat \<Rightarrow> 8 word vec" where
  "mm_extract_epi64 a j = (\<lambda>l. a (8 * j + l))"

definition mm_set1_epi64x :: "8 word vec \<Rightarrow> 8 word vec" where
  "mm_set1_epi64x x = (\<lambda>l. x (l mod 8))"

definition MM_SHUFFLE :: "nat \<Rightarrow> nat \<Rightarrow> nat \<Rightarrow> nat \<Rightarrow> 8 word" where
  "MM_SHUFFLE z y x w = of_nat (z * 64 + y * 16 + x * 4 + w)"

definition mm_shuffle_epi32 :: "8 word vec \<Rightarrow> 8 word \<Rightarrow> 8 word vec" where
  "mm_shuffle_epi32 a imm = (\<lambda>l. a (4 * unat (drop_bit (2 * (l div 4)) imm AND 3) + l mod 4))"

definition mm_castsi256_si128 :: "8 word vec \<Rightarrow> 8 word vec" where
  "mm_castsi256_si128 a = a"

definition mm_extracti128_si256 :: "8 word vec \<Rightarrow> nat \<Rightarrow> 8 word vec" where
  "mm_extracti128_si256 a j = (\<lambda>l. a (16 * j + l))"

definition mm_cvtepu8_epi32 :: "8 word vec \<Rightarrow> 32 word vec" where
  "mm_cvtepu8_epi32 a = (\<lambda>l. ucast (a l))"

definition mm_set1_epi32 :: "32 word \<Rightarrow> 32 word vec" where
  "mm_set1_epi32 x = (\<lambda>l. x)"

definition mm_and_epi32 :: "32 word vec \<Rightarrow> 32 word vec \<Rightarrow> 32 word vec" where
  "mm_and_epi32 a b = (\<lambda>l. a l AND b l)"

definition mm_srli_epi32 :: "32 word vec \<Rightarrow> nat \<Rightarrow> 32 word vec" where
  "mm_srli_epi32 a n = (\<lambda>l. drop_bit n (a l))"

definition mm_cvtepi32_ps :: "fpenv \<Rightarrow> 32 word vec \<Rightarrow> real vec" where
  "mm_cvtepi32_ps fp a = (\<lambda>l. round_f32 fp (real_of_int (sint (a l))))"

definition mm_set1_ps :: "real \<Rightarrow> real vec" where
  "mm_set1_ps x = (\<lambda>l. x)"

definition mm_setzero_ps :: "real vec" where
  "mm_setzero_ps = (\<lambda>l. 0)"

definition mm_fmadd_ps :: "fpenv \<Rightarrow> real vec \<Rightarrow> real vec \<Rightarrow> real vec \<Rightarrow> real vec" where
  "mm_fmadd_ps fp a b c = (\<lambda>l. f32_fmadd fp (a l) (b l) (c l))"

text \<open>\<^verbatim>\<open>_mm512_set_ps\<close> and \<^verbatim>\<open>_mm512_set_epi32\<close> take lane 15 first; \<^verbatim>\<open>_mm256_setr_epi32\<close> takes lane 0 first.\<close>

definition mm512_set :: "'a list \<Rightarrow> 'a vec" where
  "mm512_set es = (\<lambda>l. es ! (15 - l))"

definition mm256_setr :: "'a list \<Rightarrow> 'a vec" where
  "mm256_setr es = (\<lambda>l. es ! l)"

definition mm512_permutexvar_ps :: "32 word vec \<Rightarrow> real vec \<Rightarrow> real vec" where
  "mm512_permutexvar_ps idx a = (\<lambda>l. a (unat (idx l AND 0xF)))"

definition mm512_mask_permutex2var_ps ::
  "real vec \<Rightarrow> 16 word \<Rightarrow> 32 word vec \<Rightarrow> real vec \<Rightarrow> real vec" where
  "mm512_mask_permutex2var_ps a k idx b =
     (\<lambda>l. if bit k l then
            (let j = unat (idx l AND 0x1F) in if j < 16 then a j else b (j - 16))
          else a l)"

definition mm256_permutevar8x32_ps :: "real vec \<Rightarrow> 32 word vec \<Rightarrow> real vec" where
  "mm256_permutevar8x32_ps a idx = (\<lambda>l. a (unat (idx l AND 7)))"

definition mm256_permute2f128_ps :: "real vec \<Rightarrow> real vec \<Rightarrow> 8 word \<Rightarrow> real vec" where
  "mm256_permute2f128_ps a b imm =
     (\<lambda>l. let c = (if l < 4 then imm else drop_bit 4 imm) in
          if bit c 3 then 0
          else if c AND 3 = 0 then a (l mod 4)
          else if c AND 3 = 1 then a (4 + l mod 4)
          else if c AND 3 = 2 then b (l mod 4)
          else b (4 + l mod 4))"

text \<open>
  Modelled from the spec: \<^verbatim>\<open>vec::cvtbf16_fp32\<close> and \<^verbatim>\<open>vec::cvtfp32_bf16\<close> come from
  \<^verbatim>\<open>ATen/cpu/vec\<close>, which is not among the sources. The first splits a register of
  \<open>2 * W\<close> \<^verbatim>\<open>BFloat16\<close> lanes into two registers of \<open>W\<close> \<^verbatim>\<open>float\<close> lanes, low half
  first (the kernel's comment: ``a: {s0, z0, s1, z1, ...}, b: {s8, z8, s9, z9, ...}'');
  the second is the spec's ``convert each accumulator from working floating precision
  down to the output's (narrower) floating type'', of one register or of two registers
  joined low half first.
\<close>

definition cvtbf16_fp32 :: "nat \<Rightarrow> real vec \<Rightarrow> real vec \<times> real vec" where
  "cvtbf16_fp32 W t = ((\<lambda>l. t l), (\<lambda>l. t (W + l)))"

definition cvtfp32_bf16 :: "fpenv \<Rightarrow> real vec \<Rightarrow> real vec" where
  "cvtfp32_bf16 fp a = (\<lambda>l. round_bf16 fp (a l))"

definition cvtfp32_bf16_2 :: "fpenv \<Rightarrow> nat \<Rightarrow> real vec \<Rightarrow> real vec \<Rightarrow> real vec" where
  "cvtfp32_bf16_2 fp W a b = (\<lambda>l. if l < W then round_bf16 fp (a l) else round_bf16 fp (b (l - W)))"

text \<open>A vector store of \<open>n\<close> lanes is \<open>n\<close> stores, lane 0 first.\<close>

definition mm_storeu :: "nat \<Rightarrow> nat \<Rightarrow> 'a vec \<Rightarrow> 'a writes \<Rightarrow> 'a writes" where
  "mm_storeu n p a = fold (\<lambda>l. store (p + l) (a l)) [0..<n]"

text \<open>
  \<^verbatim>\<open>conver_int4_to_int8\<close>: 8 bytes, that is 16 nibbles, become 16 bytes. The result is
  in 16-bit lanes, the low nibble of a byte in the low byte of its lane and the high
  nibble in the high byte.
\<close>

definition conver_int4_to_int8 :: "8 word ptr \<Rightarrow> 16 word vec" where
  "conver_int4_to_int8 data =
     (let tmp = mm_loadu_si64 data;
          bytes = mm_cvtepu8_epi16 tmp;
          lowMask = mm_set1_epi8 0xF;
          high = mm_andnot_si128 lowMask bytes;
          low = mm_and_si128 lowMask bytes;
          high = mm_slli_epi16 high 4;
          bytes = mm_or_si128 low high
      in bytes)"

section \<open>The vectorized tile kernels\<close>

text \<open>
  The registers of a vectorized \<^verbatim>\<open>tinygemm_kernel\<close>: \<^verbatim>\<open>va\<close>, and the arrays
  \<^verbatim>\<open>vb\<close>, \<^verbatim>\<open>vc\<close>, \<^verbatim>\<open>scale\<close> and \<^verbatim>\<open>zero\<close>.
\<close>

record regs =
  va :: "real vec"
  vb :: "nat \<Rightarrow> real vec"
  vc :: "nat \<Rightarrow> real vec"
  scale :: "nat \<Rightarrow> real vec"
  zero :: "nat \<Rightarrow> real vec"

definition set_vb :: "nat \<Rightarrow> real vec \<Rightarrow> regs \<Rightarrow> regs" where
  "set_vb i x st = st\<lparr>vb := (vb st)(i := x)\<rparr>"

definition set_vc :: "nat \<Rightarrow> real vec \<Rightarrow> regs \<Rightarrow> regs" where
  "set_vc i x st = st\<lparr>vc := (vc st)(i := x)\<rparr>"

definition set_scale :: "nat \<Rightarrow> real vec \<Rightarrow> regs \<Rightarrow> regs" where
  "set_scale i x st = st\<lparr>scale := (scale st)(i := x)\<rparr>"

definition set_zero :: "nat \<Rightarrow> real vec \<Rightarrow> regs \<Rightarrow> regs" where
  "set_zero i x st = st\<lparr>zero := (zero st)(i := x)\<rparr>"

text \<open>
  The registers are declared without a value and \<^verbatim>\<open>loadc\<close> clears \<^verbatim>\<open>vc\<close>. In the
  model the others start at 0 as well; each is written before it is read.
\<close>

definition regs0 :: regs where
  "regs0 = \<lparr>va = mm_setzero_ps, vb = (\<lambda>i. mm_setzero_ps), vc = (\<lambda>i. mm_setzero_ps),
            scale = (\<lambda>i. mm_setzero_ps), zero = (\<lambda>i. mm_setzero_ps)\<rparr>"

definition loadc :: "nat \<Rightarrow> regs \<Rightarrow> regs" where
  "loadc i st = set_vc i mm_setzero_ps st"

text \<open>
  The loop over \<^verbatim>\<open>k\<close>, the same text in both vectorized kernels:
  \<^verbatim>\<open>for (int k = 0, kb = 0; k < K; ++k) { if (is_block_start(k, BLOCK_K)) {
  c10::ForcedUnroll<COLS>{}(load_scale_and_zeros, kb++); }
  c10::ForcedUnroll<ROWS * COLS>{}(compute, k); }\<close>.
  The state is \<^verbatim>\<open>kb\<close> and the registers.
\<close>

definition k_step ::
  "(nat \<Rightarrow> nat \<Rightarrow> regs \<Rightarrow> regs) \<Rightarrow> (nat \<Rightarrow> nat \<Rightarrow> regs \<Rightarrow> regs) \<Rightarrow> nat \<Rightarrow> nat \<Rightarrow> nat \<Rightarrow>
   nat \<Rightarrow> nat \<times> regs \<Rightarrow> nat \<times> regs" where
  "k_step load_scale_and_zeros compute ROWS COLS BLOCK_K k s =
     (case s of (kb, st) \<Rightarrow>
        (case (if is_block_start (int k) (int BLOCK_K)
               then (kb + 1, ForcedUnroll COLS (\<lambda>i. load_scale_and_zeros i kb) st)
               else (kb, st)) of
           (kb', st') \<Rightarrow> (kb', ForcedUnroll (ROWS * COLS) (\<lambda>i. compute i k) st')))"

definition k_loop ::
  "(nat \<Rightarrow> nat \<Rightarrow> regs \<Rightarrow> regs) \<Rightarrow> (nat \<Rightarrow> nat \<Rightarrow> regs \<Rightarrow> regs) \<Rightarrow> nat \<Rightarrow> nat \<Rightarrow> nat \<Rightarrow>
   nat \<Rightarrow> regs \<Rightarrow> regs" where
  "k_loop load_scale_and_zeros compute ROWS COLS K BLOCK_K st =
     snd (fold (k_step load_scale_and_zeros compute ROWS COLS BLOCK_K) [0..<K] (0, st))"

subsection \<open>AVX512\<close>

definition lut512 :: "real vec" where
  "lut512 = mm512_set [7, 6, 5, 4, 3, 2, 1, 0, -1, -2, -3, -4, -5, -6, -7, -8]"

definition idx1_512 :: "32 word vec" where
  "idx1_512 = mm512_set [30, 28, 26, 24, 22, 20, 18, 16, 14, 12, 10, 8, 6, 4, 2, 0]"

definition idx2_512 :: "32 word vec" where
  "idx2_512 = mm512_set [31, 29, 27, 25, 23, 21, 19, 17, 15, 13, 11, 9, 7, 5, 3, 1]"

definition load_scale_and_zeros_512 :: "real ptr \<Rightarrow> nat \<Rightarrow> nat \<Rightarrow> nat \<Rightarrow> regs \<Rightarrow> regs" where
  "load_scale_and_zeros_512 ScaleAndZeros ldc i kb st =
     (case cvtbf16_fp32 16 (\<lambda>l. rd ScaleAndZeros (kb * ldc * 2 + 32 * i + l)) of
        (a, b) \<Rightarrow>
          set_zero i (mm512_mask_permutex2var_ps a 0xffff idx2_512 b)
            (set_scale i (mm512_mask_permutex2var_ps a 0xffff idx1_512 b) st))"

text \<open>\<^verbatim>\<open>vb[c] = _mm512_fmadd_ps(vb[c], scale[c], zero[c])\<close>\<close>

definition vb_fmadd :: "fpenv \<Rightarrow> nat \<Rightarrow> regs \<Rightarrow> regs" where
  "vb_fmadd fp c st = set_vb c (mm_fmadd_ps fp (vb st c) (scale st c) (zero st c)) st"

definition compute_512 ::
  "fpenv \<Rightarrow> nat \<Rightarrow> nat \<Rightarrow> real ptr \<Rightarrow> 8 word ptr \<Rightarrow> nat \<Rightarrow> nat \<Rightarrow> nat \<Rightarrow> nat \<Rightarrow> regs \<Rightarrow> regs" where
  "compute_512 fp ROWS COLS A B lda ldb i k st0 =
     (let row = i div COLS;
          col = i mod COLS;
          st1 = (if col = 0 then st0\<lparr>va := mm_set1_ps (rd A (row * lda + k))\<rparr> else st0);
          st2 =
            (if row = 0 then
               (if COLS = 4 then
                  (if col = 0 then
                     (let b4 = mm_load_bytes (ptr_add B (k * ldb));
                          b32 = mm_cvtepu8_epi32 (mm_castsi256_si128 b4);
                          s = set_vb 0 (mm512_permutexvar_ps b32 lut512) st1;
                          s = vb_fmadd fp 0 s;
                          s = set_vb 2 (mm512_permutexvar_ps (mm_srli_epi32 b32 4) lut512) s;
                          s = vb_fmadd fp 2 s;
                          b32 = mm_cvtepu8_epi32 (mm_extracti128_si256 b4 1);
                          s = set_vb 1 (mm512_permutexvar_ps b32 lut512) s;
                          s = vb_fmadd fp 1 s;
                          s = set_vb 3 (mm512_permutexvar_ps (mm_srli_epi32 b32 4) lut512) s;
                          s = vb_fmadd fp 3 s
                      in s)
                   else st1)
                else
                  (let b8 = conver_int4_to_int8 (ptr_add B (k * ldb + col * 8));
                       b32 = mm_cvtepu8_epi32 (epi16_bytes b8);
                       s = set_vb col (mm512_permutexvar_ps b32 lut512) st1;
                       s = vb_fmadd fp col s
                   in s))
             else st1);
          idx = row * COLS + col
      in set_vc idx (mm_fmadd_ps fp (va st2) (vb st2 col) (vc st2 idx)) st2)"

definition storec_512 ::
  "fpenv \<Rightarrow> nat \<Rightarrow> nat \<Rightarrow> nat \<Rightarrow> regs \<Rightarrow> nat \<Rightarrow> real writes \<Rightarrow> real writes" where
  "storec_512 fp COLS C_ptr ldc st i C =
     (let row = i div COLS;
          col = i mod COLS
      in if COLS = 4 then
           (if col = 0 then
              (let c01 = cvtfp32_bf16_2 fp 16 (vc st (row * 4 + 0)) (vc st (row * 4 + 1));
                   c23 = cvtfp32_bf16_2 fp 16 (vc st (row * 4 + 2)) (vc st (row * 4 + 3));
                   C = mm_storeu 32 (C_ptr + row * ldc + 0 * 32) c01 C;
                   C = mm_storeu 32 (C_ptr + row * ldc + 1 * 32) c23 C
               in C)
            else C)
         else
           (let ci = cvtfp32_bf16 fp (vc st i)
            in mm_storeu 16 (C_ptr + row * ldc + col * 16) ci C))"

text \<open>The AVX512 \<^verbatim>\<open>tinygemm_kernel<BLOCK_M, BLOCK_N>\<close>.\<close>

definition tinygemm_kernel_avx512 ::
  "fpenv \<Rightarrow> nat \<Rightarrow> nat \<Rightarrow> real ptr \<Rightarrow> 8 word ptr \<Rightarrow> real ptr \<Rightarrow> nat \<Rightarrow> nat \<Rightarrow> nat \<Rightarrow>
   nat \<Rightarrow> nat \<Rightarrow> nat \<Rightarrow> real writes \<Rightarrow> real writes" where
  "tinygemm_kernel_avx512 fp BLOCK_M' BLOCK_N' A B ScaleAndZeros C_ptr lda ldb ldc K BLOCK_K C =
     (let ROWS = BLOCK_M';
          COLS = BLOCK_N' div 16;
          st = ForcedUnroll (ROWS * COLS) loadc regs0;
          st = k_loop (load_scale_and_zeros_512 ScaleAndZeros ldc)
                 (compute_512 fp ROWS COLS A B lda ldb) ROWS COLS K BLOCK_K st
      in ForcedUnroll (ROWS * COLS) (storec_512 fp COLS C_ptr ldc st) C)"

subsection \<open>AVX2\<close>

definition idx1_256 :: "32 word vec" where
  "idx1_256 = mm256_setr [0, 2, 4, 6, 1, 3, 5, 7]"

definition load_scale_and_zeros_256 ::
  "fpenv \<Rightarrow> real ptr \<Rightarrow> nat \<Rightarrow> nat \<Rightarrow> nat \<Rightarrow> regs \<Rightarrow> regs" where
  "load_scale_and_zeros_256 fp ScaleAndZeros ldc i kb st =
     (case cvtbf16_fp32 8 (\<lambda>l. rd ScaleAndZeros (kb * ldc * 2 + 16 * i + l)) of
        (a, b) \<Rightarrow>
          (let offset = mm_set1_ps (-8);
               a = mm256_permutevar8x32_ps a idx1_256;
               b = mm256_permutevar8x32_ps b idx1_256;
               s = set_scale i (mm256_permute2f128_ps a b 0b0100000) st;
               s = set_zero i (mm256_permute2f128_ps a b 0b0110001) s
           in set_zero i (mm_fmadd_ps fp (scale s i) offset (zero s i)) s))"

definition compute_256 ::
  "fpenv \<Rightarrow> nat \<Rightarrow> nat \<Rightarrow> real ptr \<Rightarrow> 8 word ptr \<Rightarrow> nat \<Rightarrow> nat \<Rightarrow> nat \<Rightarrow> nat \<Rightarrow> regs \<Rightarrow> regs" where
  "compute_256 fp ROWS COLS A B lda ldb i k st0 =
     (let row = i div COLS;
          col = i mod COLS;
          st1 = (if col = 0 then st0\<lparr>va := mm_set1_ps (rd A (row * lda + k))\<rparr> else st0);
          st2 =
            (if row = 0 then
               (if COLS = 4 then
                  (if col = 0 then
                     (let mask = mm_set1_epi32 0xF;
                          b4 = mm_load_bytes (ptr_add B (k * ldb));
                          b32 = mm_cvtepu8_epi32 b4;
                          s = set_vb 0 (mm_cvtepi32_ps fp (mm_and_epi32 b32 mask)) st1;
                          s = vb_fmadd fp 0 s;
                          s = set_vb 2 (mm_cvtepi32_ps fp (mm_srli_epi32 b32 4)) s;
                          s = vb_fmadd fp 2 s;
                          b32 = mm_cvtepu8_epi32 (mm_shuffle_epi32 b4 (MM_SHUFFLE 3 2 3 2));
                          s = set_vb 1 (mm_cvtepi32_ps fp (mm_and_epi32 b32 mask)) s;
                          s = vb_fmadd fp 1 s;
                          s = set_vb 3 (mm_cvtepi32_ps fp (mm_srli_epi32 b32 4)) s;
                          s = vb_fmadd fp 3 s
                      in s)
                   else st1)
                else
                  (if col mod 2 = 0 then
                     (let b8 = epi16_bytes (conver_int4_to_int8 (ptr_add B (k * ldb + col * 4)));
                          b8_val0 = mm_set1_epi64x (mm_extract_epi64 b8 0);
                          b8_val1 = mm_set1_epi64x (mm_extract_epi64 b8 1);
                          s = set_vb col (mm_cvtepi32_ps fp (mm_cvtepu8_epi32 b8_val0)) st1;
                          s = vb_fmadd fp col s;
                          s = set_vb (col + 1) (mm_cvtepi32_ps fp (mm_cvtepu8_epi32 b8_val1)) s;
                          s = vb_fmadd fp (col + 1) s
                      in s)
                   else st1))
             else st1);
          idx = row * COLS + col
      in set_vc idx (mm_fmadd_ps fp (va st2) (vb st2 col) (vc st2 idx)) st2)"

definition storec_256 ::
  "fpenv \<Rightarrow> nat \<Rightarrow> nat \<Rightarrow> nat \<Rightarrow> regs \<Rightarrow> nat \<Rightarrow> real writes \<Rightarrow> real writes" where
  "storec_256 fp COLS C_ptr ldc st i C =
     (let row = i div COLS;
          col = i mod COLS
      in if col mod 2 = 0 then
           (let ci = cvtfp32_bf16_2 fp 8 (vc st (row * COLS + col)) (vc st (row * COLS + col + 1))
            in mm_storeu 16 (C_ptr + row * ldc + col * 8) ci C)
         else C)"

text \<open>The AVX2 \<^verbatim>\<open>tinygemm_kernel<BLOCK_M, BLOCK_N>\<close>.\<close>

definition tinygemm_kernel_avx2 ::
  "fpenv \<Rightarrow> nat \<Rightarrow> nat \<Rightarrow> real ptr \<Rightarrow> 8 word ptr \<Rightarrow> real ptr \<Rightarrow> nat \<Rightarrow> nat \<Rightarrow> nat \<Rightarrow>
   nat \<Rightarrow> nat \<Rightarrow> nat \<Rightarrow> real writes \<Rightarrow> real writes" where
  "tinygemm_kernel_avx2 fp BLOCK_M' BLOCK_N' A B ScaleAndZeros C_ptr lda ldb ldc K BLOCK_K C =
     (let ROWS = BLOCK_M';
          COLS = BLOCK_N' div 8;
          st = ForcedUnroll (ROWS * COLS) loadc regs0;
          st = k_loop (load_scale_and_zeros_256 fp ScaleAndZeros ldc)
                 (compute_256 fp ROWS COLS A B lda ldb) ROWS COLS K BLOCK_K st
      in ForcedUnroll (ROWS * COLS) (storec_256 fp COLS C_ptr ldc st) C)"

section \<open>The tile scheduler\<close>

text \<open>
  \<^verbatim>\<open>TORCH_CHECK(false, "Unsupported n block size: ", nb_size)\<close> and
  \<^verbatim>\<open>TORCH_CHECK(false, "Unsupported m block size: ", mb_size)\<close> throw; the error carries
  the size its message prints.
\<close>

datatype error = Unsupported_n_block_size int | Unsupported_m_block_size int

text \<open>
  The scheduler is the same text for the three variants; which \<^verbatim>\<open>tinygemm_kernel\<close>
  template it instantiates is the preprocessor's choice. In the model the tile kernel is
  the argument \<open>kern\<close>, called as
  \<open>kern BLOCK_M BLOCK_N A B ScaleAndZeros C lda ldb ldc K BLOCK_K\<close>.
\<close>

type_synonym tile_kernel =
  "nat \<Rightarrow> nat \<Rightarrow> real ptr \<Rightarrow> 8 word ptr \<Rightarrow> real ptr \<Rightarrow> nat \<Rightarrow> nat \<Rightarrow> nat \<Rightarrow> nat \<Rightarrow> nat \<Rightarrow> nat \<Rightarrow>
   real writes \<Rightarrow> real writes"

text \<open>
  \<^verbatim>\<open>LAUNCH_TINYGEMM_KERNEL(MB_SIZE, NB_SIZE)\<close>:
  \<^verbatim>\<open>tinygemm_kernel<MB_SIZE, NB_SIZE>(A_ptr, B_ptr, S_ptr, C_ptr, K, NB_SIZE / 2, N, K, BLOCK_K)\<close>.
\<close>

definition LAUNCH_TINYGEMM_KERNEL ::
  "tile_kernel \<Rightarrow> nat \<Rightarrow> nat \<Rightarrow> real ptr \<Rightarrow> 8 word ptr \<Rightarrow> real ptr \<Rightarrow> nat \<Rightarrow> nat \<Rightarrow> nat \<Rightarrow> nat \<Rightarrow>
   real writes \<Rightarrow> real writes" where
  "LAUNCH_TINYGEMM_KERNEL kern MB_SIZE NB_SIZE A_ptr B_ptr S_ptr C_ptr N K BLOCK_K =
     kern MB_SIZE NB_SIZE A_ptr B_ptr S_ptr C_ptr K (NB_SIZE div 2) N K BLOCK_K"

text \<open>
  \<^verbatim>\<open>LAUNCH_TINYGEMM_NB_SIZE(MB_SIZE)\<close>: the switch on \<^verbatim>\<open>nb_size\<close>. The result is the
  error thrown, if any, and the output trace at that moment.
\<close>

definition LAUNCH_TINYGEMM_NB_SIZE ::
  "tile_kernel \<Rightarrow> nat \<Rightarrow> int \<Rightarrow> real ptr \<Rightarrow> 8 word ptr \<Rightarrow> real ptr \<Rightarrow> nat \<Rightarrow> nat \<Rightarrow> nat \<Rightarrow> nat \<Rightarrow>
   real writes \<Rightarrow> error option \<times> real writes" where
  "LAUNCH_TINYGEMM_NB_SIZE kern MB_SIZE nb_size A_ptr B_ptr S_ptr C_ptr N K BLOCK_K C =
     (if nb_size = 16 then
        (None, LAUNCH_TINYGEMM_KERNEL kern MB_SIZE 16 A_ptr B_ptr S_ptr C_ptr N K BLOCK_K C)
      else if nb_size = 32 then
        (None, LAUNCH_TINYGEMM_KERNEL kern MB_SIZE 32 A_ptr B_ptr S_ptr C_ptr N K BLOCK_K C)
      else if nb_size = 48 then
        (None, LAUNCH_TINYGEMM_KERNEL kern MB_SIZE 48 A_ptr B_ptr S_ptr C_ptr N K BLOCK_K C)
      else if nb_size = 64 then
        (None, LAUNCH_TINYGEMM_KERNEL kern MB_SIZE 64 A_ptr B_ptr S_ptr C_ptr N K BLOCK_K C)
      else (Some (Unsupported_n_block_size nb_size), C))"

text \<open>
  The statement \<^verbatim>\<open>switch (mb_size) { ... }\<close> of \<^verbatim>\<open>int4pack_mm_kernel\<close>, with
  \<^verbatim>\<open>LAUNCH_TINYGEMM_NB_SIZE\<close> in each of its four cases. The two sizes are C++
  \<^verbatim>\<open>int\<close>s computed by a subtraction, so they are integers here.
\<close>

definition mm_dispatch ::
  "tile_kernel \<Rightarrow> int \<Rightarrow> int \<Rightarrow> real ptr \<Rightarrow> 8 word ptr \<Rightarrow> real ptr \<Rightarrow> nat \<Rightarrow> nat \<Rightarrow> nat \<Rightarrow> nat \<Rightarrow>
   real writes \<Rightarrow> error option \<times> real writes" where
  "mm_dispatch kern mb_size nb_size A_ptr B_ptr S_ptr C_ptr N K BLOCK_K C =
     (if mb_size = 1 then
        LAUNCH_TINYGEMM_NB_SIZE kern 1 nb_size A_ptr B_ptr S_ptr C_ptr N K BLOCK_K C
      else if mb_size = 2 then
        LAUNCH_TINYGEMM_NB_SIZE kern 2 nb_size A_ptr B_ptr S_ptr C_ptr N K BLOCK_K C
      else if mb_size = 3 then
        LAUNCH_TINYGEMM_NB_SIZE kern 3 nb_size A_ptr B_ptr S_ptr C_ptr N K BLOCK_K C
      else if mb_size = 4 then
        LAUNCH_TINYGEMM_NB_SIZE kern 4 nb_size A_ptr B_ptr S_ptr C_ptr N K BLOCK_K C
      else (Some (Unsupported_m_block_size mb_size), C))"

text \<open>
  The body of the loop over the tiles: the sizes and the four pointers of the tile
  \<open>(mb, nb)\<close>, then the switch.
\<close>

definition mm_tile ::
  "tile_kernel \<Rightarrow> nat \<Rightarrow> nat \<Rightarrow> nat \<Rightarrow> nat \<Rightarrow> nat \<Rightarrow> real ptr \<Rightarrow> 8 word ptr \<Rightarrow> real ptr \<Rightarrow>
   nat \<Rightarrow> nat \<Rightarrow> real writes \<Rightarrow> error option \<times> real writes" where
  "mm_tile kern BLOCK_N' M N K BLOCK_K A_data B_data S_data mb nb C =
     (let mb_start = mb * BLOCK_M;
          mb_size = min (int BLOCK_M) (int M - int mb_start);
          nb_start = nb * BLOCK_N';
          nb_size = min (int BLOCK_N') (int N - int nb_start);
          A_ptr = ptr_add A_data (mb_start * K);
          B_ptr = ptr_add B_data ((nb_start * K) div 2);
          S_ptr = ptr_add S_data (nb_start * 2);
          C_ptr = mb_start * N + nb_start
      in mm_dispatch kern mb_size nb_size A_ptr B_ptr S_ptr C_ptr N K BLOCK_K C)"

text \<open>
  Modelled from the spec: \<^verbatim>\<open>data_index_init\<close> and \<^verbatim>\<open>data_index_step\<close> come from
  \<^verbatim>\<open>ATen/native/cpu/utils.h\<close>, which is not among the sources. The spec: each worker
  converts ``its flat index back to (mb, nb) via row-major divmod'' and steps ``to the next
  tile by incrementing nb and carrying into mb on overflow''. Both return the new
  \<open>(mb, nb)\<close>.
\<close>

definition data_index_init :: "nat \<Rightarrow> nat \<Rightarrow> nat \<Rightarrow> nat \<times> nat" where
  "data_index_init offset MB NB = (offset div NB, offset mod NB)"

definition data_index_step :: "nat \<Rightarrow> nat \<Rightarrow> nat \<Rightarrow> nat \<Rightarrow> nat \<times> nat" where
  "data_index_step mb MB nb NB = (if nb + 1 = NB then (mb + 1, 0) else (mb, nb + 1))"

text \<open>
  The loop \<^verbatim>\<open>for (const auto i : c10::irange(begin, end))\<close> of the scheduler, by the
  number of iterations left. A thrown error leaves the loop at once.
\<close>

fun tile_loop ::
  "(nat \<Rightarrow> nat \<Rightarrow> real writes \<Rightarrow> error option \<times> real writes) \<Rightarrow> nat \<Rightarrow> nat \<Rightarrow> nat \<Rightarrow>
   nat \<Rightarrow> nat \<Rightarrow> real writes \<Rightarrow> error option \<times> real writes" where
  "tile_loop tile MB NB 0 mb nb C = (None, C)"
| "tile_loop tile MB NB (Suc left) mb nb C =
     (case tile mb nb C of
        (Some e, C') \<Rightarrow> (Some e, C')
      | (None, C') \<Rightarrow>
          (case data_index_step mb MB nb NB of
             (mb', nb') \<Rightarrow> tile_loop tile MB NB left mb' nb' C'))"

text \<open>The function handed to \<^verbatim>\<open>at::parallel_for\<close>: the tiles \<open>begin\<close> to \<open>end - 1\<close>.\<close>

definition mm_range ::
  "tile_kernel \<Rightarrow> nat \<Rightarrow> nat \<Rightarrow> nat \<Rightarrow> nat \<Rightarrow> nat \<Rightarrow> real ptr \<Rightarrow> 8 word ptr \<Rightarrow> real ptr \<Rightarrow>
   nat \<Rightarrow> nat \<Rightarrow> nat \<Rightarrow> nat \<Rightarrow> real writes \<Rightarrow> error option \<times> real writes" where
  "mm_range kern BLOCK_N' M N K BLOCK_K A_data B_data S_data MB NB begin end' C =
     (case data_index_init begin MB NB of
        (mb, nb) \<Rightarrow>
          tile_loop (mm_tile kern BLOCK_N' M N K BLOCK_K A_data B_data S_data)
            MB NB (end' - begin) mb nb C)"

text \<open>
  The scheduler of \<^verbatim>\<open>int4pack_mm_kernel\<close>, for a tile kernel and a block width.
  \<open>M\<close> is \<^verbatim>\<open>A.size(0)\<close>, \<open>C\<close> the trace of the stores so far.
\<close>

definition int4pack_mm_sched ::
  "tile_kernel \<Rightarrow> nat \<Rightarrow> real writes \<Rightarrow> real ptr \<Rightarrow> nat \<Rightarrow> 8 word ptr \<Rightarrow> nat \<Rightarrow> real ptr \<Rightarrow>
   nat \<Rightarrow> nat \<Rightarrow> error option \<times> real writes" where
  "int4pack_mm_sched kern BLOCK_N' C A_data M B_data qGroupSize S_data N K =
     (let BLOCK_K = qGroupSize;
          MB = (M + BLOCK_M - 1) div BLOCK_M;
          NB = (N + BLOCK_N' - 1) div BLOCK_N'
      in parallel_for 0 (MB * NB)
           (\<lambda>begin end'.
              mm_range kern BLOCK_N' M N K BLOCK_K A_data B_data S_data MB NB begin end' C)
           (None, C))"

text \<open>
  The tiles of a list of coordinates, dispatched in the order of the list, stopping at
  the first error: what the scheduler's loop is compared with.
\<close>

fun run_tiles ::
  "(nat \<Rightarrow> nat \<Rightarrow> real writes \<Rightarrow> error option \<times> real writes) \<Rightarrow> (nat \<times> nat) list \<Rightarrow>
   real writes \<Rightarrow> error option \<times> real writes" where
  "run_tiles tile [] C = (None, C)"
| "run_tiles tile ((mb, nb) # ts) C =
     (case tile mb nb C of
        (Some e, C') \<Rightarrow> (Some e, C')
      | (None, C') \<Rightarrow> run_tiles tile ts C')"

text \<open>The \<^verbatim>\<open>tinygemm_kernel\<close> template that the preprocessor selects.\<close>

definition tinygemm_kernel :: "isa \<Rightarrow> fpenv \<Rightarrow> tile_kernel" where
  "tinygemm_kernel v fp =
     (case v of
        AVX512 \<Rightarrow> tinygemm_kernel_avx512 fp
      | AVX2 \<Rightarrow> tinygemm_kernel_avx2 fp
      | Scalar \<Rightarrow> tinygemm_kernel_scalar fp)"

text \<open>
  \<^verbatim>\<open>int4pack_mm_kernel\<close> as compiled for the variant \<open>v\<close>. \<open>C\<close> is the trace of the
  stores so far and \<open>M\<close> is \<^verbatim>\<open>A.size(0)\<close>; the result is the error thrown, if any, and
  the trace of the stores.
\<close>

definition int4pack_mm_kernel ::
  "isa \<Rightarrow> fpenv \<Rightarrow> real writes \<Rightarrow> real ptr \<Rightarrow> nat \<Rightarrow> 8 word ptr \<Rightarrow> nat \<Rightarrow> real ptr \<Rightarrow>
   nat \<Rightarrow> nat \<Rightarrow> error option \<times> real writes" where
  "int4pack_mm_kernel v fp C A_data M B_data qGroupSize S_data N K =
     int4pack_mm_sched (tinygemm_kernel v fp) (BLOCK_N v) C A_data M B_data qGroupSize S_data N K"

section \<open>IEEE rounding\<close>

text \<open>
  Rounding to the nearest value with \<open>p\<close> significant bits, ties to even: 24 bits for
  \<^verbatim>\<open>float\<close>, 8 bits for \<^verbatim>\<open>BFloat16\<close>. The exponent is not bounded: overflow and
  subnormal numbers are not modelled.
\<close>

definition round_half_even :: "real \<Rightarrow> int" where
  "round_half_even x =
     (let f = \<lfloor>x\<rfloor>
      in if x - of_int f < 1 / 2 then f
         else if x - of_int f > 1 / 2 then f + 1
         else if even f then f else f + 1)"

definition round_to_precision :: "nat \<Rightarrow> real \<Rightarrow> real" where
  "round_to_precision p x =
     (if x = 0 then 0
      else (let e = \<lfloor>log 2 \<bar>x\<bar>\<rfloor> - int p + 1
            in of_int (round_half_even (x / 2 powr (of_int e))) * 2 powr (of_int e)))"

definition ieee :: fpenv where
  "ieee = \<lparr>round_f32 = round_to_precision 24, round_bf16 = round_to_precision 8\<rparr>"

section \<open>The tile kernel, element by element\<close>

text \<open>
  The algorithm of the tile kernel in the words of the spec, one output element at a
  time: the nibble of column \<open>n\<close> in row \<open>k\<close> of the packed tile, its dequantization
  \<open>raw * scale + zero\<close> with the pair of the group \<open>k div BLOCK_K\<close>, the accumulation
  over \<open>k = 0, ..., K - 1\<close> in \<^verbatim>\<open>float\<close>, and one conversion to \<^verbatim>\<open>BFloat16\<close> at the
  store. The vectorized kernels are compared with it.

  In a full-width tile of a vectorized variant, byte \<open>c\<close> of a row holds the columns
  \<open>c\<close> and \<open>c + BLOCK_N / 2\<close>; in every other tile it holds the columns \<open>2 * c\<close> and
  \<open>2 * c + 1\<close>.
\<close>

definition weight_nibble :: "isa \<Rightarrow> nat \<Rightarrow> 8 word ptr \<Rightarrow> nat \<Rightarrow> nat \<Rightarrow> nat \<Rightarrow> 8 word" where
  "weight_nibble v BLOCK_N' B ldb k n =
     (if v \<noteq> Scalar \<and> BLOCK_N' = BLOCK_N v then
        (let b = rd B (k * ldb + n mod (BLOCK_N' div 2))
         in if n < BLOCK_N' div 2 then b AND 0x0F else drop_bit 4 b)
      else
        (let b = rd B (k * ldb + n div 2)
         in if even n then b AND 0x0F else drop_bit 4 b))"

text \<open>
  The dequantized weight. The non-vectorized kernel multiplies and adds; AVX512 looks
  the nibble up in the table and does one fused multiply-add; AVX2 converts the nibble
  \<open>0, ..., 15\<close> to \<^verbatim>\<open>float\<close> and has the offset \<open>-8\<close> in the zero point,
  \<^verbatim>\<open>zero = -8 * scale + zero\<close>.
\<close>

definition dequant :: "isa \<Rightarrow> fpenv \<Rightarrow> 8 word \<Rightarrow> real \<Rightarrow> real \<Rightarrow> real" where
  "dequant v fp q s z =
     (case v of
        Scalar \<Rightarrow> f32_add fp (f32_mul fp (lut ! unat q) s) z
      | AVX512 \<Rightarrow> f32_fmadd fp (lut ! unat q) s z
      | AVX2 \<Rightarrow> f32_fmadd fp (round_f32 fp (real (unat q))) s (f32_fmadd fp s (- 8) z))"

definition accumulate :: "isa \<Rightarrow> fpenv \<Rightarrow> real \<Rightarrow> real \<Rightarrow> real \<Rightarrow> real" where
  "accumulate v fp a b c =
     (case v of
        Scalar \<Rightarrow> f32_add fp c (f32_mul fp a b)
      | AVX512 \<Rightarrow> f32_fmadd fp a b c
      | AVX2 \<Rightarrow> f32_fmadd fp a b c)"

definition tile_element ::
  "isa \<Rightarrow> fpenv \<Rightarrow> nat \<Rightarrow> real ptr \<Rightarrow> 8 word ptr \<Rightarrow> real ptr \<Rightarrow> nat \<Rightarrow> nat \<Rightarrow> nat \<Rightarrow> nat \<Rightarrow>
   nat \<Rightarrow> nat \<Rightarrow> nat \<Rightarrow> real" where
  "tile_element v fp BLOCK_N' A B ScaleAndZeros lda ldb ldc K BLOCK_K m n =
     fold (\<lambda>k c.
        accumulate v fp (rd A (m * lda + k))
          (dequant v fp (weight_nibble v BLOCK_N' B ldb k n)
             (rd ScaleAndZeros ((k div BLOCK_K) * ldc * 2 + n * 2))
             (rd ScaleAndZeros ((k div BLOCK_K) * ldc * 2 + n * 2 + 1)))
          c)
       [0..<K] 0"

definition tinygemm_ref :: "isa \<Rightarrow> fpenv \<Rightarrow> tile_kernel" where
  "tinygemm_ref v fp BLOCK_M' BLOCK_N' A B ScaleAndZeros C_ptr lda ldb ldc K BLOCK_K C =
     C @ concat (map (\<lambda>m. map (\<lambda>n.
         (C_ptr + m * ldc + n,
          round_bf16 fp (tile_element v fp BLOCK_N' A B ScaleAndZeros lda ldb ldc K BLOCK_K m n)))
       [0..<BLOCK_N']) [0..<BLOCK_M'])"

text \<open>
  The register \<^verbatim>\<open>vb[c]\<close> of the vectorized kernels before its multiply-add with the
  scale and the zero point, as the row-0 part of \<^verbatim>\<open>compute\<close> makes it at \<open>k\<close>: the
  table lookup of AVX512, the nibbles converted to \<^verbatim>\<open>float\<close> of AVX2.
\<close>

definition raw_512 :: "nat \<Rightarrow> 8 word ptr \<Rightarrow> nat \<Rightarrow> nat \<Rightarrow> nat \<Rightarrow> real vec" where
  "raw_512 COLS B ldb k c =
     (if COLS = 4 then
        (let b4 = mm_load_bytes (ptr_add B (k * ldb));
             b32 = mm_cvtepu8_epi32
                     (if c = 0 \<or> c = 2 then mm_castsi256_si128 b4 else mm_extracti128_si256 b4 1)
         in mm512_permutexvar_ps (if c = 0 \<or> c = 1 then b32 else mm_srli_epi32 b32 4) lut512)
      else
        mm512_permutexvar_ps
          (mm_cvtepu8_epi32 (epi16_bytes (conver_int4_to_int8 (ptr_add B (k * ldb + c * 8)))))
          lut512)"

definition raw_256 :: "fpenv \<Rightarrow> nat \<Rightarrow> 8 word ptr \<Rightarrow> nat \<Rightarrow> nat \<Rightarrow> nat \<Rightarrow> real vec" where
  "raw_256 fp COLS B ldb k c =
     (if COLS = 4 then
        (let b4 = mm_load_bytes (ptr_add B (k * ldb));
             b32 = mm_cvtepu8_epi32
                     (if c = 0 \<or> c = 2 then b4 else mm_shuffle_epi32 b4 (MM_SHUFFLE 3 2 3 2))
         in mm_cvtepi32_ps fp
              (if c = 0 \<or> c = 1 then mm_and_epi32 b32 (mm_set1_epi32 0xF)
               else mm_srli_epi32 b32 4))
      else
        (let b8 = epi16_bytes (conver_int4_to_int8 (ptr_add B (k * ldb + (c - c mod 2) * 4)))
         in mm_cvtepi32_ps fp
              (mm_cvtepu8_epi32 (mm_set1_epi64x (mm_extract_epi64 b8 (c mod 2))))))"

text \<open>
  The value that a tile kernel stores at row \<open>m\<close> and column \<open>n\<close> of its tile, read
  off the kernel: the conversion to \<^verbatim>\<open>BFloat16\<close> of \<^verbatim>\<open>c_val\<close> for the non-vectorized
  kernel, and of lane \<open>n mod W\<close> of the accumulator \<^verbatim>\<open>vc[m * COLS + n / W]\<close> after the loop
  over \<^verbatim>\<open>k\<close> for a vectorized kernel with registers of \<open>W\<close> lanes.
\<close>

definition stored_value ::
  "isa \<Rightarrow> fpenv \<Rightarrow> nat \<Rightarrow> nat \<Rightarrow> real ptr \<Rightarrow> 8 word ptr \<Rightarrow> real ptr \<Rightarrow> nat \<Rightarrow> nat \<Rightarrow> nat \<Rightarrow>
   nat \<Rightarrow> nat \<Rightarrow> nat \<Rightarrow> nat \<Rightarrow> real" where
  "stored_value v fp BLOCK_M' BLOCK_N' A B ScaleAndZeros lda ldb ldc K BLOCK_K m n =
     (case v of
        Scalar \<Rightarrow> round_bf16 fp (c_val_loop fp A B ScaleAndZeros lda ldb ldc K BLOCK_K m n)
      | AVX512 \<Rightarrow>
          round_bf16 fp
            (vc (k_loop (load_scale_and_zeros_512 ScaleAndZeros ldc)
                   (compute_512 fp BLOCK_M' (BLOCK_N' div 16) A B lda ldb)
                   BLOCK_M' (BLOCK_N' div 16) K BLOCK_K
                   (ForcedUnroll (BLOCK_M' * (BLOCK_N' div 16)) loadc regs0))
               (m * (BLOCK_N' div 16) + n div 16) (n mod 16))
      | AVX2 \<Rightarrow>
          round_bf16 fp
            (vc (k_loop (load_scale_and_zeros_256 fp ScaleAndZeros ldc)
                   (compute_256 fp BLOCK_M' (BLOCK_N' div 8) A B lda ldb)
                   BLOCK_M' (BLOCK_N' div 8) K BLOCK_K
                   (ForcedUnroll (BLOCK_M' * (BLOCK_N' div 8)) loadc regs0))
               (m * (BLOCK_N' div 8) + n div 8) (n mod 8)))"

text \<open>
  The value that \<^verbatim>\<open>int4pack_mm_kernel\<close> stores at row \<open>r\<close> and column \<open>c\<close> of the whole
  output: the value that the kernel of the tile \<open>(r div BLOCK_M, c div BLOCK_N)\<close> stores at
  row \<open>r mod BLOCK_M\<close> and column \<open>c mod BLOCK_N\<close> of the tile, with the sizes and the
  pointers that the scheduler gives this tile.
\<close>

definition output_element ::
  "isa \<Rightarrow> fpenv \<Rightarrow> real ptr \<Rightarrow> nat \<Rightarrow> 8 word ptr \<Rightarrow> nat \<Rightarrow> real ptr \<Rightarrow> nat \<Rightarrow> nat \<Rightarrow>
   nat \<Rightarrow> nat \<Rightarrow> real" where
  "output_element v fp A_data M B_data qGroupSize S_data N K r c =
     (let mb = r div BLOCK_M;
          nb = c div BLOCK_N v;
          mb_size = min BLOCK_M (M - mb * BLOCK_M);
          nb_size = min (BLOCK_N v) (N - nb * BLOCK_N v)
      in stored_value v fp mb_size nb_size
           (ptr_add A_data (mb * BLOCK_M * K))
           (ptr_add B_data (nb * BLOCK_N v * K div 2))
           (ptr_add S_data (nb * BLOCK_N v * 2))
           K (nb_size div 2) N K qGroupSize (r mod BLOCK_M) (c mod BLOCK_N v))"

text \<open>
  The stores of the tile \<open>(mb, nb)\<close>, in the order of the rows and, in a row, of the
  columns: what the scheduler's call of the tile kernel is compared with.
\<close>

definition tile_stores ::
  "isa \<Rightarrow> fpenv \<Rightarrow> real ptr \<Rightarrow> nat \<Rightarrow> 8 word ptr \<Rightarrow> nat \<Rightarrow> real ptr \<Rightarrow> nat \<Rightarrow> nat \<Rightarrow>
   nat \<Rightarrow> nat \<Rightarrow> real writes" where
  "tile_stores v fp A_data M B_data qGroupSize S_data N K mb nb =
     concat (map (\<lambda>m. map (\<lambda>n.
         ((mb * BLOCK_M + m) * N + (nb * BLOCK_N v + n),
          output_element v fp A_data M B_data qGroupSize S_data N K
            (mb * BLOCK_M + m) (nb * BLOCK_N v + n)))
       [0..<min (BLOCK_N v) (N - nb * BLOCK_N v)]) [0..<min BLOCK_M (M - mb * BLOCK_M)])"

text \<open>
  The naive reference of the spec for the whole product, in exact arithmetic:
  \<open>C[m, n]\<close> is the sum over \<open>k\<close> of \<open>A[m, k] * (W[k, n] * scale + zero)\<close>, with the
  pair of the group \<open>k div group_size\<close> and the column \<open>n\<close>. \<open>W k n\<close> is the int4 value
  of the weight.
\<close>

definition reference_mm ::
  "real buf \<Rightarrow> (nat \<Rightarrow> nat \<Rightarrow> real) \<Rightarrow> real buf \<Rightarrow> nat \<Rightarrow> nat \<Rightarrow> nat \<Rightarrow> nat \<Rightarrow> nat \<Rightarrow> real" where
  "reference_mm A W ScaleAndZeros group_size N K m n =
     (\<Sum>k\<leftarrow>[0..<K].
        A (m * K + k) *
        (W k n * ScaleAndZeros (((k div group_size) * N + n) * 2) +
         ScaleAndZeros (((k div group_size) * N + n) * 2 + 1)))"

section \<open>The scheduler's loop and the tile grid\<close>

lemma step_div_mod:
  assumes "0 < NB"
  shows "data_index_step (i div NB) MB (i mod NB) NB = (Suc i div NB, Suc i mod NB)"
  using assms by (auto simp: data_index_step_def div_Suc mod_Suc)

lemma tile_loop_run:
  assumes "0 < NB"
  shows "tile_loop tile MB NB left (i div NB) (i mod NB) C =
         run_tiles tile (map (\<lambda>j. (j div NB, j mod NB)) [i..<i + left]) C"
proof (induction left arbitrary: i C)
  case 0
  show ?case by simp
next
  case (Suc left)
  have l: "[i..<i + Suc left] = i # [Suc i..<Suc i + left]"
    by (simp add: upt_rec)
  show ?case
    by (simp only: l tile_loop.simps list.map run_tiles.simps step_div_mod[OF assms]
          split: prod.splits option.splits)
       (simp add: Suc.IH split: prod.splits option.splits)
qed

lemma mm_range_run:
  assumes "0 < NB"
  shows "mm_range kern BN M N K BK A B S MB NB b e C =
         run_tiles (mm_tile kern BN M N K BK A B S)
           (map (\<lambda>j. (j div NB, j mod NB)) [b..<e]) C"
proof (cases "b \<le> e")
  case True
  then have "[b..<b + (e - b)] = [b..<e]" by simp
  then show ?thesis
    using tile_loop_run[OF assms, of "mm_tile kern BN M N K BK A B S" MB "e - b" b C]
    by (simp add: mm_range_def data_index_init_def)
next
  case False
  then show ?thesis by (simp add: mm_range_def data_index_init_def)
qed

lemma sched_run:
  "int4pack_mm_sched kern BN C A M B gs S N K =
     run_tiles (mm_tile kern BN M N K gs A B S)
       (map (\<lambda>j. (j div ((N + BN - 1) div BN), j mod ((N + BN - 1) div BN)))
          [0..<(M + BLOCK_M - 1) div BLOCK_M * ((N + BN - 1) div BN)]) C"
proof (cases "0 < (M + BLOCK_M - 1) div BLOCK_M * ((N + BN - 1) div BN)")
  case True
  then have "0 < (N + BN - 1) div BN" by simp
  from mm_range_run[OF this] True show ?thesis
    by (simp add: int4pack_mm_sched_def parallel_for_def Let_def)
next
  case False
  then show ?thesis
    by (auto simp: int4pack_mm_sched_def parallel_for_def Let_def)
qed

lemma run_tiles_append:
  "run_tiles tile (xs @ ys) C =
     (case run_tiles tile xs C of
        (Some e, C') \<Rightarrow> (Some e, C')
      | (None, C') \<Rightarrow> run_tiles tile ys C')"
  by (induction xs arbitrary: C) (auto split: prod.splits option.splits)

lemma ceil_div:
  fixes a b :: nat
  assumes "0 < b"
  shows "(a + b - 1) div b = nat \<lceil>real a / real b\<rceil>"
proof -
  define q where "q = (a + b - 1) div b"
  define r where "r = (a + b - 1) mod b"
  have e: "a + b - 1 = q * b + r" by (simp add: q_def r_def)
  have r: "r < b" using assms by (simp add: r_def)
  have up: "a \<le> q * b" using e r by linarith
  have lo: "int q * int b - int b < int a"
  proof -
    have "int (a + b - 1) = int (q * b + r)" using e by simp
    moreover have "int (a + b - 1) = int a + int b - 1" using assms by linarith
    ultimately have "int a + int b - 1 = int q * int b + int r" by simp
    then show ?thesis by linarith
  qed
  have "real a \<le> real q * real b" using up by (metis of_nat_le_iff of_nat_mult)
  then have 1: "real a / real b \<le> of_int (int q)" using assms by (simp add: field_simps)
  have "real_of_int (int q * int b - int b) < real_of_int (int a)" using lo by linarith
  then have "(real q - 1) * real b < real a" by (simp add: algebra_simps)
  then have 2: "of_int (int q) - 1 < real a / real b" using assms by (simp add: field_simps)
  have "\<lceil>real a / real b\<rceil> = int q" by (rule ceiling_unique[OF 2 1])
  then show ?thesis by (simp add: q_def)
qed


section \<open>Tile shapes and the dispatch\<close>

lemma fst_LAUNCH_NB:
  "fst (LAUNCH_TINYGEMM_NB_SIZE kern MB_SIZE nb_size A B S Cp N K BK C) =
     (if nb_size \<in> {16, 32, 48, 64} then None else Some (Unsupported_n_block_size nb_size))"
  by (simp add: LAUNCH_TINYGEMM_NB_SIZE_def)

lemma fst_mm_dispatch:
  "fst (mm_dispatch kern mb_size nb_size A B S Cp N K BK C) =
     (if mb_size \<in> {1, 2, 3, 4} then
        (if nb_size \<in> {16, 32, 48, 64} then None else Some (Unsupported_n_block_size nb_size))
      else Some (Unsupported_m_block_size mb_size))"
  by (simp add: mm_dispatch_def fst_LAUNCH_NB)


lemma run_tiles_all_ok:
  assumes "\<And>mb nb C. (mb, nb) \<in> set ts \<Longrightarrow> fst (tile mb nb C) = None"
  shows "fst (run_tiles tile ts C) = None"
  using assms
proof (induction ts arbitrary: C)
  case Nil
  show ?case by simp
next
  case (Cons t ts)
  obtain mb nb where t: "t = (mb, nb)" by (cases t)
  have "fst (tile mb nb C) = None" using Cons.prems[of mb nb C] t by simp
  then obtain C' where c: "tile mb nb C = (None, C')" by (cases "tile mb nb C") auto
  have "fst (run_tiles tile ts C') = None"
    by (rule Cons.IH) (use Cons.prems in auto)
  then show ?case by (simp add: t c)
qed

lemma run_tiles_first_bad:
  assumes "\<And>mb nb C. (mb, nb) \<in> set pre \<Longrightarrow> fst (tile mb nb C) = None"
    and "\<And>C. fst (tile mb nb C) = Some e"
  shows "fst (run_tiles tile (pre @ (mb, nb) # rest) C) = Some e"
proof -
  have "fst (run_tiles tile pre C) = None" by (rule run_tiles_all_ok) (use assms(1) in auto)
  then obtain C' where c: "run_tiles tile pre C = (None, C')"
    by (cases "run_tiles tile pre C") auto
  obtain C'' where "tile mb nb C' = (Some e, C'')"
    using assms(2)[of C'] by (cases "tile mb nb C'") auto
  then show ?thesis by (simp add: run_tiles_append c)
qed

lemma fst_mm_tile:
  "fst (mm_tile kern BN M N K BK A B S mb nb C) =
     (let mb_size = min (int BLOCK_M) (int M - int (mb * BLOCK_M));
          nb_size = min (int BN) (int N - int (nb * BN))
      in if mb_size \<in> {1, 2, 3, 4} then
           (if nb_size \<in> {16, 32, 48, 64} then None else Some (Unsupported_n_block_size nb_size))
         else Some (Unsupported_m_block_size mb_size))"
  unfolding mm_tile_def Let_def by (rule fst_mm_dispatch)

lemma below_ceil:
  fixes a b :: nat
  assumes "0 < b" "j < (a + b - 1) div b"
  shows "j * b < a"
proof -
  have "Suc j \<le> (a + b - 1) div b" using assms(2) by simp
  then have "Suc j * b \<le> a + b - 1" using assms(1) by (simp add: less_eq_div_iff_mult_less_eq)
  then show ?thesis using assms(1) by simp
qed

lemma mb_size_range:
  assumes "mb < (M + BLOCK_M - 1) div BLOCK_M"
  shows "min (int BLOCK_M) (int M - int (mb * BLOCK_M)) \<in> {1, 2, 3, 4}"
proof -
  have "mb * BLOCK_M < M" by (rule below_ceil[OF _ assms]) (simp add: BLOCK_M_def)
  then have "1 \<le> int M - int (mb * BLOCK_M)" by linarith
  then show ?thesis by (auto simp: BLOCK_M_def min_def)
qed

lemma nb_size_full:
  assumes "0 < BN" "Suc nb < (N + BN - 1) div BN"
  shows "min (int BN) (int N - int (nb * BN)) = int BN"
proof -
  have "Suc nb * BN < N" by (rule below_ceil[OF assms])
  then have "nb * BN + BN < N" by (simp add: add.commute)
  then have "int BN \<le> int N - int (nb * BN)" by linarith
  then show ?thesis by simp
qed

lemma nb_size_last:
  assumes "0 < BN" "0 < N"
  shows "min (int BN) (int N - int (((N + BN - 1) div BN - 1) * BN)) =
         (if N mod BN = 0 then int BN else int (N mod BN))"
proof (cases "N mod BN = 0")
  case True
  then obtain q where q: "N = q * BN" by (metis mod_eq_0_iff_dvd dvd_def mult.commute)
  then have q0: "0 < q" using assms by (cases q) auto
  have "(N + BN - 1) div BN = q"
  proof -
    define r where "r = BN - 1"
    have r: "r < BN" using assms by (simp add: r_def)
    have "N + BN - 1 = q * BN + r" using q assms by (simp add: r_def)
    moreover have "(q * BN + r) div BN = q" using r by simp
    ultimately show ?thesis by (simp only:)
  qed
  moreover have "int (q * BN) - int ((q - 1) * BN) = int BN"
    using q0 by (cases q) (auto simp: algebra_simps)
  ultimately show ?thesis using True q by simp
next
  case False
  define q where "q = N div BN"
  define r where "r = N mod BN"
  have N: "N = q * BN + r" by (simp add: q_def r_def)
  have r: "0 < r" "r < BN" using False assms by (simp_all add: r_def)
  define r' where "r' = r - 1"
  have r': "r' < BN" "r = Suc r'" using r by (simp_all add: r'_def)
  have "N + BN - 1 = (q + 1) * BN + r'" using N r' by (simp add: algebra_simps)
  moreover have "((q + 1) * BN + r') div BN = q + 1" using r'(1) by (simp only: div_mult_self3) simp
  ultimately have "(N + BN - 1) div BN = q + 1" by (simp only:)
  moreover have "int N - int (q * BN) = int r" using N by simp
  ultimately show ?thesis using False r by (simp add: r_def[symmetric])
qed

lemma nb_size_supported:
  assumes BN: "BN = 32 \<or> BN = 64" and N: "N mod 16 = 0" and nb: "nb < (N + BN - 1) div BN"
  shows "min (int BN) (int N - int (nb * BN)) \<in> {16, 32, 48, 64}"
proof (cases "Suc nb < (N + BN - 1) div BN")
  case True
  have "min (int BN) (int N - int (nb * BN)) = int BN"
    by (rule nb_size_full[OF _ True]) (use BN in auto)
  then show ?thesis using BN by auto
next
  case False
  then have nb': "nb = (N + BN - 1) div BN - 1" using nb by simp
  have N0: "0 < N" using nb BN by (cases "N = 0") auto
  have l: "min (int BN) (int N - int (nb * BN)) =
         (if N mod BN = 0 then int BN else int (N mod BN))"
    unfolding nb' by (rule nb_size_last[OF _ N0]) (use BN in auto)
  have "16 dvd BN" using BN by auto
  then have "(N mod BN) mod 16 = 0" using N by (simp add: mod_mod_cancel)
  moreover have "N mod BN < 64" using BN by auto
  ultimately have "N mod BN \<in> {0, 16, 32, 48}" by auto
  then show ?thesis using BN l by auto
qed


lemma sched_no_error:
  assumes BN: "BN = 32 \<or> BN = 64" and N: "N mod 16 = 0"
  shows "fst (int4pack_mm_sched kern BN C A M B gs S N K) = None"
  unfolding sched_run
proof (rule run_tiles_all_ok)
  fix mb nb C'
  let ?NB = "(N + BN - 1) div BN" and ?MB = "(M + BLOCK_M - 1) div BLOCK_M"
  assume "(mb, nb) \<in> set (map (\<lambda>j. (j div ?NB, j mod ?NB)) [0..<?MB * ?NB])"
  then obtain j where j: "j < ?MB * ?NB" "mb = j div ?NB" "nb = j mod ?NB" by auto
  then have NB: "0 < ?NB" by (cases "?NB = 0") auto
  have mb: "mb < ?MB" using j NB by (simp add: less_mult_imp_div_less)
  have nb: "nb < ?NB" using j NB by simp
  show "fst (mm_tile kern BN M N K gs A B S mb nb C') = None"
    using mb_size_range[OF mb] nb_size_supported[OF BN N nb]
    by (simp only: fst_mm_tile Let_def if_True)
qed

lemma upt_split_at:
  fixes n m :: nat
  assumes "0 < n" "n \<le> m"
  shows "[0..<m] = [0..<n - 1] @ (n - 1) # [n..<m]"
proof -
  obtain n' where n: "n = Suc n'" using assms(1) by (cases n) auto
  have "[0..<m] = [0..<n'] @ [n'..<m]"
    using assms(2) n by (metis Suc_leD le0 le_add_diff_inverse upt_add_eq_append)
  moreover have "[n'..<m] = n' # [Suc n'..<m]" using assms(2) n by (simp add: upt_conv_Cons)
  ultimately show ?thesis by (simp add: n)
qed

lemma sched_n_error:
  assumes BN: "BN = 32 \<or> BN = 64" and N: "N mod 16 \<noteq> 0" and M: "1 \<le> M"
  shows "fst (int4pack_mm_sched kern BN C A M B gs S N K) =
         Some (Unsupported_n_block_size (int (N mod BN)))"
proof -
  let ?NB = "(N + BN - 1) div BN" and ?MB = "(M + BLOCK_M - 1) div BLOCK_M"
  let ?f = "\<lambda>j. (j div ?NB, j mod ?NB)"
  have BN0: "0 < BN" using BN by auto
  have N0: "0 < N" using N by (cases "N = 0") auto
  have NB: "0 < ?NB" using N0 BN0 by (simp add: div_greater_zero_iff)
  have MB: "0 < ?MB" using M by (simp add: BLOCK_M_def div_greater_zero_iff)
  have le: "?NB \<le> ?MB * ?NB" using MB by simp
  have "[0..<?MB * ?NB] = [0..<?NB - 1] @ (?NB - 1) # [?NB..<?MB * ?NB]"
    by (rule upt_split_at[OF NB le])
  then have split: "map ?f [0..<?MB * ?NB] =
      map ?f [0..<?NB - 1] @ (0, ?NB - 1) # map ?f [?NB..<?MB * ?NB]"
    using NB by simp
  have dvd: "16 dvd BN" using BN by auto
  have m16: "(N mod BN) mod 16 \<noteq> 0" using N dvd by (simp add: mod_mod_cancel)
  then have nz: "N mod BN \<noteq> 0" by (cases "N mod BN = 0") auto
  have lt: "N mod BN < 64" using BN by auto
  have bad: "int (N mod BN) \<notin> {16, 32, 48, 64}" using m16 lt by auto
  have last: "min (int BN) (int N - int ((?NB - 1) * BN)) = int (N mod BN)"
    using nb_size_last[OF BN0 N0] nz by simp
  show ?thesis
    unfolding sched_run split
  proof (rule run_tiles_first_bad)
    fix mb nb C'
    assume "(mb, nb) \<in> set (map ?f [0..<?NB - 1])"
    then obtain j where j: "j < ?NB - 1" "mb = j div ?NB" "nb = j mod ?NB" by auto
    then have mb: "mb = 0" and nb: "nb = j" by simp_all
    have 1: "min (int BLOCK_M) (int M - int (mb * BLOCK_M)) \<in> {1, 2, 3, 4}"
      by (rule mb_size_range) (use MB mb in simp)
    have "Suc nb < ?NB" using j nb by simp
    then have "min (int BN) (int N - int (nb * BN)) = int BN" by (rule nb_size_full[OF BN0])
    then have 2: "min (int BN) (int N - int (nb * BN)) \<in> {16, 32, 48, 64}" using BN by auto
    show "fst (mm_tile kern BN M N K gs A B S mb nb C') = None"
      using 1 2 by (simp only: fst_mm_tile Let_def if_True)
  next
    fix C'
    have 1: "min (int BLOCK_M) (int M - int (0 * BLOCK_M)) \<in> {1, 2, 3, 4}"
      by (rule mb_size_range) (use MB in simp)
    show "fst (mm_tile kern BN M N K gs A B S 0 (?NB - 1) C') =
          Some (Unsupported_n_block_size (int (N mod BN)))"
      using 1 bad by (simp only: fst_mm_tile Let_def last if_True if_False)
  qed
qed

section \<open>The layout of the packed buffer\<close>

lemma fold_frame:
  assumes "\<And>x P. x \<in> set xs \<Longrightarrow> body x P j = P j"
  shows "fold body xs P j = P j"
  using assms by (induction xs arbitrary: P) simp_all

lemma fold_at:
  assumes "x \<in> set xs"
    and "\<And>P. body x P j = v"
    and "\<And>y P. y \<in> set xs \<Longrightarrow> y \<noteq> x \<Longrightarrow> body y P j = P j"
  shows "fold body xs P j = v"
  using assms
proof (induction xs arbitrary: P)
  case Nil
  then show ?case by simp
next
  case (Cons y ys)
  show ?case
  proof (cases "x \<in> set ys")
    case True
    have "fold body ys (body y P) j = v"
      by (rule Cons.IH[OF True Cons.prems(2)]) (use Cons.prems(3) in auto)
    then show ?thesis by simp
  next
    case False
    then have xy: "x = y" using Cons.prems(1) by simp
    have "fold body ys (body y P) j = body y P j"
      by (rule fold_frame) (use Cons.prems(3) False xy in auto)
    then show ?thesis using Cons.prems(2) xy by simp
  qed
qed

lemma m15: "(0x0F :: 'a::len word) = mask 4"
  by (simp add: mask_eq_exp_minus_1)

lemma packed_byte_low:
  "packed_byte val1 val0 AND 0x0F = ucast val0 AND 0x0F"
  unfolding packed_byte_def m15
  by (rule bit_word_eqI) (auto simp: bit_simps)

lemma packed_byte_high:
  "drop_bit 4 (packed_byte val1 val0) = (ucast val1 AND 0x0F) OR drop_bit 4 (ucast val0)"
  unfolding packed_byte_def m15
  by (rule bit_word_eqI) (auto simp: bit_simps)

lemma packed_byte_nibbles:
  assumes "val0 < 16" "val1 < 16"
  shows "packed_byte val1 val0 AND 0x0F = ucast val0"
    and "drop_bit 4 (packed_byte val1 val0) = ucast val1"
proof -
  have a: "val0 AND mask 4 = val0" using assms(1) less_mask_eq[of val0 4] by simp
  have b: "val1 AND mask 4 = val1" using assms(2) less_mask_eq[of val1 4] by simp
  have "packed_byte val1 (val0 AND mask 4) AND mask 4 = ucast (val0 AND mask 4)"
    unfolding packed_byte_def by (rule bit_word_eqI) (auto simp: bit_simps)
  then show "packed_byte val1 val0 AND 0x0F = ucast val0" by (simp only: a m15)
  have "drop_bit 4 (packed_byte (val1 AND mask 4) (val0 AND mask 4)) = ucast (val1 AND mask 4)"
    unfolding packed_byte_def by (rule bit_word_eqI) (auto simp: bit_simps)
  then show "drop_bit 4 (packed_byte val1 val0) = ucast val1" by (simp only: a b)
qed

lemma pack_avx512_full_frame:
  assumes "j < dst + k * 32 \<or> dst + k * 32 + 32 \<le> j"
  shows "pack_avx512_full w src dst K k P j = P j"
  unfolding pack_avx512_full_def
  by (rule fold_frame) (use assms in \<open>auto simp: Let_def\<close>)

lemma pack_avx512_full_lo:
  assumes "d < 16"
  shows "pack_avx512_full w src dst K k P (dst + k * 32 + d) =
         packed_byte (w (src + (d + 32) * K + k)) (w (src + d * K + k))"
  unfolding pack_avx512_full_def
  by (rule fold_at[where x = d]) (use assms in \<open>auto simp: Let_def\<close>)

lemma pack_avx512_full_hi:
  assumes "d < 16"
  shows "pack_avx512_full w src dst K k P (dst + k * 32 + 16 + d) =
         packed_byte (w (src + (d + 48) * K + k)) (w (src + (d + 16) * K + k))"
  unfolding pack_avx512_full_def
  by (rule fold_at[where x = d]) (use assms in \<open>auto simp: Let_def\<close>)

lemma pack_avx2_full_frame:
  assumes "j < dst + k * 16 \<or> dst + k * 16 + 16 \<le> j"
  shows "pack_avx2_full w src dst K k P j = P j"
  unfolding pack_avx2_full_def
  by (rule fold_frame) (use assms in \<open>auto simp: Let_def\<close>)

lemma pack_avx2_full_at:
  assumes "d < 16"
  shows "pack_avx2_full w src dst K k P (dst + k * 16 + d) =
         packed_byte (w (src + (d + 16) * K + k)) (w (src + d * K + k))"
  unfolding pack_avx2_full_def
  by (rule fold_at[where x = d]) (use assms in \<open>auto simp: Let_def\<close>)

lemma pack_adjacent_frame:
  assumes "j < dst + (k * nb_size) div 2 \<or> dst + (k * nb_size) div 2 + (nb_size + 1) div 2 \<le> j"
  shows "pack_adjacent w src dst K nb_size k P j = P j"
  unfolding pack_adjacent_def step2_def
  by (rule fold_frame) (use assms in auto)

lemma pack_adjacent_at:
  assumes "t < (nb_size + 1) div 2"
  shows "pack_adjacent w src dst K nb_size k P (dst + (k * nb_size) div 2 + t) =
         packed_byte (w (src + 2 * t * K + K + k)) (w (src + 2 * t * K + k))"
  unfolding pack_adjacent_def step2_def
  by (rule fold_at[where x = "2 * t"]) (use assms in auto)

lemma BLOCK_N_simps [simp]:
  "BLOCK_N AVX512 = 64" "BLOCK_N AVX2 = 32" "BLOCK_N Scalar = 32"
  by (simp_all add: BLOCK_N_def Vectorized_float_size_def)

lemma BLOCK_N_cases: "BLOCK_N v = 32 \<or> BLOCK_N v = 64"
  by (cases v) simp_all

lemma even_half:
  assumes "even (nb::nat)"
  shows "(k * nb) div 2 = k * (nb div 2)" "(nb + 1) div 2 = nb div 2"
  using assms by (auto elim!: evenE)

lemma pack_row_frame:
  assumes "even nb" "j < dst + k * (nb div 2) \<or> dst + (k + 1) * (nb div 2) \<le> j"
  shows "pack_row v w src dst K nb k P j = P j"
proof -
  have adj: "pack_adjacent w src dst K nb k P j = P j"
    by (rule pack_adjacent_frame) (use assms in \<open>auto simp: even_half\<close>)
  show ?thesis
  proof (cases v)
    case AVX512
    then show ?thesis using assms(2) adj
      by (auto simp: pack_row_def intro!: pack_avx512_full_frame)
  next
    case AVX2
    then show ?thesis using assms(2) adj
      by (auto simp: pack_row_def intro!: pack_avx2_full_frame)
  next
    case Scalar
    then show ?thesis using adj by (simp add: pack_row_def)
  qed
qed

lemma pack_row_adjacent:
  assumes "v = Scalar \<or> nb \<noteq> BLOCK_N v" "even nb" "t < nb div 2"
  shows "pack_row v w src dst K nb k P (dst + k * (nb div 2) + t) =
         packed_byte (w (src + (2 * t + 1) * K + k)) (w (src + 2 * t * K + k))"
proof -
  have "pack_adjacent w src dst K nb k P (dst + (k * nb) div 2 + t) =
        packed_byte (w (src + 2 * t * K + K + k)) (w (src + 2 * t * K + k))"
    by (rule pack_adjacent_at) (use assms in \<open>simp add: even_half\<close>)
  then have "pack_adjacent w src dst K nb k P (dst + k * (nb div 2) + t) =
        packed_byte (w (src + (2 * t + 1) * K + k)) (w (src + 2 * t * K + k))"
    using assms(2) by (simp add: even_half algebra_simps)
  then show ?thesis using assms(1) by (cases v) (auto simp: pack_row_def)
qed

lemma pack_row_avx512_lo:
  assumes "d < 16"
  shows "pack_row AVX512 w src dst K 64 k P (dst + k * 32 + d) =
         packed_byte (w (src + (d + 32) * K + k)) (w (src + d * K + k))"
  using pack_avx512_full_lo[OF assms] by (simp add: pack_row_def)

lemma pack_row_avx512_hi:
  assumes "d < 16"
  shows "pack_row AVX512 w src dst K 64 k P (dst + k * 32 + 16 + d) =
         packed_byte (w (src + (d + 48) * K + k)) (w (src + (d + 16) * K + k))"
  using pack_avx512_full_hi[OF assms] by (simp add: pack_row_def)

lemma pack_row_avx2:
  assumes "d < 16"
  shows "pack_row AVX2 w src dst K 32 k P (dst + k * 16 + d) =
         packed_byte (w (src + (d + 16) * K + k)) (w (src + d * K + k))"
  using pack_avx2_full_at[OF assms] by (simp add: pack_row_def)

lemma pack_row_indep:
  assumes "even nb" "t < nb div 2"
  shows "pack_row v w src dst K nb k P (dst + k * (nb div 2) + t) =
         pack_row v w src dst K nb k P' (dst + k * (nb div 2) + t)"
proof (cases "v = Scalar \<or> nb \<noteq> BLOCK_N v")
  case True
  show ?thesis by (simp only: pack_row_adjacent[OF True assms])
next
  case False
  then consider "v = AVX512" "nb = 64" | "v = AVX2" "nb = 32"
    by (cases v) auto
  then show ?thesis
  proof cases
    case 1
    show ?thesis
    proof (cases "t < 16")
      case True
      then show ?thesis using 1 by (simp add: pack_row_avx512_lo)
    next
      case False
      define d where "d = t - 16"
      have d: "t = 16 + d" "d < 16" using False assms(2) 1 by (simp_all add: d_def)
      have e: "dst + k * (nb div 2) + t = dst + k * 32 + 16 + d" using 1 d by simp
      show ?thesis unfolding e unfolding 1 by (simp only: pack_row_avx512_hi[OF d(2)])
    qed
  next
    case 2
    then show ?thesis using assms(2) by (simp add: pack_row_avx2)
  qed
qed

lemma pack_block_frame:
  assumes "even (min (BLOCK_N v) (N - i * BLOCK_N v))"
    and "j < (i * K * BLOCK_N v) div 2 \<or>
         (i * K * BLOCK_N v) div 2 + K * (min (BLOCK_N v) (N - i * BLOCK_N v) div 2) \<le> j"
  shows "pack_block v w N K i P j = P j"
  unfolding pack_block_def Let_def
proof (rule fold_frame)
  fix k P'
  let ?nb = "min (BLOCK_N v) (N - i * BLOCK_N v)" and ?dst = "(i * K * BLOCK_N v) div 2"
  assume "k \<in> set [0..<K]"
  then have "Suc k \<le> K" by simp
  then have "Suc k * (?nb div 2) \<le> K * (?nb div 2)" by (rule mult_le_mono1)
  then have "j < ?dst + k * (?nb div 2) \<or> ?dst + (k + 1) * (?nb div 2) \<le> j"
    using assms(2) by auto
  then show "pack_row v w (i * BLOCK_N v * K) ?dst K ?nb k P' j = P' j"
    by (rule pack_row_frame[OF assms(1)])
qed

lemma pack_block_at:
  assumes ev: "even (min (BLOCK_N v) (N - i * BLOCK_N v))"
    and k: "k < K" and t: "t < min (BLOCK_N v) (N - i * BLOCK_N v) div 2"
  shows "pack_block v w N K i P
           ((i * K * BLOCK_N v) div 2 + k * (min (BLOCK_N v) (N - i * BLOCK_N v) div 2) + t) =
         pack_row v w (i * BLOCK_N v * K) ((i * K * BLOCK_N v) div 2) K
           (min (BLOCK_N v) (N - i * BLOCK_N v)) k P'
           ((i * K * BLOCK_N v) div 2 + k * (min (BLOCK_N v) (N - i * BLOCK_N v) div 2) + t)"
  unfolding pack_block_def Let_def
proof (rule fold_at[where x = k])
  let ?nb = "min (BLOCK_N v) (N - i * BLOCK_N v)" and ?dst = "(i * K * BLOCK_N v) div 2"
  let ?h = "?nb div 2"
  show "k \<in> set [0..<K]" using k by simp
  show "pack_row v w (i * BLOCK_N v * K) ?dst K ?nb k P'' (?dst + k * ?h + t) =
        pack_row v w (i * BLOCK_N v * K) ?dst K ?nb k P' (?dst + k * ?h + t)" for P''
    by (rule pack_row_indep[OF ev t])
  show "pack_row v w (i * BLOCK_N v * K) ?dst K ?nb y P'' (?dst + k * ?h + t) =
        P'' (?dst + k * ?h + t)" if "y \<in> set [0..<K]" "y \<noteq> k" for y P''
  proof (rule pack_row_frame[OF ev])
    show "?dst + k * ?h + t < ?dst + y * ?h \<or> ?dst + (y + 1) * ?h \<le> ?dst + k * ?h + t"
    proof (cases "y < k")
      case True
      then have "Suc y \<le> k" by simp
      then have "Suc y * ?h \<le> k * ?h" by (rule mult_le_mono1)
      then show ?thesis by simp
    next
      case False
      then have "Suc k \<le> y" using that(2) by simp
      then have "Suc k * ?h \<le> y * ?h" by (rule mult_le_mono1)
      then show ?thesis using t by simp
    qed
  qed
qed

lemma even_BLOCK_N: "even (BLOCK_N v)"
  by (cases v) simp_all

lemma even_nb_size:
  assumes "even N"
  shows "even (min (BLOCK_N v) (N - i * BLOCK_N v))"
  using assms even_BLOCK_N[of v] by (auto simp: min_def)

lemma dst_half: "(i * K * BLOCK_N v) div 2 = i * (K * (BLOCK_N v div 2))"
  using even_BLOCK_N[of v] by (auto elim!: evenE)

lemma packed_at:
  assumes N: "even N" and i: "i < (N + BLOCK_N v - 1) div BLOCK_N v" and k: "k < K"
    and t: "t < min (BLOCK_N v) (N - i * BLOCK_N v) div 2"
  shows "weight_to_int4pack_kernel v P0 w N K
           ((i * K * BLOCK_N v) div 2 + k * (min (BLOCK_N v) (N - i * BLOCK_N v) div 2) + t) =
         pack_row v w (i * BLOCK_N v * K) ((i * K * BLOCK_N v) div 2) K
           (min (BLOCK_N v) (N - i * BLOCK_N v)) k P'
           ((i * K * BLOCK_N v) div 2 + k * (min (BLOCK_N v) (N - i * BLOCK_N v) div 2) + t)"
proof -
  let ?BN = "BLOCK_N v"
  let ?NB = "(N + ?BN - 1) div ?BN"
  let ?H = "?BN div 2"
  let ?h = "min ?BN (N - i * ?BN) div 2"
  let ?j = "(i * K * ?BN) div 2 + k * ?h + t"
  have NB: "0 < ?NB" using i by simp
  have hH: "?h \<le> ?H" by (simp add: div_le_mono)
  have "Suc k * ?h \<le> K * ?h" using k by (intro mult_le_mono1) simp
  then have "k * ?h + t < K * ?h" using t by simp
  also have "\<dots> \<le> K * ?H" using hH by simp
  finally have inner: "k * ?h + t < K * ?H" .
  have "fold (pack_block v w N K) [0..<?NB] P0 ?j =
        pack_row v w (i * ?BN * K) ((i * K * ?BN) div 2) K (min ?BN (N - i * ?BN)) k P' ?j"
  proof (rule fold_at[where x = i])
    show "i \<in> set [0..<?NB]" using i by simp
    show "pack_block v w N K i P ?j =
          pack_row v w (i * ?BN * K) ((i * K * ?BN) div 2) K (min ?BN (N - i * ?BN)) k P' ?j" for P
      by (rule pack_block_at[OF even_nb_size[OF N] k t])
    show "pack_block v w N K y P ?j = P ?j" if "y \<in> set [0..<?NB]" "y \<noteq> i" for y P
    proof (rule pack_block_frame[OF even_nb_size[OF N]])
      let ?hy = "min ?BN (N - y * ?BN) div 2"
      have hy: "K * ?hy \<le> K * ?H" by (simp add: div_le_mono)
      show "?j < (y * K * ?BN) div 2 \<or> (y * K * ?BN) div 2 + K * ?hy \<le> ?j"
      proof (cases "y < i")
        case True
        then have "Suc y \<le> i" by simp
        then have "Suc y * (K * ?H) \<le> i * (K * ?H)" by (rule mult_le_mono1)
        then have "y * (K * ?H) + K * ?H \<le> i * (K * ?H)" by simp
        then have "y * (K * ?H) + K * ?hy \<le> i * (K * ?H)" using hy by linarith
        then show ?thesis by (simp only: dst_half) simp
      next
        case False
        then have "Suc i \<le> y" using that(2) by simp
        then have "Suc i * (K * ?H) \<le> y * (K * ?H)" by (rule mult_le_mono1)
        then have "i * (K * ?H) + K * ?H \<le> y * (K * ?H)" by simp
        then have "i * (K * ?H) + k * ?h + t < y * (K * ?H)" using inner by linarith
        then show ?thesis by (simp only: dst_half) simp
      qed
    qed
  qed
  then show ?thesis using NB by (simp add: weight_to_int4pack_kernel_def parallel_for_def Let_def)
qed

lemma full_block_byte:
  assumes v: "v \<noteq> Scalar" and N: "even N" and full: "(i + 1) * BLOCK_N v \<le> N"
    and k: "k < K" and c: "c < BLOCK_N v div 2"
  shows "weight_to_int4pack_kernel v P0 w N K
           (i * K * (BLOCK_N v div 2) + k * (BLOCK_N v div 2) + c) =
         packed_byte (w ((i * BLOCK_N v + c + BLOCK_N v div 2) * K + k))
                     (w ((i * BLOCK_N v + c) * K + k))"
proof -
  let ?BN = "BLOCK_N v"
  have BN0: "0 < ?BN" by (cases v) simp_all
  have nb: "min ?BN (N - i * ?BN) = ?BN" using full by simp
  have "i * ?BN < N" using full BN0 by simp
  then have "i * ?BN + ?BN \<le> N + ?BN - 1" using full by simp
  then have "(i + 1) * ?BN \<le> N + ?BN - 1" by simp
  then have "i + 1 \<le> (N + ?BN - 1) div ?BN" using BN0 by (simp only: less_eq_div_iff_mult_less_eq)
  then have i: "i < (N + ?BN - 1) div ?BN" by simp
  have t: "c < min ?BN (N - i * ?BN) div 2" using c nb by simp
  have e: "(i * K * ?BN) div 2 + k * (min ?BN (N - i * ?BN) div 2) + c =
           i * K * (?BN div 2) + k * (?BN div 2) + c"
    by (simp only: nb dst_half)
  note p = packed_at[OF N i k t, of P0 w P0, unfolded e nb]
  from v consider "v = AVX512" | "v = AVX2" by (cases v) auto
  then show ?thesis
  proof cases
    case 1
    show ?thesis
    proof (cases "c < 16")
      case True
      have "pack_row AVX512 w (i * 64 * K) (i * K * 64 div 2) K 64 k P0 (i * K * 64 div 2 + k * 32 + c)
            = packed_byte (w (i * 64 * K + (c + 32) * K + k)) (w (i * 64 * K + c * K + k))"
        by (rule pack_row_avx512_lo[OF True])
      then show ?thesis using p 1 by (simp add: algebra_simps)
    next
      case False
      define d where "d = c - 16"
      have d: "c = 16 + d" "d < 16" using False c 1 by (simp_all add: d_def)
      have "pack_row AVX512 w (i * 64 * K) (i * K * 64 div 2) K 64 k P0 (i * K * 64 div 2 + k * 32 + 16 + d)
            = packed_byte (w (i * 64 * K + (d + 48) * K + k)) (w (i * 64 * K + (d + 16) * K + k))"
        by (rule pack_row_avx512_hi[OF d(2)])
      then show ?thesis using p 1 d by (simp add: algebra_simps)
    qed
  next
    case 2
    have c16: "c < 16" using c 2 by simp
    have "pack_row AVX2 w (i * 32 * K) (i * K * 32 div 2) K 32 k P0 (i * K * 32 div 2 + k * 16 + c)
            = packed_byte (w (i * 32 * K + (c + 16) * K + k)) (w (i * 32 * K + c * K + k))"
      by (rule pack_row_avx2[OF c16])
    then show ?thesis using p 2 by (simp add: algebra_simps)
  qed
qed

lemma drop_bit_4_small:
  fixes w :: "32 word"
  assumes "w < 16"
  shows "drop_bit 4 (ucast w :: 8 word) = 0"
proof -
  have "unat w < 16" using assms by (simp add: word_less_nat_alt)
  then have "unat (ucast w :: 8 word) < 16" by (simp add: unsigned_ucast_eq take_bit_nat_eq_self)
  then have s: "unat (ucast w :: 8 word) div 2 ^ 4 = 0" by simp
  have "unat (drop_bit 4 (ucast w :: 8 word)) = drop_bit 4 (unat (ucast w :: 8 word))"
    by (rule unat_drop_bit_eq)
  also have "\<dots> = unat (ucast w :: 8 word) div 2 ^ 4" by (rule drop_bit_eq_div)
  finally have "unat (drop_bit 4 (ucast w :: 8 word)) = 0" by (simp only: s)
  then show ?thesis by (simp only: unat_eq_0)
qed

text \<open>
  C4 (amended). In a full-width block of a vectorized variant, byte \<open>c\<close> of row \<open>k\<close>
  packs column \<open>c\<close> of the block with column \<open>c + BLOCK_N / 2\<close>: columns 32 apart for
  the 64-wide blocks of AVX512, 16 apart for the 32-wide blocks of AVX2. The low nibble
  of the byte is the low four bits of the first column's weight. The high nibble is the
  low four bits of the second column's weight, or-ed with bits 4 to 7 of the first
  column's weight: it is the second column's low four bits alone when the first weight
  lies between 0 and 15.
\<close>

theorem full_block_lane_pairing:
  assumes "v \<noteq> Scalar" and "even N" and "(i + 1) * BLOCK_N v \<le> N"
    and "k < K" and "c < BLOCK_N v div 2"
    and "byte = weight_to_int4pack_kernel v P0 weight N K
                  (i * K * (BLOCK_N v div 2) + k * (BLOCK_N v div 2) + c)"
    and "lo = weight ((i * BLOCK_N v + c) * K + k)"
    and "hi = weight ((i * BLOCK_N v + c + BLOCK_N v div 2) * K + k)"
  shows "byte AND 0x0F = ucast lo AND 0x0F \<and>
         drop_bit 4 byte = (ucast hi AND 0x0F) OR drop_bit 4 (ucast lo) \<and>
         (lo < 16 \<longrightarrow> drop_bit 4 byte = ucast hi AND 0x0F)"
proof -
  have b: "byte = packed_byte hi lo"
    unfolding assms(6,7,8) by (rule full_block_byte[OF assms(1-5)])
  have 1: "byte AND 0x0F = ucast lo AND 0x0F" unfolding b by (rule packed_byte_low)
  have 2: "drop_bit 4 byte = (ucast hi AND 0x0F) OR drop_bit 4 (ucast lo)"
    unfolding b by (rule packed_byte_high)
  have 3: "lo < 16 \<longrightarrow> drop_bit 4 byte = ucast hi AND 0x0F"
    unfolding 2 by (simp add: drop_bit_4_small)
  from 1 2 3 show ?thesis by (simp only: simp_thms)
qed

theorem full_block_lane_pairing_witness:
  "AVX512 \<noteq> Scalar \<and> even (64::nat) \<and> (0 + 1) * BLOCK_N AVX512 \<le> 64 \<and> (0::nat) < 1 \<and>
   (16::nat) < BLOCK_N AVX512 div 2 \<and>
   weight_to_int4pack_kernel AVX512 (\<lambda>_. 0) (\<lambda>j. if j = 16 then 3 else if j = 48 then - 3 else 0)
     64 1 16 AND 0x0F = 3 \<and>
   drop_bit 4 (weight_to_int4pack_kernel AVX512 (\<lambda>_. 0)
     (\<lambda>j. if j = 16 then 3 else if j = 48 then - 3 else 0) 64 1 16) = 13"
proof -
  let ?w = "\<lambda>j::nat. if j = 16 then 3 else if j = 48 then - 3 else 0 :: 32 word"
  have a: "AVX512 \<noteq> Scalar" "even (64::nat)" "(0 + 1) * BLOCK_N AVX512 \<le> 64" "(0::nat) < 1"
    "(16::nat) < BLOCK_N AVX512 div 2"
    by simp_all
  note t = full_block_lane_pairing[OF a refl refl refl, of "\<lambda>_. 0" ?w]
  have l: "?w ((0 * BLOCK_N AVX512 + 16) * 1 + 0) = 3"
    "?w ((0 * BLOCK_N AVX512 + 16 + BLOCK_N AVX512 div 2) * 1 + 0) = - 3" by simp_all
  have i: "0 * 1 * (BLOCK_N AVX512 div 2) + 0 * (BLOCK_N AVX512 div 2) + 16 = (16::nat)" by simp
  have 1: "weight_to_int4pack_kernel AVX512 (\<lambda>_. 0) ?w 64 1 16 AND 0x0F = 3"
    using t[THEN conjunct1] unfolding l i by simp
  have 2: "drop_bit 4 (weight_to_int4pack_kernel AVX512 (\<lambda>_. 0) ?w 64 1 16) = 13"
    using t[THEN conjunct2, THEN conjunct2] unfolding l i by simp
  from a 1 2 show ?thesis by (simp only: simp_thms)
qed

text \<open>
  C4 as stated pairs column \<open>i\<close> with column \<open>i + 16\<close> in a 64-wide block. With 3 in
  column 0, 5 in column 16 and 0 elsewhere (\<open>N = 64\<close>, \<open>K = 1\<close>), the 32 packed bytes
  are these: columns 0 and 16 are the low nibbles of two different bytes. And with the
  weight \<open>- 8\<close> in column 0 and 7 in column 32, byte 0 is \<open>0xF8\<close>: its high nibble is 15,
  not the 7 of the second column of the pair.
\<close>

theorem full_block_lane_pairing_counterexample:
  "map (weight_to_int4pack_kernel AVX512 (\<lambda>_. 0)
          (\<lambda>j. if j = 0 then 3 else if j = 16 then 5 else 0) 64 1) [0..<32] =
   [3, 0, 0, 0, 0, 0, 0, 0, 0, 0, 0, 0, 0, 0, 0, 0,
    5, 0, 0, 0, 0, 0, 0, 0, 0, 0, 0, 0, 0, 0, 0, 0] \<and>
   weight_to_int4pack_kernel AVX512 (\<lambda>_. 0)
     (\<lambda>j. if j = 0 then - 8 else if j = 32 then 7 else 0) 64 1 0 = 0xF8"
  by code_simp


section \<open>The tile grid and the unsupported shapes\<close>

lemma BLOCK_N_pos: "0 < BLOCK_N v"
  by (cases v) simp_all

lemma BLOCK_N_32_64: "BLOCK_N v = 32 \<or> BLOCK_N v = 64"
  by (cases v) simp_all

text \<open>
  C5. With \<open>MB = \<lceil>M / BLOCK_M\<rceil>\<close> and \<open>NB = \<lceil>N / BLOCK_N\<rceil>\<close>, \<^verbatim>\<open>int4pack_mm_kernel\<close>
  runs the tiles \<open>(i div NB, i mod NB)\<close> for the flat indices \<open>i = 0, ..., MB * NB - 1\<close> in
  this order, and so does a worker on its own range of flat indices; the index of a
  worker's first tile is converted by a row-major divmod, and the step from the tile of
  \<open>i\<close> gives the tile of \<open>i + 1\<close> (\<open>nb\<close> advances first and carries into \<open>mb\<close>). The
  tile \<open>(mb, nb)\<close> is dispatched with \<open>mb_size = min (BLOCK_M, M - mb * BLOCK_M)\<close> and
  \<open>nb_size = min (BLOCK_N, N - nb * BLOCK_N)\<close>, on the pointers of its first row and
  column.
\<close>

theorem tile_grid_mapping:
  assumes MB: "MB = nat \<lceil>real M / real BLOCK_M\<rceil>"
    and NB: "NB = nat \<lceil>real N / real (BLOCK_N v)\<rceil>"
    and i: "i < MB * NB"
  shows "int4pack_mm_kernel v fp C A_data M B_data qGroupSize S_data N K =
           run_tiles (mm_tile (tinygemm_kernel v fp) (BLOCK_N v) M N K qGroupSize A_data B_data S_data)
             (map (\<lambda>j. (j div NB, j mod NB)) [0..<MB * NB]) C \<and>
         mm_range kern (BLOCK_N v) M N K qGroupSize A_data B_data S_data MB NB b e C' =
           run_tiles (mm_tile kern (BLOCK_N v) M N K qGroupSize A_data B_data S_data)
             (map (\<lambda>j. (j div NB, j mod NB)) [b..<e]) C' \<and>
         data_index_init i MB NB = (i div NB, i mod NB) \<and>
         data_index_step (i div NB) MB (i mod NB) NB = ((i + 1) div NB, (i + 1) mod NB) \<and>
         mm_tile kern (BLOCK_N v) M N K qGroupSize A_data B_data S_data (i div NB) (i mod NB) C' =
           mm_dispatch kern
             (min (int BLOCK_M) (int M - int (i div NB * BLOCK_M)))
             (min (int (BLOCK_N v)) (int N - int (i mod NB * BLOCK_N v)))
             (ptr_add A_data (i div NB * BLOCK_M * K))
             (ptr_add B_data (i mod NB * BLOCK_N v * K div 2))
             (ptr_add S_data (i mod NB * BLOCK_N v * 2))
             (i div NB * BLOCK_M * N + i mod NB * BLOCK_N v) N K qGroupSize C'"
proof -
  have MB': "(M + BLOCK_M - 1) div BLOCK_M = MB"
    unfolding MB by (rule ceil_div) (simp add: BLOCK_M_def)
  have NB': "(N + BLOCK_N v - 1) div BLOCK_N v = NB"
    unfolding NB by (rule ceil_div) (rule BLOCK_N_pos)
  have NB0: "0 < NB" using i by (cases "NB = 0") auto
  have 1: "int4pack_mm_kernel v fp C A_data M B_data qGroupSize S_data N K =
           run_tiles (mm_tile (tinygemm_kernel v fp) (BLOCK_N v) M N K qGroupSize A_data B_data S_data)
             (map (\<lambda>j. (j div NB, j mod NB)) [0..<MB * NB]) C"
    unfolding int4pack_mm_kernel_def sched_run MB' NB' by (rule refl)
  have 2: "mm_range kern (BLOCK_N v) M N K qGroupSize A_data B_data S_data MB NB b e C' =
           run_tiles (mm_tile kern (BLOCK_N v) M N K qGroupSize A_data B_data S_data)
             (map (\<lambda>j. (j div NB, j mod NB)) [b..<e]) C'"
    by (rule mm_range_run[OF NB0])
  have 3: "data_index_init i MB NB = (i div NB, i mod NB)"
    by (simp add: data_index_init_def)
  have 4: "data_index_step (i div NB) MB (i mod NB) NB = ((i + 1) div NB, (i + 1) mod NB)"
    using step_div_mod[OF NB0, of i MB] by simp
  have 5: "mm_tile kern (BLOCK_N v) M N K qGroupSize A_data B_data S_data (i div NB) (i mod NB) C' =
           mm_dispatch kern
             (min (int BLOCK_M) (int M - int (i div NB * BLOCK_M)))
             (min (int (BLOCK_N v)) (int N - int (i mod NB * BLOCK_N v)))
             (ptr_add A_data (i div NB * BLOCK_M * K))
             (ptr_add B_data (i mod NB * BLOCK_N v * K div 2))
             (ptr_add S_data (i mod NB * BLOCK_N v * 2))
             (i div NB * BLOCK_M * N + i mod NB * BLOCK_N v) N K qGroupSize C'"
    unfolding mm_tile_def Let_def by (rule refl)
  from 1 2 3 4 5 show ?thesis by (simp only: simp_thms)
qed

theorem tile_grid_mapping_witness:
  "(2::nat) = nat \<lceil>real 5 / real BLOCK_M\<rceil> \<and>
   (2::nat) = nat \<lceil>real 48 / real (BLOCK_N Scalar)\<rceil> \<and> (1::nat) < 2 * 2 \<and>
   data_index_init 1 2 2 = (0, 1) \<and>
   data_index_step (1 div 2) 2 (1 mod 2) 2 = (1, 0) \<and>
   mm_tile (tinygemm_kernel Scalar exact) (BLOCK_N Scalar) 5 48 32 32
       (\<lambda>_. 1, 0) (\<lambda>_. 0, 0) (\<lambda>_. 1, 0) 0 1 [] =
     mm_dispatch (tinygemm_kernel Scalar exact) 4 16
       (ptr_add (\<lambda>_. 1, 0) 0) (ptr_add (\<lambda>_. 0, 0) 512) (ptr_add (\<lambda>_. 1, 0) 64) 32 48 32 32 []"
proof -
  have a: "(2::nat) = nat \<lceil>real 5 / real BLOCK_M\<rceil>" by (simp add: BLOCK_M_def)
  have b: "(2::nat) = nat \<lceil>real 48 / real (BLOCK_N Scalar)\<rceil>" by simp
  have c: "(1::nat) < 2 * 2" by simp
  note m = tile_grid_mapping[OF a b c, of exact "[]" "(\<lambda>_. 1, 0)" "(\<lambda>_. 0, 0)" 32
          "(\<lambda>_. 1, 0)" 32 "tinygemm_kernel Scalar exact" 0 0 "[]"]
  note m2 = m[THEN conjunct2, THEN conjunct2]
  have d: "data_index_init 1 2 2 = (0, 1)" using m2[THEN conjunct1] by simp
  have e: "data_index_step (1 div 2) 2 (1 mod 2) 2 = (1, 0)"
    using m2[THEN conjunct2, THEN conjunct1] by simp
  have f: "mm_tile (tinygemm_kernel Scalar exact) (BLOCK_N Scalar) 5 48 32 32
       (\<lambda>_. 1, 0) (\<lambda>_. 0, 0) (\<lambda>_. 1, 0) 0 1 [] =
     mm_dispatch (tinygemm_kernel Scalar exact) 4 16
       (ptr_add (\<lambda>_. 1, 0) 0) (ptr_add (\<lambda>_. 0, 0) 512) (ptr_add (\<lambda>_. 1, 0) 64) 32 48 32 32 []"
    using m2[THEN conjunct2, THEN conjunct2] by (simp add: BLOCK_M_def)
  from a b c d e f show ?thesis by (simp only: simp_thms)
qed

text \<open>
  C10. For \<open>M \<ge> 1\<close> the \<open>mb_size\<close> of the tile of every flat index is one of 1, 2, 3, 4,
  so \<^verbatim>\<open>int4pack_mm_kernel\<close> never throws ``Unsupported m block size''. It throws
  ``Unsupported n block size'', with \<open>nb_size = N mod BLOCK_N\<close>, exactly when \<open>N\<close> is not a
  multiple of 16; and that is exactly when \<open>N mod BLOCK_N\<close> is not zero and not one of 16,
  32, 48.
\<close>

theorem m_block_size_always_supported:
  assumes "1 \<le> M"
    and "MB = (M + BLOCK_M - 1) div BLOCK_M"
    and "NB = (N + BLOCK_N v - 1) div BLOCK_N v"
    and "i < MB * NB"
  shows "min (int BLOCK_M) (int M - int (i div NB * BLOCK_M)) \<in> {1, 2, 3, 4} \<and>
         fst (int4pack_mm_kernel v fp C A_data M B_data qGroupSize S_data N K) =
           (if N mod 16 = 0 then None
            else Some (Unsupported_n_block_size (int (N mod BLOCK_N v)))) \<and>
         (N mod 16 \<noteq> 0) =
           (N mod BLOCK_N v \<noteq> 0 \<and> N mod BLOCK_N v \<notin> {16, 32, 48})"
proof -
  have NB0: "0 < NB" using assms(4) by (cases "NB = 0") auto
  have "i div NB < MB" using assms(4) NB0 by (simp add: less_mult_imp_div_less)
  then have 1: "min (int BLOCK_M) (int M - int (i div NB * BLOCK_M)) \<in> {1, 2, 3, 4}"
    unfolding assms(2) by (rule mb_size_range)
  have 2: "fst (int4pack_mm_kernel v fp C A_data M B_data qGroupSize S_data N K) =
           (if N mod 16 = 0 then None
            else Some (Unsupported_n_block_size (int (N mod BLOCK_N v))))"
  proof (cases "N mod 16 = 0")
    case True
    show ?thesis
      unfolding int4pack_mm_kernel_def
      using sched_no_error[OF BLOCK_N_32_64 True] True by simp
  next
    case False
    show ?thesis
      unfolding int4pack_mm_kernel_def
      using sched_n_error[OF BLOCK_N_32_64 False assms(1)] False by simp
  qed
  have dvd: "16 dvd BLOCK_N v" using BLOCK_N_32_64[of v] by auto
  have m: "(N mod BLOCK_N v) mod 16 = N mod 16" using dvd by (simp add: mod_mod_cancel)
  have lt: "N mod BLOCK_N v < 64" using BLOCK_N_32_64[of v] by auto
  have 3: "(N mod 16 \<noteq> 0) = (N mod BLOCK_N v \<noteq> 0 \<and> N mod BLOCK_N v \<notin> {16, 32, 48})"
  proof
    assume a: "N mod 16 \<noteq> 0"
    then have "(N mod BLOCK_N v) mod 16 \<noteq> 0" using m by simp
    then show "N mod BLOCK_N v \<noteq> 0 \<and> N mod BLOCK_N v \<notin> {16, 32, 48}" by auto
  next
    assume a: "N mod BLOCK_N v \<noteq> 0 \<and> N mod BLOCK_N v \<notin> {16, 32, 48}"
    define r where "r = N mod BLOCK_N v"
    have "r < 64" "r \<noteq> 0" "r \<noteq> 16" "r \<noteq> 32" "r \<noteq> 48" using a lt by (auto simp: r_def)
    then have "r mod 16 \<noteq> 0" by presburger
    then show "N mod 16 \<noteq> 0" using m by (simp add: r_def)
  qed
  from 1 2 3 show ?thesis by (simp only: simp_thms)
qed

theorem m_block_size_always_supported_witness:
  "(1::nat) \<le> 5 \<and> (2::nat) = (5 + BLOCK_M - 1) div BLOCK_M \<and>
   (2::nat) = (40 + BLOCK_N AVX2 - 1) div BLOCK_N AVX2 \<and> (3::nat) < 2 * 2 \<and>
   min (int BLOCK_M) (int 5 - int (3 div 2 * BLOCK_M)) = 1 \<and>
   fst (int4pack_mm_kernel AVX2 exact [] (\<lambda>_. 1, 0) 5 (\<lambda>_. 0, 0) 32 (\<lambda>_. 1, 0) 40 32) =
     Some (Unsupported_n_block_size 8)"
proof -
  have a: "(1::nat) \<le> 5" by simp
  have b: "(2::nat) = (5 + BLOCK_M - 1) div BLOCK_M" by (simp add: BLOCK_M_def)
  have c: "(2::nat) = (40 + BLOCK_N AVX2 - 1) div BLOCK_N AVX2" by simp
  have d: "(3::nat) < 2 * 2" by simp
  note m = m_block_size_always_supported[OF a b c d, of exact "[]" "(\<lambda>_. 1, 0)" "(\<lambda>_. 0, 0)" 32
          "(\<lambda>_. 1, 0)" 32]
  have e: "min (int BLOCK_M) (int 5 - int (3 div 2 * BLOCK_M)) = 1" by (simp add: BLOCK_M_def)
  have f: "fst (int4pack_mm_kernel AVX2 exact [] (\<lambda>_. 1, 0) 5 (\<lambda>_. 0, 0) 32 (\<lambda>_. 1, 0) 40 32) =
     Some (Unsupported_n_block_size 8)"
    using m[THEN conjunct2, THEN conjunct1] by simp
  from a b c d e f show ?thesis by (simp only: simp_thms)
qed

section \<open>The non-vectorized kernel and the reference\<close>

lemma fold_store:
  "fold (\<lambda>x. store (f x) (g x)) xs C = C @ map (\<lambda>x. (f x, g x)) xs"
  by (induction xs arbitrary: C) (simp_all add: store_def)

lemma fold_append_concat:
  assumes "\<And>x C. body x C = C @ h x"
  shows "fold body xs C = C @ concat (map h xs)"
  by (induction xs arbitrary: C) (simp_all add: assms)

lemma c_val_step_ref:
  "c_val_step fp A B S lda ldb ldc BK m n k c =
   accumulate Scalar fp (rd A (m * lda + k))
     (dequant Scalar fp (weight_nibble Scalar BN B ldb k n)
        (rd S ((k div BK) * ldc * 2 + n * 2)) (rd S ((k div BK) * ldc * 2 + n * 2 + 1))) c"
  by (simp add: c_val_step_def accumulate_def dequant_def weight_nibble_def
        convert_int4_to_float_def Let_def even_iff_mod_2_eq_zero)

lemma c_val_loop_ref:
  "c_val_loop fp A B S lda ldb ldc K BK m n = tile_element Scalar fp BN A B S lda ldb ldc K BK m n"
  unfolding c_val_loop_def tile_element_def
  by (rule arg_cong[where f = "\<lambda>f. fold f [0..<K] 0"]) (rule ext, rule ext, rule c_val_step_ref)

lemma tinygemm_scalar_ref:
  "tinygemm_kernel_scalar fp BM BN A B S C_ptr lda ldb ldc K BK C =
   tinygemm_ref Scalar fp BM BN A B S C_ptr lda ldb ldc K BK C"
  unfolding tinygemm_kernel_scalar_def tinygemm_ref_def
  by (rule fold_append_concat) (simp add: fold_store c_val_loop_ref[where BN = BN])

section \<open>One sweep of the vectorized compute step\<close>

lemma regs_set_simps [simp]:
  "va (set_vb i x st) = va st" "vb (set_vb i x st) = (vb st)(i := x)" "vc (set_vb i x st) = vc st"
  "scale (set_vb i x st) = scale st" "zero (set_vb i x st) = zero st"
  "va (set_vc i x st) = va st" "vb (set_vc i x st) = vb st" "vc (set_vc i x st) = (vc st)(i := x)"
  "scale (set_vc i x st) = scale st" "zero (set_vc i x st) = zero st"
  "va (set_scale i x st) = va st" "vb (set_scale i x st) = vb st" "vc (set_scale i x st) = vc st"
  "scale (set_scale i x st) = (scale st)(i := x)" "zero (set_scale i x st) = zero st"
  "va (set_zero i x st) = va st" "vb (set_zero i x st) = vb st" "vc (set_zero i x st) = vc st"
  "scale (set_zero i x st) = scale st" "zero (set_zero i x st) = (zero st)(i := x)"
  by (simp_all add: set_vb_def set_vc_def set_scale_def set_zero_def)

lemma vb_fmadd_simps [simp]:
  "va (vb_fmadd fp c st) = va st"
  "vb (vb_fmadd fp c st) = (vb st)(c := mm_fmadd_ps fp (vb st c) (scale st c) (zero st c))"
  "vc (vb_fmadd fp c st) = vc st"
  "scale (vb_fmadd fp c st) = scale st" "zero (vb_fmadd fp c st) = zero st"
  by (simp_all add: vb_fmadd_def)

lemma compute_512_scale_zero:
  "scale (compute_512 fp R Cn A B lda ldb i k st) = scale st"
  "zero (compute_512 fp R Cn A B lda ldb i k st) = zero st"
  by (simp_all add: compute_512_def Let_def)

lemma compute_512_va:
  "va (compute_512 fp R Cn A B lda ldb i k st) =
     (if i mod Cn = 0 then mm_set1_ps (rd A (i div Cn * lda + k)) else va st)"
  by (simp add: compute_512_def Let_def)

lemma compute_512_vc:
  "vc (compute_512 fp R Cn A B lda ldb i k st) =
     (vc st)(i := mm_fmadd_ps fp (va (compute_512 fp R Cn A B lda ldb i k st))
                     (vb (compute_512 fp R Cn A B lda ldb i k st) (i mod Cn)) (vc st i))"
  by (simp add: compute_512_def Let_def)

lemma compute_512_vb:
  "vb (compute_512 fp R Cn A B lda ldb i k st) =
     (let D = (\<lambda>c. mm_fmadd_ps fp (raw_512 Cn B ldb k c) (scale st c) (zero st c))
      in if i div Cn = 0 then
           (if Cn = 4 then
              (if i mod Cn = 0 then (vb st)(0 := D 0, 2 := D 2, 1 := D 1, 3 := D 3) else vb st)
            else (vb st)(i mod Cn := D (i mod Cn)))
         else vb st)"
  by (simp add: compute_512_def Let_def raw_512_def)

lemma compute_256_scale_zero:
  "scale (compute_256 fp R Cn A B lda ldb i k st) = scale st"
  "zero (compute_256 fp R Cn A B lda ldb i k st) = zero st"
  by (simp_all add: compute_256_def Let_def)

lemma compute_256_va:
  "va (compute_256 fp R Cn A B lda ldb i k st) =
     (if i mod Cn = 0 then mm_set1_ps (rd A (i div Cn * lda + k)) else va st)"
  by (simp add: compute_256_def Let_def)

lemma compute_256_vc:
  "vc (compute_256 fp R Cn A B lda ldb i k st) =
     (vc st)(i := mm_fmadd_ps fp (va (compute_256 fp R Cn A B lda ldb i k st))
                     (vb (compute_256 fp R Cn A B lda ldb i k st) (i mod Cn)) (vc st i))"
  by (simp add: compute_256_def Let_def)

lemma compute_256_vb:
  "vb (compute_256 fp R Cn A B lda ldb i k st) =
     (let D = (\<lambda>c. mm_fmadd_ps fp (raw_256 fp Cn B ldb k c) (scale st c) (zero st c))
      in if i div Cn = 0 then
           (if Cn = 4 then
              (if i mod Cn = 0 then (vb st)(0 := D 0, 2 := D 2, 1 := D 1, 3 := D 3) else vb st)
            else if even (i mod Cn) then
              (vb st)(i mod Cn := D (i mod Cn), i mod Cn + 1 := D (i mod Cn + 1))
            else vb st)
         else vb st)"
  by (auto simp: compute_256_def Let_def raw_256_def even_iff_mod_2_eq_zero
        mod_Suc fun_upd_twist elim!: evenE)

lemma sweep_generic:
  fixes comp :: "nat \<Rightarrow> regs \<Rightarrow> regs"
  assumes va: "\<And>i st. va (comp i st) = (if i mod Cn = 0 then bc (i div Cn) else va st)"
    and vc: "\<And>i st. vc (comp i st) =
               (vc st)(i := F (va (comp i st)) (vb (comp i st) (i mod Cn)) (vc st i))"
    and P: "\<And>i st. P st \<Longrightarrow> P (comp i st)"
    and vb: "\<And>i st c. P st \<Longrightarrow> (\<forall>c\<in>ready i. vb st c = DQ c) \<Longrightarrow> c \<in> ready (Suc i) \<Longrightarrow>
               vb (comp i st) c = DQ c"
    and rdy: "\<And>i. i mod Cn \<in> ready (Suc i)"
    and r0: "ready 0 = {}"
    and P0: "P st"
  shows "P (fold comp [0..<n] st) \<and>
         vc (fold comp [0..<n] st) =
           (\<lambda>i. if i < n then F (bc (i div Cn)) (DQ (i mod Cn)) (vc st i) else vc st i) \<and>
         (\<forall>c\<in>ready n. vb (fold comp [0..<n] st) c = DQ c) \<and>
         (n mod Cn \<noteq> 0 \<longrightarrow> va (fold comp [0..<n] st) = bc (n div Cn))"
proof (induction n)
  case 0
  show ?case using P0 r0 by simp
next
  case (Suc n)
  let ?s = "fold comp [0..<n] st"
  have f: "fold comp [0..<Suc n] st = comp n ?s" by simp
  from Suc.IH have ih1: "P ?s"
    and ih2: "vc ?s = (\<lambda>i. if i < n then F (bc (i div Cn)) (DQ (i mod Cn)) (vc st i) else vc st i)"
    and ih3: "\<forall>c\<in>ready n. vb ?s c = DQ c"
    and ih4: "n mod Cn \<noteq> 0 \<longrightarrow> va ?s = bc (n div Cn)" by simp_all
  have a: "va (comp n ?s) = bc (n div Cn)" using ih4 by (simp add: va)
  have b: "\<forall>c\<in>ready (Suc n). vb (comp n ?s) c = DQ c" using vb[OF ih1 ih3] by blast
  then have b': "vb (comp n ?s) (n mod Cn) = DQ (n mod Cn)" using rdy by blast
  have c: "vc (comp n ?s) =
        (\<lambda>i. if i < Suc n then F (bc (i div Cn)) (DQ (i mod Cn)) (vc st i) else vc st i)"
    unfolding vc a b' ih2 by (rule ext) (auto simp: less_Suc_eq)
  have d: "Suc n mod Cn \<noteq> 0 \<longrightarrow> va (comp n ?s) = bc (Suc n div Cn)"
    unfolding a by (auto simp: div_Suc mod_Suc split: if_splits)
  show ?case unfolding f using P[OF ih1] b c d by blast
qed

lemma sweep_512:
  assumes Cn: "0 < Cn"
  shows "scale (ForcedUnroll (R * Cn) (\<lambda>i. compute_512 fp R Cn A B lda ldb i k) st) = scale st" and "zero (ForcedUnroll (R * Cn) (\<lambda>i. compute_512 fp R Cn A B lda ldb i k) st) = zero st"
    and "vc (ForcedUnroll (R * Cn) (\<lambda>i. compute_512 fp R Cn A B lda ldb i k) st) = (\<lambda>i. if i < R * Cn then
                 mm_fmadd_ps fp (mm_set1_ps (rd A (i div Cn * lda + k)))
                   (mm_fmadd_ps fp (raw_512 Cn B ldb k (i mod Cn)) (scale st (i mod Cn))
                      (zero st (i mod Cn)))
                   (vc st i)
               else vc st i)"
    and "0 < R \<Longrightarrow> c < Cn \<Longrightarrow> vb (ForcedUnroll (R * Cn) (\<lambda>i. compute_512 fp R Cn A B lda ldb i k) st) c =
           mm_fmadd_ps fp (raw_512 Cn B ldb k c) (scale st c) (zero st c)"
proof -
  let ?comp = "\<lambda>i. compute_512 fp R Cn A B lda ldb i k"
  let ?P = "\<lambda>s. scale s = scale st \<and> zero s = zero st"
  let ?DQ = "\<lambda>c. mm_fmadd_ps fp (raw_512 Cn B ldb k c) (scale st c) (zero st c)"
  let ?ready = "\<lambda>j. if Cn = 4 then (if j = 0 then {} else {0, 1, 2, 3::nat}) else {c. c < Cn \<and> c < j}"
  have "?P (fold ?comp [0..<R * Cn] st) \<and>
        vc (fold ?comp [0..<R * Cn] st) =
          (\<lambda>i. if i < R * Cn then mm_fmadd_ps fp (mm_set1_ps (rd A (i div Cn * lda + k)))
                   (?DQ (i mod Cn)) (vc st i) else vc st i) \<and>
        (\<forall>c\<in>?ready (R * Cn). vb (fold ?comp [0..<R * Cn] st) c = ?DQ c) \<and>
        ((R * Cn) mod Cn \<noteq> 0 \<longrightarrow> va (fold ?comp [0..<R * Cn] st) =
             mm_set1_ps (rd A ((R * Cn) div Cn * lda + k)))"
  proof (rule sweep_generic[where comp = ?comp and P = ?P and DQ = ?DQ and ready = ?ready
           and F = "mm_fmadd_ps fp" and bc = "\<lambda>r. mm_set1_ps (rd A (r * lda + k))"])
    show "va (?comp i s) = (if i mod Cn = 0 then mm_set1_ps (rd A (i div Cn * lda + k)) else va s)"
      for i s by (rule compute_512_va)
    show "vc (?comp i s) = (vc s)(i := mm_fmadd_ps fp (va (?comp i s)) (vb (?comp i s) (i mod Cn)) (vc s i))"
      for i s by (rule compute_512_vc)
    show "?P (?comp i s)" if "?P s" for i s using that by (simp add: compute_512_scale_zero)
    show "vb (?comp i s) c = ?DQ c"
      if "?P s" "\<forall>c\<in>?ready i. vb s c = ?DQ c" "c \<in> ?ready (Suc i)" for i s c
    proof (cases "Cn = 4")
      case True
      then show ?thesis using that
        by (cases "i = 0") (auto simp: compute_512_vb Let_def)
    next
      case False
      show ?thesis
      proof (cases "i div Cn = 0")
        case True
        then have "i < Cn" using Cn by (simp add: div_eq_0_iff)
        then show ?thesis using that False True
          by (auto simp: compute_512_vb Let_def less_Suc_eq)
      next
        case d: False
        then have "Cn \<le> i" using Cn by (metis div_less linorder_not_less)
        then show ?thesis using that False d
          by (auto simp: compute_512_vb Let_def)
      qed
    qed
    show "i mod Cn \<in> ?ready (Suc i)" for i
    proof -
      have "i mod Cn < Cn" using Cn by simp
      moreover have "i mod Cn < Suc i" by (simp add: less_Suc_eq_le)
      ultimately show ?thesis by auto
    qed
    show "?ready 0 = {}" by simp
    show "?P st" by simp
  qed
  then have *: "?P (fold ?comp [0..<R * Cn] st)"
    "vc (fold ?comp [0..<R * Cn] st) =
          (\<lambda>i. if i < R * Cn then mm_fmadd_ps fp (mm_set1_ps (rd A (i div Cn * lda + k)))
                   (?DQ (i mod Cn)) (vc st i) else vc st i)"
    "\<forall>c\<in>?ready (R * Cn). vb (fold ?comp [0..<R * Cn] st) c = ?DQ c"
    by blast+
  show "scale (ForcedUnroll (R * Cn) (\<lambda>i. compute_512 fp R Cn A B lda ldb i k) st) = scale st" "zero (ForcedUnroll (R * Cn) (\<lambda>i. compute_512 fp R Cn A B lda ldb i k) st) = zero st"
    and "vc (ForcedUnroll (R * Cn) (\<lambda>i. compute_512 fp R Cn A B lda ldb i k) st) = (\<lambda>i. if i < R * Cn then
                 mm_fmadd_ps fp (mm_set1_ps (rd A (i div Cn * lda + k)))
                   (mm_fmadd_ps fp (raw_512 Cn B ldb k (i mod Cn)) (scale st (i mod Cn))
                      (zero st (i mod Cn)))
                   (vc st i)
               else vc st i)"
    unfolding ForcedUnroll_def using * by blast+
  show "vb (ForcedUnroll (R * Cn) (\<lambda>i. compute_512 fp R Cn A B lda ldb i k) st) c = mm_fmadd_ps fp (raw_512 Cn B ldb k c) (scale st c) (zero st c)"
    if "0 < R" "c < Cn"
  proof -
    have "Cn \<le> R * Cn" using that(1) by simp
    then have 1: "c < R * Cn" using that(2) by linarith
    have "R * Cn \<le> 2 * ((R * Cn + 1) div 2)" by simp
    then have 2: "c < 2 * ((R * Cn + 1) div 2)" using 1 by linarith
    have 3: "R * Cn \<noteq> 0" using that(1) Cn by simp
    have "c \<in> ?ready (R * Cn)"
    proof (cases "Cn = 4")
      case True
      then have "c \<in> {0, 1, 2, 3}" using that(2) by auto
      then show ?thesis using True 3 by simp
    next
      case False
      then show ?thesis using 1 2 that(2) by simp
    qed
    then show ?thesis unfolding ForcedUnroll_def using *(3) by blast
  qed
qed

lemma sweep_256:
  assumes Cn: "0 < Cn"
  shows "scale (ForcedUnroll (R * Cn) (\<lambda>i. compute_256 fp R Cn A B lda ldb i k) st) = scale st" and "zero (ForcedUnroll (R * Cn) (\<lambda>i. compute_256 fp R Cn A B lda ldb i k) st) = zero st"
    and "vc (ForcedUnroll (R * Cn) (\<lambda>i. compute_256 fp R Cn A B lda ldb i k) st) = (\<lambda>i. if i < R * Cn then
                 mm_fmadd_ps fp (mm_set1_ps (rd A (i div Cn * lda + k)))
                   (mm_fmadd_ps fp (raw_256 fp Cn B ldb k (i mod Cn)) (scale st (i mod Cn))
                      (zero st (i mod Cn)))
                   (vc st i)
               else vc st i)"
    and "0 < R \<Longrightarrow> c < Cn \<Longrightarrow> vb (ForcedUnroll (R * Cn) (\<lambda>i. compute_256 fp R Cn A B lda ldb i k) st) c =
           mm_fmadd_ps fp (raw_256 fp Cn B ldb k c) (scale st c) (zero st c)"
proof -
  let ?comp = "\<lambda>i. compute_256 fp R Cn A B lda ldb i k"
  let ?P = "\<lambda>s. scale s = scale st \<and> zero s = zero st"
  let ?DQ = "\<lambda>c. mm_fmadd_ps fp (raw_256 fp Cn B ldb k c) (scale st c) (zero st c)"
  let ?ready = "\<lambda>j. if Cn = 4 then (if j = 0 then {} else {0, 1, 2, 3::nat}) else {c. c < Cn \<and> c < 2 * ((j + 1) div 2)}"
  have "?P (fold ?comp [0..<R * Cn] st) \<and>
        vc (fold ?comp [0..<R * Cn] st) =
          (\<lambda>i. if i < R * Cn then mm_fmadd_ps fp (mm_set1_ps (rd A (i div Cn * lda + k)))
                   (?DQ (i mod Cn)) (vc st i) else vc st i) \<and>
        (\<forall>c\<in>?ready (R * Cn). vb (fold ?comp [0..<R * Cn] st) c = ?DQ c) \<and>
        ((R * Cn) mod Cn \<noteq> 0 \<longrightarrow> va (fold ?comp [0..<R * Cn] st) =
             mm_set1_ps (rd A ((R * Cn) div Cn * lda + k)))"
  proof (rule sweep_generic[where comp = ?comp and P = ?P and DQ = ?DQ and ready = ?ready
           and F = "mm_fmadd_ps fp" and bc = "\<lambda>r. mm_set1_ps (rd A (r * lda + k))"])
    show "va (?comp i s) = (if i mod Cn = 0 then mm_set1_ps (rd A (i div Cn * lda + k)) else va s)"
      for i s by (rule compute_256_va)
    show "vc (?comp i s) = (vc s)(i := mm_fmadd_ps fp (va (?comp i s)) (vb (?comp i s) (i mod Cn)) (vc s i))"
      for i s by (rule compute_256_vc)
    show "?P (?comp i s)" if "?P s" for i s using that by (simp add: compute_256_scale_zero)
    show "vb (?comp i s) c = ?DQ c"
      if "?P s" "\<forall>c\<in>?ready i. vb s c = ?DQ c" "c \<in> ?ready (Suc i)" for i s c
    proof (cases "Cn = 4")
      case True
      then show ?thesis using that
        by (cases "i = 0") (auto simp: compute_256_vb Let_def)
    next
      case False
      show ?thesis
      proof (cases "i div Cn = 0")
        case True
        then have "i < Cn" using Cn by (simp add: div_eq_0_iff)
        then show ?thesis using that False True
          by (auto simp: compute_256_vb Let_def less_Suc_eq)
      next
        case d: False
        then have "Cn \<le> i" using Cn by (metis div_less linorder_not_less)
        then show ?thesis using that False d
          by (auto simp: compute_256_vb Let_def)
      qed
    qed
    show "i mod Cn \<in> ?ready (Suc i)" for i
    proof -
      have "i mod Cn < Cn" using Cn by simp
      moreover have "i mod Cn < Suc i" by (simp add: less_Suc_eq_le)
      ultimately show ?thesis by auto
    qed
    show "?ready 0 = {}" by simp
    show "?P st" by simp
  qed
  then have *: "?P (fold ?comp [0..<R * Cn] st)"
    "vc (fold ?comp [0..<R * Cn] st) =
          (\<lambda>i. if i < R * Cn then mm_fmadd_ps fp (mm_set1_ps (rd A (i div Cn * lda + k)))
                   (?DQ (i mod Cn)) (vc st i) else vc st i)"
    "\<forall>c\<in>?ready (R * Cn). vb (fold ?comp [0..<R * Cn] st) c = ?DQ c"
    by blast+
  show "scale (ForcedUnroll (R * Cn) (\<lambda>i. compute_256 fp R Cn A B lda ldb i k) st) = scale st" "zero (ForcedUnroll (R * Cn) (\<lambda>i. compute_256 fp R Cn A B lda ldb i k) st) = zero st"
    and "vc (ForcedUnroll (R * Cn) (\<lambda>i. compute_256 fp R Cn A B lda ldb i k) st) = (\<lambda>i. if i < R * Cn then
                 mm_fmadd_ps fp (mm_set1_ps (rd A (i div Cn * lda + k)))
                   (mm_fmadd_ps fp (raw_256 fp Cn B ldb k (i mod Cn)) (scale st (i mod Cn))
                      (zero st (i mod Cn)))
                   (vc st i)
               else vc st i)"
    unfolding ForcedUnroll_def using * by blast+
  show "vb (ForcedUnroll (R * Cn) (\<lambda>i. compute_256 fp R Cn A B lda ldb i k) st) c = mm_fmadd_ps fp (raw_256 fp Cn B ldb k c) (scale st c) (zero st c)"
    if "0 < R" "c < Cn"
  proof -
    have "Cn \<le> R * Cn" using that(1) by simp
    then have 1: "c < R * Cn" using that(2) by linarith
    have "R * Cn \<le> 2 * ((R * Cn + 1) div 2)" by simp
    then have 2: "c < 2 * ((R * Cn + 1) div 2)" using 1 by linarith
    have 3: "R * Cn \<noteq> 0" using that(1) Cn by simp
    have "c \<in> ?ready (R * Cn)"
    proof (cases "Cn = 4")
      case True
      then have "c \<in> {0, 1, 2, 3}" using that(2) by auto
      then show ?thesis using True 3 by simp
    next
      case False
      then show ?thesis using 1 2 that(2) by simp
    qed
    then show ?thesis unfolding ForcedUnroll_def using *(3) by blast
  qed
qed

section \<open>The loop over k: reloads and accumulation\<close>

lemma is_block_start_pow2:
  "is_block_start (int k) (int (2 ^ j)) \<longleftrightarrow> k mod 2 ^ j = 0"
proof -
  have "int k AND (2 ^ j - 1) = int k mod 2 ^ j"
    by (simp add: flip: mask_eq_exp_minus_1 take_bit_eq_mask take_bit_eq_mod)
  also have "\<dots> = int (k mod 2 ^ j)" by (simp add: zmod_int)
  finally show ?thesis by (simp add: is_block_start_def)
qed

lemma ceil_div_step:
  fixes n BK :: nat
  assumes "0 < BK"
  shows "(Suc n + BK - 1) div BK = (if n mod BK = 0 then n div BK + 1 else (n + BK - 1) div BK)"
    and "n mod BK = 0 \<Longrightarrow> (n + BK - 1) div BK = n div BK"
proof -
  define q r where "q = n div BK" and "r = n mod BK"
  have n: "n = q * BK + r" and r: "r < BK" using assms by (simp_all add: q_def r_def)
  have a: "Suc n + BK - 1 = (q + 1) * BK + r" using n by simp
  then have 1: "(Suc n + BK - 1) div BK = q + 1" using r by simp
  show "n mod BK = 0 \<Longrightarrow> (n + BK - 1) div BK = n div BK"
  proof -
    assume "n mod BK = 0"
    then have "r = 0" by (simp add: r_def)
    define r' where "r' = BK - 1"
    have r': "r' < BK" using assms by (simp add: r'_def)
    have "n + BK - 1 = q * BK + r'" using n \<open>r = 0\<close> assms by (simp add: r'_def)
    moreover have "(q * BK + r') div BK = q" using r' by simp
    ultimately show ?thesis by (simp only: q_def)
  qed
  show "(Suc n + BK - 1) div BK = (if n mod BK = 0 then n div BK + 1 else (n + BK - 1) div BK)"
  proof (cases "r = 0")
    case True
    then show ?thesis using 1 by (simp add: q_def r_def)
  next
    case False
    define r' where "r' = r - 1"
    have r': "r' < BK" "r = Suc r'" using False r by (simp_all add: r'_def)
    have "n + BK - 1 = (q + 1) * BK + r'" using n r' by simp
    moreover have "((q + 1) * BK + r') div BK = q + 1" using r'(1) by (simp only: div_mult_self3) simp
    ultimately have "(n + BK - 1) div BK = q + 1" by (simp only:)
    then show ?thesis using 1 False by (simp add: r_def)
  qed
qed

lemma k_loop_reload:
  assumes BK: "BLOCK_K = 2 ^ j"
  shows "k_loop load compute R Cn K BLOCK_K st =
         fold (\<lambda>k s. ForcedUnroll (R * Cn) (\<lambda>i. compute i k)
                  (if k mod BLOCK_K = 0 then ForcedUnroll Cn (\<lambda>i. load i (k div BLOCK_K)) s else s))
           [0..<K] st"
proof -
  let ?T = "\<lambda>k s. ForcedUnroll (R * Cn) (\<lambda>i. compute i k)
                  (if k mod BLOCK_K = 0 then ForcedUnroll Cn (\<lambda>i. load i (k div BLOCK_K)) s else s)"
  have BK0: "0 < BLOCK_K" using BK by simp
  have "fold (k_step load compute R Cn BLOCK_K) [0..<n] (0, st) =
        ((n + BLOCK_K - 1) div BLOCK_K, fold ?T [0..<n] st)" for n
  proof (induction n)
    case 0
    show ?case using BK0 by simp
  next
    case (Suc n)
    have bs: "is_block_start (int n) (int BLOCK_K) \<longleftrightarrow> n mod BLOCK_K = 0"
      unfolding BK by (rule is_block_start_pow2)
    have "fold (k_step load compute R Cn BLOCK_K) [0..<Suc n] (0, st) =
          k_step load compute R Cn BLOCK_K n ((n + BLOCK_K - 1) div BLOCK_K, fold ?T [0..<n] st)"
      by (simp add: Suc.IH)
    also have "\<dots> = ((Suc n + BLOCK_K - 1) div BLOCK_K, fold ?T [0..<Suc n] st)"
      using ceil_div_step[OF BK0, of n] by (simp add: k_step_def bs)
    finally show ?case .
  qed
  then show ?thesis by (simp add: k_loop_def)
qed

lemma k_fold_generic:
  fixes loadall sweep :: "nat \<Rightarrow> regs \<Rightarrow> regs"
  assumes BK: "0 < BK" and Cn: "0 < Cn"
    and ld: "\<And>kb s. (\<forall>c<Cn. scale (loadall kb s) c = SC kb c \<and> zero (loadall kb s) c = ZR kb c) \<and>
                    vc (loadall kb s) = vc s"
    and sw: "\<And>k s. scale (sweep k s) = scale s \<and> zero (sweep k s) = zero s \<and>
                   vc (sweep k s) = (\<lambda>i. if i < n0 then H k i (scale s (i mod Cn)) (zero s (i mod Cn)) (vc s i)
                                        else vc s i)"
  shows "(0 < K \<longrightarrow> (\<forall>c<Cn. scale (fold (\<lambda>k s. sweep k (if k mod BK = 0 then loadall (k div BK) s else s)) [0..<K] st) c
                          = SC ((K - 1) div BK) c \<and>
                        zero (fold (\<lambda>k s. sweep k (if k mod BK = 0 then loadall (k div BK) s else s)) [0..<K] st) c
                          = ZR ((K - 1) div BK) c)) \<and>
         (\<forall>i<n0. vc (fold (\<lambda>k s. sweep k (if k mod BK = 0 then loadall (k div BK) s else s)) [0..<K] st) i =
            fold (\<lambda>k acc. H k i (SC (k div BK) (i mod Cn)) (ZR (k div BK) (i mod Cn)) acc) [0..<K] (vc st i))"
proof (induction K)
  case 0
  show ?case by simp
next
  case (Suc K)
  let ?T = "\<lambda>k s. sweep k (if k mod BK = 0 then loadall (k div BK) s else s)"
  let ?s = "fold ?T [0..<K] st"
  let ?s1 = "if K mod BK = 0 then loadall (K div BK) ?s else ?s"
  have f: "fold ?T [0..<Suc K] st = sweep K ?s1" by simp
  have ih2: "\<forall>i<n0. vc ?s i =
            fold (\<lambda>k acc. H k i (SC (k div BK) (i mod Cn)) (ZR (k div BK) (i mod Cn)) acc) [0..<K] (vc st i)"
    using Suc.IH by blast
  have s1: "\<forall>c<Cn. scale ?s1 c = SC (K div BK) c \<and> zero ?s1 c = ZR (K div BK) c"
  proof (cases "K mod BK = 0")
    case True
    then show ?thesis using ld[of "K div BK" ?s] by simp
  next
    case False
    then obtain K' where K': "K = Suc K'" by (cases K) auto
    have "(K - 1) div BK = K div BK" using False unfolding K' by (simp add: div_Suc)
    moreover have "\<forall>c<Cn. scale ?s c = SC ((K - 1) div BK) c \<and> zero ?s c = ZR ((K - 1) div BK) c"
      using Suc.IH K' by simp
    ultimately show ?thesis using False by simp
  qed
  have v1: "vc ?s1 = vc ?s" using ld[of "K div BK" ?s] by simp
  have a: "\<forall>c<Cn. scale (sweep K ?s1) c = SC (K div BK) c \<and> zero (sweep K ?s1) c = ZR (K div BK) c"
    using s1 sw[of K ?s1] by simp
  have b: "vc (sweep K ?s1) i =
            fold (\<lambda>k acc. H k i (SC (k div BK) (i mod Cn)) (ZR (k div BK) (i mod Cn)) acc) [0..<Suc K] (vc st i)"
    if "i < n0" for i
  proof -
    have m: "i mod Cn < Cn" using Cn by simp
    have "vc (sweep K ?s1) i = H K i (scale ?s1 (i mod Cn)) (zero ?s1 (i mod Cn)) (vc ?s1 i)"
      using sw[of K ?s1] that by simp
    also have "\<dots> = H K i (SC (K div BK) (i mod Cn)) (ZR (K div BK) (i mod Cn)) (vc ?s i)"
      using s1 m v1 by simp
    finally show ?thesis using ih2 that by simp
  qed
  show ?case unfolding f using a b by simp
qed

section \<open>The scale and zero registers\<close>

lemma lt16_cases:
  "l < 16 \<Longrightarrow> l = 0 \<or> l = 1 \<or> l = 2 \<or> l = 3 \<or> l = 4 \<or> l = 5 \<or> l = 6 \<or> l = 7 \<or>
            l = 8 \<or> l = 9 \<or> l = 10 \<or> l = 11 \<or> l = 12 \<or> l = 13 \<or> l = 14 \<or> l = (15::nat)"
  by arith

lemma lt8_cases:
  "l < 8 \<Longrightarrow> l = 0 \<or> l = 1 \<or> l = 2 \<or> l = 3 \<or> l = 4 \<or> l = 5 \<or> l = 6 \<or> l = (7::nat)"
  by arith

lemma idx1_512_lane: "l < 16 \<Longrightarrow> unat (idx1_512 l AND 0x1F) = 2 * l"
  by (drule lt16_cases) (auto simp: idx1_512_def mm512_set_def)

lemma idx2_512_lane: "l < 16 \<Longrightarrow> unat (idx2_512 l AND 0x1F) = 2 * l + 1"
  by (drule lt16_cases) (auto simp: idx2_512_def mm512_set_def)

lemma bit_ffff: "l < 16 \<Longrightarrow> bit (0xffff :: 16 word) l"
  by (drule lt16_cases) (auto simp: bit_numeral_word_iff)

lemma lut512_lane: "j < 16 \<Longrightarrow> lut512 j = lut ! j"
  by (drule lt16_cases) (auto simp: lut512_def mm512_set_def lut_def)

lemma load_512_fields:
  "scale (load_scale_and_zeros_512 S ldc i kb st) =
     (scale st)(i := scale (load_scale_and_zeros_512 S ldc i kb regs0) i)"
  "zero (load_scale_and_zeros_512 S ldc i kb st) =
     (zero st)(i := zero (load_scale_and_zeros_512 S ldc i kb regs0) i)"
  "vc (load_scale_and_zeros_512 S ldc i kb st) = vc st"
  by (simp_all add: load_scale_and_zeros_512_def cvtbf16_fp32_def)

lemma permutex2var_idx1:
  assumes "l < 16"
  shows "mm512_mask_permutex2var_ps a 0xffff idx1_512 b l = (if 2 * l < 16 then a (2 * l) else b (2 * l - 16))"
  using bit_ffff[OF assms] idx1_512_lane[OF assms]
  by (simp add: mm512_mask_permutex2var_ps_def Let_def)

lemma permutex2var_idx2:
  assumes "l < 16"
  shows "mm512_mask_permutex2var_ps a 0xffff idx2_512 b l =
         (if 2 * l + 1 < 16 then a (2 * l + 1) else b (2 * l + 1 - 16))"
  using bit_ffff[OF assms] idx2_512_lane[OF assms]
  by (simp add: mm512_mask_permutex2var_ps_def Let_def)

lemma load_512_lane:
  assumes "l < 16"
  shows "scale (load_scale_and_zeros_512 S ldc c kb st) c l = rd S (kb * ldc * 2 + (16 * c + l) * 2)"
    and "zero (load_scale_and_zeros_512 S ldc c kb st) c l = rd S (kb * ldc * 2 + (16 * c + l) * 2 + 1)"
proof -
  show "scale (load_scale_and_zeros_512 S ldc c kb st) c l = rd S (kb * ldc * 2 + (16 * c + l) * 2)"
    by (simp add: load_scale_and_zeros_512_def cvtbf16_fp32_def permutex2var_idx1[OF assms]
          algebra_simps)
  show "zero (load_scale_and_zeros_512 S ldc c kb st) c l = rd S (kb * ldc * 2 + (16 * c + l) * 2 + 1)"
    by (simp add: load_scale_and_zeros_512_def cvtbf16_fp32_def permutex2var_idx2[OF assms]
          algebra_simps)
qed

lemma loadall_generic:
  fixes ld :: "nat \<Rightarrow> regs \<Rightarrow> regs"
  assumes "\<And>i s. scale (ld i s) = (scale s)(i := SC i) \<and> zero (ld i s) = (zero s)(i := ZR i) \<and>
                 vc (ld i s) = vc s"
  shows "(\<forall>c<n. scale (fold ld [0..<n] st) c = SC c \<and> zero (fold ld [0..<n] st) c = ZR c) \<and>
         vc (fold ld [0..<n] st) = vc st"
  by (induction n) (auto simp: assms less_Suc_eq)

section \<open>The nibbles in the lanes\<close>

lemma conver_word_low:
  fixes b :: "8 word"
  shows "ucast (((push_bit 8 (ucast (0xF :: 8 word)) OR ucast (0xF :: 8 word)) AND (ucast b :: 16 word)) OR
           push_bit 4 (NOT (push_bit 8 (ucast (0xF :: 8 word)) OR ucast (0xF :: 8 word)) AND (ucast b :: 16 word)))
         = b AND 0x0F"
  unfolding m15 by (rule bit_word_eqI) (auto simp: bit_simps dest: bit_imp_le_length)

lemma conver_word_high:
  fixes b :: "8 word"
  shows "ucast (drop_bit 8 (((push_bit 8 (ucast (0xF :: 8 word)) OR ucast (0xF :: 8 word)) AND (ucast b :: 16 word)) OR
           push_bit 4 (NOT (push_bit 8 (ucast (0xF :: 8 word)) OR ucast (0xF :: 8 word)) AND (ucast b :: 16 word))))
         = drop_bit 4 b"
  unfolding m15 by (rule bit_word_eqI) (auto simp: bit_simps dest: bit_imp_le_length)

lemma conver_lane:
  assumes "l < 16"
  shows "epi16_bytes (conver_int4_to_int8 p) l =
         (if even l then rd p (l div 2) AND 0x0F else drop_bit 4 (rd p (l div 2)))"
proof -
  have "l div 2 < 8" using assms by simp
  then have ld: "mm_loadu_si64 p (l div 2) = rd p (l div 2)" by (simp add: mm_loadu_si64_def)
  show ?thesis
    unfolding epi16_bytes_def conver_int4_to_int8_def Let_def mm_cvtepu8_epi16_def
      mm_set1_epi8_def mm_andnot_si128_def mm_and_si128_def mm_slli_epi16_def mm_or_si128_def ld
    by (simp only: conver_word_low conver_word_high)
qed

lemma unat_ucast_8_32: "unat (ucast (w :: 8 word) :: 32 word) = unat w"
proof -
  have "unat w < 2 ^ 8" using unsigned_less[of w, where ?'a = nat] by simp
  then have "unat w < 2 ^ 32" by simp
  then have "take_bit 32 (unat w) = unat w" by (rule take_bit_nat_eq_self)
  then show ?thesis by (simp add: unsigned_ucast_eq)
qed

lemma unat_low_nibble:
  fixes b :: "8 word"
  shows "unat ((ucast b :: 32 word) AND 0xF) = unat (b AND 0x0F)"
proof -
  have "(ucast b :: 32 word) AND mask 4 = ucast (b AND mask 4)"
    by (rule bit_word_eqI) (auto simp: bit_simps dest: bit_imp_le_length)
  then show ?thesis unfolding m15 by (simp only: unat_ucast_8_32)
qed

lemma unat_high_nibble:
  fixes b :: "8 word"
  shows "unat (drop_bit 4 (ucast b :: 32 word) AND 0xF) = unat (drop_bit 4 b)"
proof -
  have "drop_bit 4 (ucast b :: 32 word) AND mask 4 = ucast (drop_bit 4 b)"
    by (rule bit_word_eqI) (auto simp: bit_simps dest: bit_imp_le_length)
  then show ?thesis unfolding m15 by (simp only: unat_ucast_8_32)
qed

lemma nibble_lt16:
  fixes b :: "8 word"
  shows "unat (b AND 0x0F) < 16" "unat (drop_bit 4 b) < 16"
proof -
  have "unat (b AND mask 4) = take_bit 4 (unat b)"
    by (simp add: unsigned_take_bit_eq flip: take_bit_eq_mask)
  also have "\<dots> < 2 ^ 4" by (rule take_bit_nat_less_exp)
  finally show "unat (b AND 0x0F) < 16" unfolding m15 by simp
  have "unat b < 2 ^ 8" using unsigned_less[of b, where ?'a = nat] by simp
  then have "unat b div 2 ^ 4 < 2 ^ 4" by simp
  moreover have "unat (drop_bit 4 b) = unat b div 2 ^ 4"
    using unat_drop_bit_eq[of 4 b] drop_bit_eq_div[of 4 "unat b"] by (simp only:)
  ultimately show "unat (drop_bit 4 b) < 16" by simp
qed

lemma rd_ptr_add [simp]: "rd (ptr_add p n) i = rd p (n + i)"
  by (simp add: rd_def ptr_add_def add.assoc)

lemma high_nibble_and:
  fixes b :: "8 word"
  shows "drop_bit 4 b AND 0x0F = drop_bit 4 b"
  unfolding m15 by (rule bit_word_eqI) (auto simp: bit_simps dest: bit_imp_le_length)

lemma permutexvar_low:
  "mm512_permutexvar_ps (\<lambda>l. ucast (f l :: 8 word)) lut512 l = lut ! unat (f l AND 0x0F)"
  by (simp add: mm512_permutexvar_ps_def unat_low_nibble lut512_lane nibble_lt16)

lemma permutexvar_high:
  "mm512_permutexvar_ps (mm_srli_epi32 (\<lambda>l. ucast (f l :: 8 word)) 4) lut512 l =
   lut ! unat (drop_bit 4 (f l))"
  by (simp add: mm512_permutexvar_ps_def mm_srli_epi32_def unat_high_nibble lut512_lane nibble_lt16)

lemma raw_512_lane:
  assumes l: "l < 16" and c: "c < Cn" and Cn: "Cn \<le> 4"
  shows "raw_512 Cn B ldb k c l = lut ! unat (weight_nibble AVX512 (16 * Cn) B ldb k (16 * c + l))"
proof (cases "Cn = 4")
  case True
  then consider "c = 0" | "c = 1" | "c = 2" | "c = 3" using c by linarith
  then show ?thesis
  proof cases
    case 1
    then show ?thesis using True l
      by (simp add: raw_512_def weight_nibble_def Let_def mm_cvtepu8_epi32_def
            mm_castsi256_si128_def mm_load_bytes_def permutexvar_low BLOCK_N_def
            Vectorized_float_size_def)
  next
    case 2
    then show ?thesis using True l
      by (simp add: raw_512_def weight_nibble_def Let_def mm_cvtepu8_epi32_def
            mm_extracti128_si256_def mm_load_bytes_def permutexvar_low BLOCK_N_def
            Vectorized_float_size_def)
  next
    case 3
    have "(32 + l) mod 32 = l" using l by simp
    then show ?thesis using True l 3
      by (simp add: raw_512_def weight_nibble_def Let_def mm_cvtepu8_epi32_def
            mm_castsi256_si128_def mm_load_bytes_def permutexvar_high BLOCK_N_def
            Vectorized_float_size_def)
  next
    case 4
    have "(48 + l) mod 32 = 16 + l" using l by (simp add: mod_if)
    then show ?thesis using True l 4
      by (simp add: raw_512_def weight_nibble_def Let_def mm_cvtepu8_epi32_def
            mm_extracti128_si256_def mm_load_bytes_def permutexvar_high BLOCK_N_def
            Vectorized_float_size_def)
  qed
next
  case False
  then have ne: "16 * Cn \<noteq> BLOCK_N AVX512" by (simp add: BLOCK_N_def Vectorized_float_size_def)
  have d: "(16 * c + l) div 2 = c * 8 + l div 2" by simp
  have "raw_512 Cn B ldb k c l =
        lut ! unat (epi16_bytes (conver_int4_to_int8 (ptr_add B (k * ldb + c * 8))) l AND 0x0F)"
    using False
    by (simp add: raw_512_def mm_cvtepu8_epi32_def permutexvar_low[where f = "epi16_bytes (conver_int4_to_int8 (ptr_add B (k * ldb + c * 8)))"])
  then show ?thesis using ne l
    by (simp add: conver_lane weight_nibble_def Let_def d high_nibble_and add.assoc
          word_bw_assocs)
qed

lemma sint_small:
  fixes x :: "32 word"
  assumes "unat x < 16"
  shows "real_of_int (sint x) = real (unat x)"
proof -
  have u: "uint x = int (unat x)" by simp
  have "uint x < 16" using assms unfolding u by linarith
  then have b2: "uint x < 2 ^ 31" by simp
  have b1: "- (2 ^ 31) \<le> uint x" by (rule order_trans[of _ 0]) simp_all
  note b = b1 b2
  have "signed_take_bit 31 (uint x) = uint x"
    by (rule signed_take_bit_int_eq_self[OF b])
  then have "sint x = int (unat x)" by (simp add: sint_uint)
  then show ?thesis by simp
qed

lemma cvt_low:
  "mm_cvtepi32_ps fp (mm_and_epi32 (\<lambda>l. ucast (f l :: 8 word)) (mm_set1_epi32 0xF)) l =
   round_f32 fp (real (unat (f l AND 0x0F)))"
proof -
  have "unat ((ucast (f l) :: 32 word) AND 0xF) < 16"
    by (simp only: unat_low_nibble nibble_lt16)
  from sint_small[OF this] show ?thesis
    by (simp add: mm_cvtepi32_ps_def mm_and_epi32_def mm_set1_epi32_def unat_low_nibble)
qed

lemma unat_high_raw:
  fixes b :: "8 word"
  shows "unat (drop_bit 4 (ucast b :: 32 word)) = unat (drop_bit 4 b)"
proof -
  have "drop_bit 4 (ucast b :: 32 word) = ucast (drop_bit 4 b)"
    by (rule bit_word_eqI) (auto simp: bit_simps dest: bit_imp_le_length)
  then show ?thesis by (simp only: unat_ucast_8_32)
qed

lemma cvt_high:
  "mm_cvtepi32_ps fp (mm_srli_epi32 (\<lambda>l. ucast (f l :: 8 word)) 4) l =
   round_f32 fp (real (unat (drop_bit 4 (f l))))"
proof -
  have "unat (drop_bit 4 (ucast (f l) :: 32 word)) < 16"
    by (simp only: unat_high_raw nibble_lt16)
  from sint_small[OF this] show ?thesis
    by (simp add: mm_cvtepi32_ps_def mm_srli_epi32_def unat_high_raw)
qed

lemma cvt_nibble:
  assumes "unat (f l :: 8 word) < 16"
  shows "mm_cvtepi32_ps fp (\<lambda>l. ucast (f l)) l = round_f32 fp (real (unat (f l)))"
proof -
  have "unat (ucast (f l) :: 32 word) < 16" using assms by (simp only: unat_ucast_8_32)
  from sint_small[OF this] show ?thesis
    by (simp add: mm_cvtepi32_ps_def unat_ucast_8_32)
qed

lemma shuffle_lane:
  assumes "l < 8"
  shows "mm_shuffle_epi32 a (MM_SHUFFLE 3 2 3 2) l = a (8 + l)"
  using lt8_cases[OF assms]
  by (elim disjE) (simp_all add: mm_shuffle_epi32_def MM_SHUFFLE_def)

lemma raw_256_lane:
  assumes l: "l < 8" and c: "c < Cn"
  shows "raw_256 fp Cn B ldb k c l =
         round_f32 fp (real (unat (weight_nibble AVX2 (8 * Cn) B ldb k (8 * c + l))))"
proof (cases "Cn = 4")
  case True
  then consider "c = 0" | "c = 1" | "c = 2" | "c = 3" using c by linarith
  then show ?thesis
  proof cases
    case 1
    then show ?thesis using True l
      by (simp add: raw_256_def weight_nibble_def Let_def mm_cvtepu8_epi32_def
            mm_load_bytes_def cvt_low BLOCK_N_def Vectorized_float_size_def)
  next
    case 2
    then show ?thesis using True l
      by (simp add: raw_256_def weight_nibble_def Let_def mm_cvtepu8_epi32_def
            mm_load_bytes_def shuffle_lane BLOCK_N_def Vectorized_float_size_def
            cvt_low[where f = "\<lambda>l. mm_shuffle_epi32 (\<lambda>l. rd B (k * ldb + l)) (MM_SHUFFLE 3 2 3 2) l"])
  next
    case 3
    have "(16 + l) mod 16 = l" using l by simp
    then show ?thesis using True l 3
      by (simp add: raw_256_def weight_nibble_def Let_def mm_cvtepu8_epi32_def
            mm_load_bytes_def cvt_high BLOCK_N_def Vectorized_float_size_def)
  next
    case 4
    have "(24 + l) mod 16 = 8 + l" using l by (simp add: mod_if)
    then show ?thesis using True l 4
      by (simp add: raw_256_def weight_nibble_def Let_def mm_cvtepu8_epi32_def
            mm_load_bytes_def shuffle_lane BLOCK_N_def Vectorized_float_size_def
            cvt_high[where f = "\<lambda>l. mm_shuffle_epi32 (\<lambda>l. rd B (k * ldb + l)) (MM_SHUFFLE 3 2 3 2) l"])
  qed
next
  case False
  then have ne: "8 * Cn \<noteq> BLOCK_N AVX2" by (simp add: BLOCK_N_def Vectorized_float_size_def)
  let ?p = "ptr_add B (k * ldb + (c - c mod 2) * 4)"
  let ?j = "8 * (c mod 2) + l"
  let ?f = "\<lambda>l. mm_set1_epi64x (mm_extract_epi64 (epi16_bytes (conver_int4_to_int8 ?p)) (c mod 2)) l"
  have j: "?j < 16" using l by (cases "c mod 2 = 0") (simp_all add: mod_2_eq_odd)
  have fl: "?f l = epi16_bytes (conver_int4_to_int8 ?p) ?j"
    using l by (simp add: mm_set1_epi64x_def mm_extract_epi64_def)
  have cl: "epi16_bytes (conver_int4_to_int8 ?p) ?j =
        (if even l then rd B (k * ldb + (8 * c + l) div 2) AND 0x0F
         else drop_bit 4 (rd B (k * ldb + (8 * c + l) div 2)))"
  proof -
    have e: "(c - c mod 2) * 4 + (4 * (c mod 2) + l div 2) = 4 * c + l div 2"
    proof (cases "even c")
      case True
      then have "c mod 2 = 0" by (simp add: even_iff_mod_2_eq_zero)
      then show ?thesis by simp
    next
      case False
      then have m: "c mod 2 = 1" by (simp add: odd_iff_mod_2_eq_one)
      then obtain c' where c': "c = Suc c'" by (cases c) auto
      show ?thesis unfolding m c' by simp
    qed
    have "?j div 2 = 4 * (c mod 2) + l div 2" by simp
    moreover have "(8 * c + l) div 2 = 4 * c + l div 2" by simp
    ultimately have idx: "k * ldb + (c - c mod 2) * 4 + ?j div 2 = k * ldb + (8 * c + l) div 2"
      using e by linarith
    have r: "rd ?p (?j div 2) = rd B (k * ldb + (8 * c + l) div 2)"
      by (simp only: rd_ptr_add idx)
    have ev: "even ?j \<longleftrightarrow> even l" by simp
    show ?thesis unfolding conver_lane[OF j] r ev ..
  qed
  have lt: "unat (?f l) < 16" unfolding fl cl by (simp add: nibble_lt16)
  have "raw_256 fp Cn B ldb k c l = round_f32 fp (real (unat (?f l)))"
    using False cvt_nibble[of ?f l fp, OF lt]
    by (simp add: raw_256_def Let_def mm_cvtepu8_epi32_def)
  also have "\<dots> = round_f32 fp (real (unat (weight_nibble AVX2 (8 * Cn) B ldb k (8 * c + l))))"
    unfolding fl cl using ne by (simp add: weight_nibble_def Let_def)
  finally show ?thesis .
qed

section \<open>The scale and zero registers of AVX2\<close>

lemma load_256_fields:
  "scale (load_scale_and_zeros_256 fp S ldc i kb st) =
     (scale st)(i := scale (load_scale_and_zeros_256 fp S ldc i kb regs0) i)"
  "zero (load_scale_and_zeros_256 fp S ldc i kb st) =
     (zero st)(i := zero (load_scale_and_zeros_256 fp S ldc i kb regs0) i)"
  "vc (load_scale_and_zeros_256 fp S ldc i kb st) = vc st"
  by (simp_all add: load_scale_and_zeros_256_def cvtbf16_fp32_def Let_def)

lemma idx1_256_lane:
  assumes "l < 8"
  shows "unat (idx1_256 l AND 7) = (if l < 4 then 2 * l else 2 * (l - 4) + 1)"
  using lt8_cases[OF assms] by (elim disjE) (simp_all add: idx1_256_def mm256_setr_def)

lemma permute_scale:
  assumes "l < 8"
  shows "mm256_permute2f128_ps (mm256_permutevar8x32_ps a idx1_256) (mm256_permutevar8x32_ps b idx1_256)
           0b0100000 l = (if l < 4 then a (2 * l) else b (2 * (l - 4)))"
  using lt8_cases[OF assms]
  by (elim disjE)
     (simp_all add: mm256_permute2f128_ps_def mm256_permutevar8x32_ps_def Let_def
        idx1_256_def mm256_setr_def bit_numeral_word_iff)

lemma permute_zero:
  assumes "l < 8"
  shows "mm256_permute2f128_ps (mm256_permutevar8x32_ps a idx1_256) (mm256_permutevar8x32_ps b idx1_256)
           0b0110001 l = (if l < 4 then a (2 * l + 1) else b (2 * (l - 4) + 1))"
  using lt8_cases[OF assms]
  by (elim disjE)
     (simp_all add: mm256_permute2f128_ps_def mm256_permutevar8x32_ps_def Let_def
        idx1_256_def mm256_setr_def bit_numeral_word_iff)

lemma load_256_lane:
  assumes "l < 8"
  shows "scale (load_scale_and_zeros_256 fp S ldc c kb st) c l = rd S (kb * ldc * 2 + (8 * c + l) * 2)"
    and "zero (load_scale_and_zeros_256 fp S ldc c kb st) c l =
         f32_fmadd fp (rd S (kb * ldc * 2 + (8 * c + l) * 2)) (- 8)
           (rd S (kb * ldc * 2 + (8 * c + l) * 2 + 1))"
proof -
  show s: "scale (load_scale_and_zeros_256 fp S ldc c kb st) c l = rd S (kb * ldc * 2 + (8 * c + l) * 2)"
    using assms
    by (simp add: load_scale_and_zeros_256_def cvtbf16_fp32_def Let_def permute_scale[OF assms]
          algebra_simps)
  show "zero (load_scale_and_zeros_256 fp S ldc c kb st) c l =
         f32_fmadd fp (rd S (kb * ldc * 2 + (8 * c + l) * 2)) (- 8)
           (rd S (kb * ldc * 2 + (8 * c + l) * 2 + 1))"
    using assms
    by (simp add: load_scale_and_zeros_256_def cvtbf16_fp32_def Let_def permute_scale[OF assms]
          permute_zero[OF assms] mm_fmadd_ps_def mm_set1_ps_def algebra_simps)
qed

section \<open>The stores of a tile\<close>

lemma upt_shift: "[a..<a + n] = map (\<lambda>c. a + c) [0..<n]"
  by (induction n) simp_all

lemma fold_upt_shift: "fold f [a..<a + n] = fold (\<lambda>c. f (a + c)) [0..<n]"
  by (simp only: upt_shift[of a n] fold_map comp_def)

lemma fold_upt_mult:
  "fold f [0..<R * Cn] = fold (\<lambda>m. fold (\<lambda>c. f (m * Cn + c)) [0..<Cn]) [0..<R]"
proof (induction R)
  case 0
  show ?case by simp
next
  case (Suc R)
  have a: "Suc R * Cn = R * Cn + Cn" by simp
  have "[0..<R * Cn + Cn] = [0..<R * Cn] @ [R * Cn..<R * Cn + Cn]"
    by (rule upt_add_eq_append) simp
  then have "fold f [0..<Suc R * Cn] = fold f [R * Cn..<R * Cn + Cn] \<circ> fold f [0..<R * Cn]"
    by (simp only: a fold_append)
  also have "\<dots> = fold (\<lambda>c. f (R * Cn + c)) [0..<Cn] \<circ> fold (\<lambda>m. fold (\<lambda>c. f (m * Cn + c)) [0..<Cn]) [0..<R]"
    by (simp only: Suc.IH fold_upt_shift[of f "R * Cn" Cn])
  also have "\<dots> = fold (\<lambda>m. fold (\<lambda>c. f (m * Cn + c)) [0..<Cn]) [0..<Suc R]"
    by simp
  finally show ?case .
qed

lemma concat_map_blocks:
  "concat (map (\<lambda>c. map (\<lambda>l. g (W * c + l)) [0..<W]) [0..<n]) = map g [0..<W * n]"
proof (induction n)
  case 0
  show ?case by simp
next
  case (Suc n)
  have a: "W * Suc n = W * n + W" by simp
  have b: "[0..<W * n + W] = [0..<W * n] @ [W * n..<W * n + W]"
    by (rule upt_add_eq_append) simp
  have c: "map g [W * n..<W * n + W] = map (\<lambda>l. g (W * n + l)) [0..<W]"
    by (simp only: upt_shift[of "W * n" W] map_map comp_def)
  have "map g [0..<W * Suc n] = map g [0..<W * n] @ map (\<lambda>l. g (W * n + l)) [0..<W]"
    by (simp only: a b map_append c)
  moreover have "concat (map (\<lambda>c. map (\<lambda>l. g (W * c + l)) [0..<W]) [0..<Suc n])
      = concat (map (\<lambda>c. map (\<lambda>l. g (W * c + l)) [0..<W]) [0..<n]) @ map (\<lambda>l. g (W * n + l)) [0..<W]"
    by simp
  ultimately show ?case by (simp only: Suc.IH)
qed

lemma mm_storeu_append: "mm_storeu n p a C = C @ map (\<lambda>l. (p + l, a l)) [0..<n]"
  by (simp add: mm_storeu_def fold_store)

lemma map_upt_split: "map g [0..<a + b] = map g [0..<a] @ map (\<lambda>l. g (a + l)) [0..<b]"
proof -
  have "[0..<a + b] = [0..<a] @ [a..<a + b]"
    by (rule upt_add_eq_append) simp
  then show ?thesis by (simp only: map_append upt_shift[of a b] map_map comp_def)
qed


lemma cvt2_lane:
  assumes "l < 2 * W"
  shows "cvtfp32_bf16_2 fp W x y l = round_bf16 fp ((if l div W = 0 then x else y) (l mod W))"
proof (cases "l < W")
  case True
  then show ?thesis by (simp add: cvtfp32_bf16_2_def)
next
  case False
  then have W: "W \<le> l" by simp
  then have "l mod W = (l - W) mod W" by (rule le_mod_geq)
  moreover have "l - W < W" using assms W by simp
  ultimately have m: "l mod W = l - W" by simp
  have "0 < W" using assms by (cases W) auto
  then have "l div W \<noteq> 0" using W by (simp add: div_eq_0_iff)
  then show ?thesis using False m by (simp add: cvtfp32_bf16_2_def)
qed

lemma cvt2_16:
  assumes "l < 32"
  shows "cvtfp32_bf16_2 fp 16 x y l = round_bf16 fp ((if l < 16 then x else y) (l mod 16))"
proof (cases "l < 16")
  case True
  then show ?thesis by (simp add: cvtfp32_bf16_2_def)
next
  case False
  then have "l mod 16 = l - 16" using assms by (simp add: mod_if)
  then show ?thesis using False by (simp add: cvtfp32_bf16_2_def)
qed

lemma div16_lt32: "l < 32 \<Longrightarrow> l div 16 = (if l < 16 then 0 else 1)" for l :: nat
  by (auto simp: div_eq_0_iff)

lemma storec_512_row4:
  "fold (\<lambda>c. storec_512 fp 4 C_ptr ldc st (m * 4 + c)) [0..<4] C =
         C @ map (\<lambda>n. (C_ptr + m * ldc + n,
                        round_bf16 fp (vc st (m * 4 + n div 16) (n mod 16)))) [0..<16 * 4]"
proof -
  let ?g = "\<lambda>n. (C_ptr + m * ldc + n, round_bf16 fp (vc st (m * 4 + n div 16) (n mod 16)))"
  define h :: nat where "h = 32"
  have u: "[0..<4] = [0, 1, 2, 3::nat]" by (simp add: upt_rec)
  have a: "(C_ptr + m * ldc + l, cvtfp32_bf16_2 fp 16 (vc st (m * 4)) (vc st (m * 4 + 1)) l) = ?g l"
    if "l < h" for l
  proof -
    have l: "l < 32" using that by (simp add: h_def)
    show ?thesis by (simp add: cvt2_16[OF l] div16_lt32[OF l])
  qed
  have b: "(C_ptr + m * ldc + h + l, cvtfp32_bf16_2 fp 16 (vc st (m * 4 + 2)) (vc st (m * 4 + 3)) l)
          = ?g (h + l)" if "l < h" for l
  proof -
    have l: "l < 32" using that by (simp add: h_def)
    have "(h + l) mod 16 = (16 * 2 + l) mod 16" by (simp add: h_def)
    then have e: "(h + l) mod 16 = l mod 16" by (simp only: mod_mult_self4)
    have d: "(h + l) div 16 = 2 + l div 16" unfolding h_def by simp
    have v: "m * 4 + (2 + (if l < 16 then 0 else 1)) = (if l < 16 then m * 4 + 2 else m * 4 + 3)"
      by simp
    show ?thesis unfolding e d div16_lt32[OF l] v cvt2_16[OF l] by (simp add: add.assoc)
  qed
  have s: "map ?g [0..<h + h] = map ?g [0..<h] @ map (\<lambda>l. ?g (h + l)) [0..<h]"
    by (rule map_upt_split)
  have a': "map (\<lambda>l. (C_ptr + m * ldc + l, cvtfp32_bf16_2 fp 16 (vc st (m * 4)) (vc st (m * 4 + 1)) l)) [0..<h]
           = map ?g [0..<h]"
  proof (rule map_cong[OF refl])
    fix x assume "x \<in> set [0..<h]"
    then have "x < h" by simp
    then show "(C_ptr + m * ldc + x, cvtfp32_bf16_2 fp 16 (vc st (m * 4)) (vc st (m * 4 + 1)) x) = ?g x"
      by (rule a)
  qed
  have b': "map (\<lambda>l. (C_ptr + m * ldc + h + l, cvtfp32_bf16_2 fp 16 (vc st (m * 4 + 2)) (vc st (m * 4 + 3)) l)) [0..<h]
           = map (\<lambda>l. ?g (h + l)) [0..<h]"
  proof (rule map_cong[OF refl])
    fix x assume "x \<in> set [0..<h]"
    then have "x < h" by simp
    then show "(C_ptr + m * ldc + h + x, cvtfp32_bf16_2 fp 16 (vc st (m * 4 + 2)) (vc st (m * 4 + 3)) x) = ?g (h + x)"
      by (rule b)
  qed
  have st0: "storec_512 fp 4 C_ptr ldc st (m * 4 + 0) C =
        (C @ map (\<lambda>l. (C_ptr + m * ldc + l, cvtfp32_bf16_2 fp 16 (vc st (m * 4)) (vc st (m * 4 + 1)) l)) [0..<h])
          @ map (\<lambda>l. (C_ptr + m * ldc + h + l, cvtfp32_bf16_2 fp 16 (vc st (m * 4 + 2)) (vc st (m * 4 + 3)) l)) [0..<h]"
  proof -
    have dm: "(m * 4 + 0) div 4 = m" "(m * 4 + 0) mod 4 = 0" by simp_all
    have z: "C_ptr + m * ldc + 0 * 32 = C_ptr + m * ldc" "C_ptr + m * ldc + 1 * 32 = C_ptr + m * ldc + h"
      "m * 4 + 0 = m * 4"
      by (simp_all add: h_def)
    have hh: "32 = h" by (simp add: h_def)
    show ?thesis
      unfolding storec_512_def Let_def dm
      by (simp only: refl if_True mm_storeu_append hh mult_zero_left mult_1 add_0_right)
  qed
  have stc: "storec_512 fp 4 C_ptr ldc st i C' = C'" if "i mod 4 \<noteq> 0" for i C'
    using that unfolding storec_512_def Let_def by simp
  have m1: "(m * 4 + 1) mod 4 \<noteq> 0" "(m * 4 + 2) mod 4 \<noteq> 0" "(m * 4 + 3) mod 4 \<noteq> 0"
    unfolding mod_mult_self3 by simp_all
  have "fold (\<lambda>c. storec_512 fp 4 C_ptr ldc st (m * 4 + c)) [0, 1, 2, 3] C =
        storec_512 fp 4 C_ptr ldc st (m * 4 + 0) C"
    by (simp only: fold_simps id_apply comp_apply stc[OF m1(1)] stc[OF m1(2)] stc[OF m1(3)])
  also have "\<dots> = C @ map ?g [0..<h + h]"
    unfolding st0 a' b' s by simp
  finally have "fold (\<lambda>c. storec_512 fp 4 C_ptr ldc st (m * 4 + c)) [0, 1, 2, 3] C = C @ map ?g [0..<h + h]" .
  moreover have "h + h = 16 * 4" by (simp add: h_def)
  ultimately show ?thesis unfolding u by (simp only:)
qed



lemma fold_blocks:
  assumes "\<And>c C. c < n \<Longrightarrow> h c C = C @ map (\<lambda>l. g (W * c + l)) [0..<W]"
  shows "fold h [0..<n] C = C @ map g [0..<W * n]"
  using assms
proof (induction n)
  case 0
  show ?case by simp
next
  case (Suc n)
  have ih: "fold h [0..<n] C = C @ map g [0..<W * n]"
    by (rule Suc.IH) (simp add: Suc.prems)
  have a: "W * Suc n = W * n + W" by simp
  have "fold h [0..<Suc n] C = h n (fold h [0..<n] C)" by simp
  also have "\<dots> = (C @ map g [0..<W * n]) @ map (\<lambda>l. g (W * n + l)) [0..<W]"
    unfolding ih by (rule Suc.prems) simp
  also have "\<dots> = C @ map g [0..<W * n + W]"
    by (simp only: map_upt_split[of g "W * n" W] append_assoc)
  finally show ?case by (simp only: a)
qed

lemma fold_rows:
  assumes "\<And>m C. m < R \<Longrightarrow> h m C = C @ r m"
  shows "fold h [0..<R] C = C @ concat (map r [0..<R])"
  using assms
proof (induction R)
  case 0
  show ?case by simp
next
  case (Suc R)
  have ih: "fold h [0..<R] C = C @ concat (map r [0..<R])"
    by (rule Suc.IH) (simp add: Suc.prems)
  have "fold h [0..<Suc R] C = h R (fold h [0..<R] C)" by simp
  also have "\<dots> = (C @ concat (map r [0..<R])) @ r R"
    unfolding ih by (rule Suc.prems) simp
  finally show ?case by simp
qed

lemma div_mod_block:
  fixes c Cn m :: nat
  assumes "c < Cn"
  shows "(m * Cn + c) div Cn = m" "(m * Cn + c) mod Cn = c"
  using assms by simp_all

lemma storec_512_col:
  assumes Cn: "Cn \<noteq> 4" and c: "c < Cn"
  shows "storec_512 fp Cn C_ptr ldc st (m * Cn + c) C =
         C @ map (\<lambda>l. (\<lambda>n. (C_ptr + m * ldc + n,
                        round_bf16 fp (vc st (m * Cn + n div 16) (n mod 16)))) (16 * c + l)) [0..<16]"
proof -
  have "storec_512 fp Cn C_ptr ldc st (m * Cn + c) C =
        C @ map (\<lambda>l. (C_ptr + m * ldc + c * 16 + l, round_bf16 fp (vc st (m * Cn + c) l))) [0..<16]"
    unfolding storec_512_def Let_def div_mod_block[OF c] mm_storeu_append cvtfp32_bf16_def
    using Cn by simp
  also have "map (\<lambda>l. (C_ptr + m * ldc + c * 16 + l, round_bf16 fp (vc st (m * Cn + c) l))) [0..<16] =
        map (\<lambda>l. (\<lambda>n. (C_ptr + m * ldc + n,
                        round_bf16 fp (vc st (m * Cn + n div 16) (n mod 16)))) (16 * c + l)) [0..<16]"
  proof (rule map_cong[OF refl])
    fix x :: nat assume "x \<in> set [0..<16]"
    then have x: "x < 16" by simp
    then have "(16 * c + x) div 16 = c" "(16 * c + x) mod 16 = x" by simp_all
    then show "(C_ptr + m * ldc + c * 16 + x, round_bf16 fp (vc st (m * Cn + c) x)) =
          (C_ptr + m * ldc + (16 * c + x), round_bf16 fp (vc st (m * Cn + (16 * c + x) div 16) ((16 * c + x) mod 16)))"
      by simp
  qed
  finally show ?thesis .
qed

lemma storec_512_row:
  assumes Cn: "0 < Cn"
  shows "fold (\<lambda>c. storec_512 fp Cn C_ptr ldc st (m * Cn + c)) [0..<Cn] C =
         C @ map (\<lambda>n. (C_ptr + m * ldc + n,
                        round_bf16 fp (vc st (m * Cn + n div 16) (n mod 16)))) [0..<16 * Cn]"
proof (cases "Cn = 4")
  case True
  show ?thesis unfolding True by (rule storec_512_row4)
next
  case False
  show ?thesis
    by (rule fold_blocks) (rule storec_512_col[OF False])
qed

lemma store_sweep_512:
  assumes Cn: "0 < Cn"
  shows "ForcedUnroll (R * Cn) (storec_512 fp Cn C_ptr ldc st) C =
         C @ concat (map (\<lambda>m. map (\<lambda>n. (C_ptr + m * ldc + n,
                        round_bf16 fp (vc st (m * Cn + n div 16) (n mod 16)))) [0..<16 * Cn]) [0..<R])"
  unfolding ForcedUnroll_def fold_upt_mult[of _ R Cn]
  by (rule fold_rows) (rule storec_512_row[OF Cn])

lemma cvt2_8:
  assumes "l < 16"
  shows "cvtfp32_bf16_2 fp 8 x y l = round_bf16 fp ((if l < 8 then x else y) (l mod 8))"
proof (cases "l < 8")
  case True
  then show ?thesis by (simp add: cvtfp32_bf16_2_def)
next
  case False
  then have "l mod 8 = l - 8" using assms by (simp add: mod_if)
  then show ?thesis using False by (simp add: cvtfp32_bf16_2_def)
qed

lemma div8_lt16: "l < 16 \<Longrightarrow> l div 8 = (if l < 8 then 0 else 1)" for l :: nat
  by (auto simp: div_eq_0_iff)

lemma storec_256_pair:
  assumes p: "p < H"
  shows "fold (\<lambda>c. storec_256 fp (2 * H) C_ptr ldc st (m * (2 * H) + (p * 2 + c))) [0..<2] C =
         C @ map (\<lambda>l. (\<lambda>n. (C_ptr + m * ldc + n,
                        round_bf16 fp (vc st (m * (2 * H) + n div 8) (n mod 8)))) (16 * p + l)) [0..<16]"
proof -
  have u: "[0..<2] = [0, 1::nat]" by (simp add: upt_rec)
  have c0: "p * 2 + 0 < 2 * H" and c1: "p * 2 + 1 < 2 * H" using p by simp_all
  have e0: "(p * 2 + 0) mod 2 = 0" by simp
  have e1: "(p * 2 + 1) mod 2 \<noteq> 0" unfolding mod_mult_self3 by simp
  have s1: "storec_256 fp (2 * H) C_ptr ldc st (m * (2 * H) + (p * 2 + 1)) C' = C'" for C'
    unfolding storec_256_def Let_def div_mod_block[OF c1] using e1 by simp
  have s0: "storec_256 fp (2 * H) C_ptr ldc st (m * (2 * H) + (p * 2 + 0)) C =
        C @ map (\<lambda>l. (C_ptr + m * ldc + p * 2 * 8 + l,
                 cvtfp32_bf16_2 fp 8 (vc st (m * (2 * H) + p * 2)) (vc st (m * (2 * H) + p * 2 + 1)) l)) [0..<16]"
    unfolding storec_256_def Let_def div_mod_block[OF c0] mm_storeu_append using e0 by simp
  have mp: "map (\<lambda>l. (C_ptr + m * ldc + p * 2 * 8 + l,
                 cvtfp32_bf16_2 fp 8 (vc st (m * (2 * H) + p * 2)) (vc st (m * (2 * H) + p * 2 + 1)) l)) [0..<16]
     = map (\<lambda>l. (\<lambda>n. (C_ptr + m * ldc + n,
                        round_bf16 fp (vc st (m * (2 * H) + n div 8) (n mod 8)))) (16 * p + l)) [0..<16]"
  proof (rule map_cong[OF refl])
    fix x :: nat assume "x \<in> set [0..<16]"
    then have x: "x < 16" by simp
    have d: "(16 * p + x) div 8 = 2 * p + x div 8" by simp
    have "(16 * p + x) mod 8 = (8 * (2 * p) + x) mod 8" by simp
    then have e: "(16 * p + x) mod 8 = x mod 8" by (simp only: mod_mult_self4)
    have v: "m * (2 * H) + (2 * p + (if x < 8 then 0 else 1)) =
             (if x < 8 then m * (2 * H) + p * 2 else m * (2 * H) + p * 2 + 1)" by simp
    show "(C_ptr + m * ldc + p * 2 * 8 + x,
           cvtfp32_bf16_2 fp 8 (vc st (m * (2 * H) + p * 2)) (vc st (m * (2 * H) + p * 2 + 1)) x) =
          (C_ptr + m * ldc + (16 * p + x),
           round_bf16 fp (vc st (m * (2 * H) + (16 * p + x) div 8) ((16 * p + x) mod 8)))"
      unfolding d e div8_lt16[OF x] v cvt2_8[OF x] by (simp add: add.assoc)
  qed
  have "fold (\<lambda>c. storec_256 fp (2 * H) C_ptr ldc st (m * (2 * H) + (p * 2 + c))) [0, 1] C =
        storec_256 fp (2 * H) C_ptr ldc st (m * (2 * H) + (p * 2 + 0)) C"
    by (simp only: fold_simps id_apply comp_apply s1)
  then show ?thesis unfolding u s0 mp .
qed

lemma storec_256_row:
  "fold (\<lambda>c. storec_256 fp (2 * H) C_ptr ldc st (m * (2 * H) + c)) [0..<2 * H] C =
         C @ map (\<lambda>n. (C_ptr + m * ldc + n,
                        round_bf16 fp (vc st (m * (2 * H) + n div 8) (n mod 8)))) [0..<8 * (2 * H)]"
proof -
  have a: "2 * H = H * 2" by simp
  have b: "8 * (2 * H) = 16 * H" by simp
  have "fold (\<lambda>c. storec_256 fp (2 * H) C_ptr ldc st (m * (2 * H) + c)) [0..<H * 2] C =
        fold (\<lambda>p. fold (\<lambda>c. storec_256 fp (2 * H) C_ptr ldc st (m * (2 * H) + (p * 2 + c))) [0..<2]) [0..<H] C"
    by (simp only: fold_upt_mult[of _ H 2])
  also have "\<dots> = C @ map (\<lambda>n. (C_ptr + m * ldc + n,
                        round_bf16 fp (vc st (m * (2 * H) + n div 8) (n mod 8)))) [0..<16 * H]"
    by (rule fold_blocks) (rule storec_256_pair)
  finally show ?thesis unfolding b by (simp only: a[symmetric])
qed

lemma store_sweep_256:
  "ForcedUnroll (R * (2 * H)) (storec_256 fp (2 * H) C_ptr ldc st) C =
         C @ concat (map (\<lambda>m. map (\<lambda>n. (C_ptr + m * ldc + n,
                        round_bf16 fp (vc st (m * (2 * H) + n div 8) (n mod 8)))) [0..<8 * (2 * H)]) [0..<R])"
  unfolding ForcedUnroll_def fold_upt_mult[of _ R "2 * H"]
  by (rule fold_rows) (rule storec_256_row)

section \<open>The vectorized kernels and the reference\<close>

lemma loadc_sweep: "vc (ForcedUnroll n loadc regs0) = (\<lambda>i. mm_setzero_ps)"
  unfolding ForcedUnroll_def
proof (induction n)
  case 0
  show ?case by (simp add: regs0_def)
next
  case (Suc n)
  then show ?case by (auto simp: loadc_def set_vc_def)
qed

lemma fold_lane:
  "fold (\<lambda>k acc. mm_fmadd_ps fp (a k) (b k) acc) ks v l =
   fold (\<lambda>k x. f32_fmadd fp (a k l) (b k l) x) ks (v l)"
  by (induction ks arbitrary: v) (simp_all add: mm_fmadd_ps_def)

lemma loadall_512:
  "(\<forall>c<Cn. scale (ForcedUnroll Cn (\<lambda>i. load_scale_and_zeros_512 S ldc i kb) s) c =
             scale (load_scale_and_zeros_512 S ldc c kb regs0) c \<and>
           zero (ForcedUnroll Cn (\<lambda>i. load_scale_and_zeros_512 S ldc i kb) s) c =
             zero (load_scale_and_zeros_512 S ldc c kb regs0) c) \<and>
   vc (ForcedUnroll Cn (\<lambda>i. load_scale_and_zeros_512 S ldc i kb) s) = vc s"
  unfolding ForcedUnroll_def
  by (rule loadall_generic) (intro conjI load_512_fields)

lemma loadall_256:
  "(\<forall>c<Cn. scale (ForcedUnroll Cn (\<lambda>i. load_scale_and_zeros_256 fp S ldc i kb) s) c =
             scale (load_scale_and_zeros_256 fp S ldc c kb regs0) c \<and>
           zero (ForcedUnroll Cn (\<lambda>i. load_scale_and_zeros_256 fp S ldc i kb) s) c =
             zero (load_scale_and_zeros_256 fp S ldc c kb regs0) c) \<and>
   vc (ForcedUnroll Cn (\<lambda>i. load_scale_and_zeros_256 fp S ldc i kb) s) = vc s"
  unfolding ForcedUnroll_def
  by (rule loadall_generic) (intro conjI load_256_fields)

lemma pow2_pos: "BLOCK_K = 2 ^ j \<Longrightarrow> 0 < BLOCK_K" for BLOCK_K :: nat
  by simp

lemma vc_512:
  assumes BK: "BLOCK_K = 2 ^ j" and Cn: "Cn \<le> 4" and m: "m < R" and c: "c < Cn" and l: "l < 16"
  shows "vc (k_loop (load_scale_and_zeros_512 S ldc) (compute_512 fp R Cn A B lda ldb) R Cn K BLOCK_K
              (ForcedUnroll (R * Cn) loadc regs0)) (m * Cn + c) l =
         tile_element AVX512 fp (16 * Cn) A B S lda ldb ldc K BLOCK_K m (16 * c + l)"
proof -
  have Cn0: "0 < Cn" using c by simp
  let ?st0 = "ForcedUnroll (R * Cn) loadc regs0"
  let ?H = "\<lambda>k i sc zr acc. mm_fmadd_ps fp (mm_set1_ps (rd A (i div Cn * lda + k)))
                   (mm_fmadd_ps fp (raw_512 Cn B ldb k (i mod Cn)) sc zr) acc"
  let ?SC = "\<lambda>kb c. scale (load_scale_and_zeros_512 S ldc c kb regs0) c"
  let ?ZR = "\<lambda>kb c. zero (load_scale_and_zeros_512 S ldc c kb regs0) c"
  have i: "m * Cn + c < R * Cn"
  proof -
    have "m * Cn + c < m * Cn + Cn" using c by simp
    also have "\<dots> = Suc m * Cn" by simp
    also have "\<dots> \<le> R * Cn" using m by (intro mult_le_mono1) simp
    finally show ?thesis .
  qed
  have g: "\<forall>i<R * Cn. vc (fold (\<lambda>k s. ForcedUnroll (R * Cn) (\<lambda>i. compute_512 fp R Cn A B lda ldb i k)
                (if k mod BLOCK_K = 0 then ForcedUnroll Cn (\<lambda>i. load_scale_and_zeros_512 S ldc i (k div BLOCK_K)) s else s))
              [0..<K] ?st0) i =
            fold (\<lambda>k acc. ?H k i (?SC (k div BLOCK_K) (i mod Cn)) (?ZR (k div BLOCK_K) (i mod Cn)) acc)
              [0..<K] (vc ?st0 i)"
    by (rule k_fold_generic[where loadall = "\<lambda>kb. ForcedUnroll Cn (\<lambda>i. load_scale_and_zeros_512 S ldc i kb)"
            and sweep = "\<lambda>k. ForcedUnroll (R * Cn) (\<lambda>i. compute_512 fp R Cn A B lda ldb i k)"
            and H = ?H and SC = ?SC and ZR = ?ZR and st = ?st0,
            OF pow2_pos[OF BK] Cn0 loadall_512, THEN conjunct2])
       (simp only: sweep_512[OF Cn0] simp_thms)
  have "vc (k_loop (load_scale_and_zeros_512 S ldc) (compute_512 fp R Cn A B lda ldb) R Cn K BLOCK_K ?st0)
          (m * Cn + c) =
        fold (\<lambda>k acc. ?H k (m * Cn + c) (?SC (k div BLOCK_K) c) (?ZR (k div BLOCK_K) c) acc)
          [0..<K] mm_setzero_ps"
    unfolding k_loop_reload[OF BK]
    using g[rule_format, OF i] by (simp only: div_mod_block[OF c] loadc_sweep)
  then have "vc (k_loop (load_scale_and_zeros_512 S ldc) (compute_512 fp R Cn A B lda ldb) R Cn K BLOCK_K ?st0)
          (m * Cn + c) l =
        fold (\<lambda>k acc. mm_fmadd_ps fp (mm_set1_ps (rd A (m * lda + k)))
                 (mm_fmadd_ps fp (raw_512 Cn B ldb k c) (?SC (k div BLOCK_K) c) (?ZR (k div BLOCK_K) c)) acc)
          [0..<K] mm_setzero_ps l"
    by (simp only: div_mod_block[OF c])
  also have "\<dots> =
        fold (\<lambda>k x. f32_fmadd fp (mm_set1_ps (rd A (m * lda + k)) l)
                 (mm_fmadd_ps fp (raw_512 Cn B ldb k c) (?SC (k div BLOCK_K) c) (?ZR (k div BLOCK_K) c) l) x)
          [0..<K] (mm_setzero_ps l)"
    by (rule fold_lane)
  finally have "vc (k_loop (load_scale_and_zeros_512 S ldc) (compute_512 fp R Cn A B lda ldb) R Cn K BLOCK_K ?st0)
          (m * Cn + c) l =
        fold (\<lambda>k x. f32_fmadd fp (rd A (m * lda + k))
                 (f32_fmadd fp (raw_512 Cn B ldb k c l) (?SC (k div BLOCK_K) c l) (?ZR (k div BLOCK_K) c l)) x)
          [0..<K] 0"
    by (simp only: mm_set1_ps_def mm_fmadd_ps_def mm_setzero_ps_def)
  then show ?thesis
    by (simp only: raw_512_lane[OF l c Cn] load_512_lane[OF l] tile_element_def accumulate_def
          dequant_def isa.case)
qed

lemma vc_256:
  assumes BK: "BLOCK_K = 2 ^ j" and m: "m < R" and c: "c < Cn" and l: "l < 8"
  shows "vc (k_loop (load_scale_and_zeros_256 fp S ldc) (compute_256 fp R Cn A B lda ldb) R Cn K BLOCK_K
              (ForcedUnroll (R * Cn) loadc regs0)) (m * Cn + c) l =
         tile_element AVX2 fp (8 * Cn) A B S lda ldb ldc K BLOCK_K m (8 * c + l)"
proof -
  have Cn0: "0 < Cn" using c by simp
  let ?st0 = "ForcedUnroll (R * Cn) loadc regs0"
  let ?H = "\<lambda>k i sc zr acc. mm_fmadd_ps fp (mm_set1_ps (rd A (i div Cn * lda + k)))
                   (mm_fmadd_ps fp (raw_256 fp Cn B ldb k (i mod Cn)) sc zr) acc"
  let ?SC = "\<lambda>kb c. scale (load_scale_and_zeros_256 fp S ldc c kb regs0) c"
  let ?ZR = "\<lambda>kb c. zero (load_scale_and_zeros_256 fp S ldc c kb regs0) c"
  have i: "m * Cn + c < R * Cn"
  proof -
    have "m * Cn + c < m * Cn + Cn" using c by simp
    also have "\<dots> = Suc m * Cn" by simp
    also have "\<dots> \<le> R * Cn" using m by (intro mult_le_mono1) simp
    finally show ?thesis .
  qed
  have g: "\<forall>i<R * Cn. vc (fold (\<lambda>k s. ForcedUnroll (R * Cn) (\<lambda>i. compute_256 fp R Cn A B lda ldb i k)
                (if k mod BLOCK_K = 0 then ForcedUnroll Cn (\<lambda>i. load_scale_and_zeros_256 fp S ldc i (k div BLOCK_K)) s else s))
              [0..<K] ?st0) i =
            fold (\<lambda>k acc. ?H k i (?SC (k div BLOCK_K) (i mod Cn)) (?ZR (k div BLOCK_K) (i mod Cn)) acc)
              [0..<K] (vc ?st0 i)"
    by (rule k_fold_generic[where loadall = "\<lambda>kb. ForcedUnroll Cn (\<lambda>i. load_scale_and_zeros_256 fp S ldc i kb)"
            and sweep = "\<lambda>k. ForcedUnroll (R * Cn) (\<lambda>i. compute_256 fp R Cn A B lda ldb i k)"
            and H = ?H and SC = ?SC and ZR = ?ZR and st = ?st0,
            OF pow2_pos[OF BK] Cn0 loadall_256, THEN conjunct2])
       (simp only: sweep_256[OF Cn0] simp_thms)
  have "vc (k_loop (load_scale_and_zeros_256 fp S ldc) (compute_256 fp R Cn A B lda ldb) R Cn K BLOCK_K ?st0)
          (m * Cn + c) =
        fold (\<lambda>k acc. ?H k (m * Cn + c) (?SC (k div BLOCK_K) c) (?ZR (k div BLOCK_K) c) acc)
          [0..<K] mm_setzero_ps"
    unfolding k_loop_reload[OF BK]
    using g[rule_format, OF i] by (simp only: div_mod_block[OF c] loadc_sweep)
  then have "vc (k_loop (load_scale_and_zeros_256 fp S ldc) (compute_256 fp R Cn A B lda ldb) R Cn K BLOCK_K ?st0)
          (m * Cn + c) l =
        fold (\<lambda>k acc. mm_fmadd_ps fp (mm_set1_ps (rd A (m * lda + k)))
                 (mm_fmadd_ps fp (raw_256 fp Cn B ldb k c) (?SC (k div BLOCK_K) c) (?ZR (k div BLOCK_K) c)) acc)
          [0..<K] mm_setzero_ps l"
    by (simp only: div_mod_block[OF c])
  also have "\<dots> =
        fold (\<lambda>k x. f32_fmadd fp (mm_set1_ps (rd A (m * lda + k)) l)
                 (mm_fmadd_ps fp (raw_256 fp Cn B ldb k c) (?SC (k div BLOCK_K) c) (?ZR (k div BLOCK_K) c) l) x)
          [0..<K] (mm_setzero_ps l)"
    by (rule fold_lane)
  finally have "vc (k_loop (load_scale_and_zeros_256 fp S ldc) (compute_256 fp R Cn A B lda ldb) R Cn K BLOCK_K ?st0)
          (m * Cn + c) l =
        fold (\<lambda>k x. f32_fmadd fp (rd A (m * lda + k))
                 (f32_fmadd fp (raw_256 fp Cn B ldb k c l) (?SC (k div BLOCK_K) c l) (?ZR (k div BLOCK_K) c l)) x)
          [0..<K] 0"
    by (simp only: mm_set1_ps_def mm_fmadd_ps_def mm_setzero_ps_def)
  then show ?thesis
    by (simp only: raw_256_lane[OF l c] load_256_lane[OF l] tile_element_def accumulate_def
          dequant_def isa.case)
qed

lemma rows_cong:
  assumes "\<And>m n. m < R \<Longrightarrow> n < W \<Longrightarrow> f m n = g m n"
  shows "concat (map (\<lambda>m. map (\<lambda>n. (p m n, f m n)) [0..<W]) [0..<R]) =
         concat (map (\<lambda>m. map (\<lambda>n. (p m n, g m n)) [0..<W]) [0..<R])"
proof -
  have "map (\<lambda>m. map (\<lambda>n. (p m n, f m n)) [0..<W]) [0..<R] =
        map (\<lambda>m. map (\<lambda>n. (p m n, g m n)) [0..<W]) [0..<R]"
  proof (rule map_cong[OF refl])
    fix m assume "m \<in> set [0..<R]"
    then have m: "m < R" by simp
    show "map (\<lambda>n. (p m n, f m n)) [0..<W] = map (\<lambda>n. (p m n, g m n)) [0..<W]"
    proof (rule map_cong[OF refl])
      fix n assume "n \<in> set [0..<W]"
      then have "n < W" by simp
      then show "(p m n, f m n) = (p m n, g m n)" using assms[OF m] by simp
    qed
  qed
  then show ?thesis by (simp only:)
qed

lemma tinygemm_avx512_ref:
  assumes BK: "BLOCK_K = 2 ^ j" and BN: "BN = 16 \<or> BN = 32 \<or> BN = 48 \<or> BN = 64"
  shows "tinygemm_kernel_avx512 fp BM BN A B S C_ptr lda ldb ldc K BLOCK_K C =
         tinygemm_ref AVX512 fp BM BN A B S C_ptr lda ldb ldc K BLOCK_K C"
proof -
  define Cn where "Cn = BN div 16"
  have Cn: "0 < Cn" "Cn \<le> 4" and BN': "BN = 16 * Cn" using BN by (auto simp: Cn_def)
  let ?st = "k_loop (load_scale_and_zeros_512 S ldc) (compute_512 fp BM Cn A B lda ldb) BM Cn K BLOCK_K
              (ForcedUnroll (BM * Cn) loadc regs0)"
  have "tinygemm_kernel_avx512 fp BM BN A B S C_ptr lda ldb ldc K BLOCK_K C =
        ForcedUnroll (BM * Cn) (storec_512 fp Cn C_ptr ldc ?st) C"
    by (simp only: tinygemm_kernel_avx512_def Let_def Cn_def)
  also have "\<dots> = C @ concat (map (\<lambda>m. map (\<lambda>n. (C_ptr + m * ldc + n,
                        round_bf16 fp (vc ?st (m * Cn + n div 16) (n mod 16)))) [0..<16 * Cn]) [0..<BM])"
    by (rule store_sweep_512[OF Cn(1)])
  also have "concat (map (\<lambda>m. map (\<lambda>n. (C_ptr + m * ldc + n,
                        round_bf16 fp (vc ?st (m * Cn + n div 16) (n mod 16)))) [0..<16 * Cn]) [0..<BM]) =
        concat (map (\<lambda>m. map (\<lambda>n. (C_ptr + m * ldc + n,
                        round_bf16 fp (tile_element AVX512 fp (16 * Cn) A B S lda ldb ldc K BLOCK_K m n)))
                 [0..<16 * Cn]) [0..<BM])"
  proof (rule rows_cong)
    fix m n assume m: "m < BM" and n: "n < 16 * Cn"
    have c: "n div 16 < Cn" using n by (simp add: less_mult_imp_div_less mult.commute)
    have l: "n mod 16 < 16" by simp
    have e: "16 * (n div 16) + n mod 16 = n" by simp
    show "round_bf16 fp (vc ?st (m * Cn + n div 16) (n mod 16)) =
          round_bf16 fp (tile_element AVX512 fp (16 * Cn) A B S lda ldb ldc K BLOCK_K m n)"
      by (simp only: vc_512[OF BK Cn(2) m c l] e)
  qed
  finally show ?thesis by (simp only: tinygemm_ref_def BN')
qed

lemma tinygemm_avx2_ref:
  assumes BK: "BLOCK_K = 2 ^ j" and BN: "BN = 16 \<or> BN = 32 \<or> BN = 48 \<or> BN = 64"
  shows "tinygemm_kernel_avx2 fp BM BN A B S C_ptr lda ldb ldc K BLOCK_K C =
         tinygemm_ref AVX2 fp BM BN A B S C_ptr lda ldb ldc K BLOCK_K C"
proof -
  define H where "H = BN div 16"
  have Cn: "BN div 8 = 2 * H" and BN': "BN = 8 * (2 * H)" using BN by (auto simp: H_def)
  let ?st = "k_loop (load_scale_and_zeros_256 fp S ldc) (compute_256 fp BM (2 * H) A B lda ldb) BM (2 * H) K BLOCK_K
              (ForcedUnroll (BM * (2 * H)) loadc regs0)"
  have "tinygemm_kernel_avx2 fp BM BN A B S C_ptr lda ldb ldc K BLOCK_K C =
        ForcedUnroll (BM * (2 * H)) (storec_256 fp (2 * H) C_ptr ldc ?st) C"
    by (simp only: tinygemm_kernel_avx2_def Let_def Cn)
  also have "\<dots> = C @ concat (map (\<lambda>m. map (\<lambda>n. (C_ptr + m * ldc + n,
                        round_bf16 fp (vc ?st (m * (2 * H) + n div 8) (n mod 8)))) [0..<8 * (2 * H)]) [0..<BM])"
    by (rule store_sweep_256)
  also have "concat (map (\<lambda>m. map (\<lambda>n. (C_ptr + m * ldc + n,
                        round_bf16 fp (vc ?st (m * (2 * H) + n div 8) (n mod 8)))) [0..<8 * (2 * H)]) [0..<BM]) =
        concat (map (\<lambda>m. map (\<lambda>n. (C_ptr + m * ldc + n,
                        round_bf16 fp (tile_element AVX2 fp (8 * (2 * H)) A B S lda ldb ldc K BLOCK_K m n)))
                 [0..<8 * (2 * H)]) [0..<BM])"
  proof (rule rows_cong)
    fix m n assume m: "m < BM" and n: "n < 8 * (2 * H)"
    have c: "n div 8 < 2 * H" using n by (simp add: less_mult_imp_div_less mult.commute)
    have l: "n mod 8 < 8" by simp
    have e: "8 * (n div 8) + n mod 8 = n" by simp
    show "round_bf16 fp (vc ?st (m * (2 * H) + n div 8) (n mod 8)) =
          round_bf16 fp (tile_element AVX2 fp (8 * (2 * H)) A B S lda ldb ldc K BLOCK_K m n)"
      by (simp only: vc_256[OF BK m c l] e)
  qed
  finally show ?thesis by (simp only: tinygemm_ref_def BN')
qed

lemma tinygemm_kernel_ref:
  assumes BK: "BLOCK_K = 2 ^ j" and BN: "BN = 16 \<or> BN = 32 \<or> BN = 48 \<or> BN = 64"
  shows "tinygemm_kernel v fp BM BN A B S C_ptr lda ldb ldc K BLOCK_K C =
         tinygemm_ref v fp BM BN A B S C_ptr lda ldb ldc K BLOCK_K C"
proof (cases v)
  case AVX512
  show ?thesis unfolding AVX512 tinygemm_kernel_def isa.case by (rule tinygemm_avx512_ref[OF BK BN])
next
  case AVX2
  show ?thesis unfolding AVX2 tinygemm_kernel_def isa.case by (rule tinygemm_avx2_ref[OF BK BN])
next
  case Scalar
  show ?thesis unfolding Scalar tinygemm_kernel_def isa.case by (rule tinygemm_scalar_ref)
qed

section \<open>Values that rounding leaves alone\<close>

lemma round_half_even_int [simp]: "round_half_even (of_int z) = z"
  by (simp add: round_half_even_def)

lemma round_to_precision_exact:
  assumes m: "\<bar>m\<bar> < 2 ^ p"
  shows "round_to_precision p (of_int m * 2 ^ j) = of_int m * 2 ^ j"
proof (cases "m = 0")
  case True
  then show ?thesis by (simp add: round_to_precision_def)
next
  case False
  define x :: real where "x = of_int m * 2 ^ j"
  define e where "e = \<lfloor>log 2 \<bar>x\<bar>\<rfloor> - int p + 1"
  have x0: "x \<noteq> 0" using False by (simp add: x_def)
  have ax: "\<bar>x\<bar> = of_int \<bar>m\<bar> * 2 ^ j" by (simp add: x_def abs_mult)
  have "of_int \<bar>m\<bar> < (2::real) ^ p" using m by (metis of_int_less_iff of_int_numeral of_int_power)
  then have "\<bar>x\<bar> < 2 ^ p * 2 ^ j" unfolding ax by simp
  moreover have "(2::real) powr (real (p + j)) = 2 ^ p * 2 ^ j"
  proof -
    have "(2::real) powr (real (p + j)) = 2 ^ (p + j)" by (rule powr_realpow) simp
    then show ?thesis by (simp only: power_add)
  qed
  ultimately have "\<bar>x\<bar> < 2 powr (real (p + j))" by simp
  then have "log 2 \<bar>x\<bar> < real (p + j)" using x0 by (simp add: log_less_iff)
  then have "\<lfloor>log 2 \<bar>x\<bar>\<rfloor> < int (p + j)" by (simp add: floor_less_iff)
  then have ej: "e \<le> int j" by (simp add: e_def)
  define d where "d = nat (int j - e)"
  have d: "int j = e + int d" using ej by (simp add: d_def)
  have "(2::real) ^ j = 2 powr (of_int (int j))" by (simp add: powr_realpow)
  also have "\<dots> = 2 powr (of_int e) * 2 powr (real d)" by (simp add: d powr_add)
  also have "\<dots> = 2 powr (of_int e) * 2 ^ d" by (simp add: powr_realpow)
  finally have pj: "(2::real) ^ j = 2 powr (of_int e) * 2 ^ d" .
  have "x / 2 powr (of_int e) = of_int m * 2 ^ d" by (simp add: x_def pj)
  also have "\<dots> = of_int (m * 2 ^ d)" by simp
  finally have q: "x / 2 powr (of_int e) = of_int (m * 2 ^ d)" .
  have "round_to_precision p x = of_int (round_half_even (x / 2 powr (of_int e))) * 2 powr (of_int e)"
    using x0 by (simp add: round_to_precision_def e_def Let_def)
  also have "\<dots> = of_int (m * 2 ^ d) * 2 powr (of_int e)" by (simp only: q round_half_even_int)
  also have "\<dots> = x" by (simp add: x_def pj)
  finally show ?thesis by (simp add: x_def)
qed

lemma round_to_precision_int:
  assumes "\<bar>m\<bar> < 2 ^ p"
  shows "round_to_precision p (of_int m) = of_int m"
  using round_to_precision_exact[OF assms, of 0] by simp

section \<open>The group of a reduction index and the order of the accumulation\<close>

text \<open>
  C7. The group sizes of the code are 32, 64, 128 and 256 (the comment at
  \<^verbatim>\<open>BLOCK_K = qGroupSize\<close>), powers of two. For a group size that is a power of two:
  \<^verbatim>\<open>is_block_start (k, BLOCK_K)\<close> holds exactly when \<open>k mod BLOCK_K = 0\<close>; the loop over
  \<^verbatim>\<open>k\<close> of the vectorized kernels reloads the scale and zero registers exactly at these
  iterations, with the pairs of the group \<open>k div BLOCK_K\<close>, and not at the others; and
  in each of the three variants the pair applied at \<open>k\<close> to column \<open>n\<close> of the tile is
  the one stored for the group \<open>k div BLOCK_K\<close> and the column \<open>n\<close>.
\<close>

theorem group_boundary_refresh:
  assumes "BLOCK_K = 2 ^ j" and "BN = 16 \<or> BN = 32 \<or> BN = 48 \<or> BN = 64"
  shows "is_block_start (int k) (int BLOCK_K) = (k mod BLOCK_K = 0) \<and>
         k_loop load_scale_and_zeros compute ROWS COLS K BLOCK_K st =
           fold (\<lambda>k s. ForcedUnroll (ROWS * COLS) (\<lambda>i. compute i k)
                   (if k mod BLOCK_K = 0
                    then ForcedUnroll COLS (\<lambda>i. load_scale_and_zeros i (k div BLOCK_K)) s
                    else s))
             [0..<K] st \<and>
         tinygemm_kernel v fp BM BN A B S C_ptr lda ldb ldc K BLOCK_K C =
           C @ concat (map (\<lambda>m. map (\<lambda>n.
             (C_ptr + m * ldc + n,
              round_bf16 fp
                (fold (\<lambda>k c.
                   accumulate v fp (rd A (m * lda + k))
                     (dequant v fp (weight_nibble v BN B ldb k n)
                        (rd S ((k div BLOCK_K) * ldc * 2 + n * 2))
                        (rd S ((k div BLOCK_K) * ldc * 2 + n * 2 + 1)))
                     c)
                  [0..<K] 0)))
             [0..<BN]) [0..<BM])"
proof -
  have 1: "is_block_start (int k) (int BLOCK_K) = (k mod BLOCK_K = 0)"
    unfolding assms(1) by (rule is_block_start_pow2)
  have 2: "k_loop load_scale_and_zeros compute ROWS COLS K BLOCK_K st =
           fold (\<lambda>k s. ForcedUnroll (ROWS * COLS) (\<lambda>i. compute i k)
                   (if k mod BLOCK_K = 0
                    then ForcedUnroll COLS (\<lambda>i. load_scale_and_zeros i (k div BLOCK_K)) s
                    else s))
             [0..<K] st"
    by (rule k_loop_reload[OF assms(1)])
  show ?thesis
    unfolding tinygemm_kernel_ref[OF assms] tinygemm_ref_def tile_element_def
    using 1 2 by (simp only: simp_thms)
qed

theorem group_boundary_refresh_witness:
  "(32::nat) = 2 ^ 5 \<and> is_block_start 32 32 \<and> \<not> is_block_start 40 32 \<and>
   tinygemm_kernel AVX512 exact 1 16 (\<lambda>k. if k = 40 then 1 else 0, 0) (\<lambda>_. 0x99, 0)
     (\<lambda>i. if odd i then 0 else if i < 32 then 1 else 3, 0) 0 64 8 16 64 32 [] =
   [(0, 3), (1, 3), (2, 3), (3, 3), (4, 3), (5, 3), (6, 3), (7, 3),
    (8, 3), (9, 3), (10, 3), (11, 3), (12, 3), (13, 3), (14, 3), (15, 3)]"
proof -
  have a: "(32::nat) = 2 ^ 5" by simp
  have b: "(16::nat) = 16 \<or> (16::nat) = 32 \<or> (16::nat) = 48 \<or> (16::nat) = 64" by simp
  note t = group_boundary_refresh[OF a b]
  have i1: "is_block_start 32 32" using t[of 32, THEN conjunct1] by simp
  have i2: "\<not> is_block_start 40 32" using t[of 40, THEN conjunct1] by simp
  note k = t[THEN conjunct2, THEN conjunct2, of AVX512 exact 1 "(\<lambda>k. if k = 40 then 1 else 0, 0)"
      "(\<lambda>_. 0x99, 0)" "(\<lambda>i. if odd i then 0 else if i < 32 then 1 else 3, 0)" 0 64 8 16 64 "[]"]
  have u16: "[0..<16] = [0, 1, 2, 3, 4, 5, 6, 7, 8, 9, 10, 11, 12, 13, 14, 15::nat]"
    by (simp add: upt_rec)
  have u1: "[0..<1] = [0::nat]" by (simp add: upt_rec)
  have lo: "(0x99 :: 8 word) AND 0x0F = 9" and hi: "drop_bit 4 (0x99 :: 8 word) = 9" by simp_all
  have f: "fold (\<lambda>k c. accumulate AVX512 exact (rd (\<lambda>k. if k = 40 then 1 else 0, 0) (0 * 64 + k))
               (dequant AVX512 exact (weight_nibble AVX512 16 (\<lambda>_. 0x99, 0) 8 k n)
                  (rd (\<lambda>i. if odd i then 0 else if i < 32 then 1 else 3, 0) ((k div 32) * 16 * 2 + n * 2))
                  (rd (\<lambda>i. if odd i then 0 else if i < 32 then 1 else 3, 0) ((k div 32) * 16 * 2 + n * 2 + 1)))
               c) [0..<64] 0 = 3" if "n < 16" for n
  proof -
    have s: "[0..<64] = [0..<40] @ 40 # [41..<64]" by (simp add: upt_rec)
    have w: "weight_nibble AVX512 16 (\<lambda>_. 0x99, 0) 8 k n = 9" for k
      by (simp add: weight_nibble_def rd_def lo hi)
    have z: "fold (\<lambda>k c. accumulate AVX512 exact (rd (\<lambda>k. if k = 40 then 1 else 0, 0) (0 * 64 + k)) (g k) c) xs c0 = c0"
      if "40 \<notin> set xs" for xs g c0
      using that by (induction xs arbitrary: c0) (auto simp: accumulate_def f32_fmadd_def exact_def rd_def)
    let ?F = "\<lambda>k c. accumulate AVX512 exact (rd (\<lambda>k. if k = 40 then 1 else 0, 0) (0 * 64 + k))
               (dequant AVX512 exact (weight_nibble AVX512 16 (\<lambda>_. 0x99, 0) 8 k n)
                  (rd (\<lambda>i. if odd i then 0 else if i < 32 then 1 else 3, 0) ((k div 32) * 16 * 2 + n * 2))
                  (rd (\<lambda>i. if odd i then 0 else if i < 32 then 1 else 3, 0) ((k div 32) * 16 * 2 + n * 2 + 1)))
               c"
    have p1: "fold ?F [0..<40] 0 = 0" by (rule z) simp
    have p3: "fold ?F [41..<64] c0 = c0" for c0 by (rule z) simp
    have p2: "?F 40 0 = 3"
      unfolding w by (simp add: accumulate_def dequant_def f32_fmadd_def exact_def rd_def lut_def)
    show ?thesis
      unfolding s fold_append comp_apply fold_Cons p1 p2 p3 by (rule refl)
  qed
  have "tinygemm_kernel AVX512 exact 1 16 (\<lambda>k. if k = 40 then 1 else 0, 0) (\<lambda>_. 0x99, 0)
     (\<lambda>i. if odd i then 0 else if i < 32 then 1 else 3, 0) 0 64 8 16 64 32 [] =
   [(0, 3), (1, 3), (2, 3), (3, 3), (4, 3), (5, 3), (6, 3), (7, 3),
    (8, 3), (9, 3), (10, 3), (11, 3), (12, 3), (13, 3), (14, 3), (15, 3)]"
  proof -
    have "concat (map (\<lambda>m. map (\<lambda>n. (0 + m * 16 + n,
            round_bf16 exact
              (fold (\<lambda>k c. accumulate AVX512 exact (rd (\<lambda>k. if k = 40 then 1 else 0, 0) (m * 64 + k))
               (dequant AVX512 exact (weight_nibble AVX512 16 (\<lambda>_. 0x99, 0) 8 k n)
                  (rd (\<lambda>i. if odd i then 0 else if i < 32 then 1 else 3, 0) ((k div 32) * 16 * 2 + n * 2))
                  (rd (\<lambda>i. if odd i then 0 else if i < 32 then 1 else 3, 0) ((k div 32) * 16 * 2 + n * 2 + 1)))
               c) [0..<64] 0))) [0..<16]) [0..<1]) =
          concat (map (\<lambda>m. map (\<lambda>n. (0 + m * 16 + n, 3)) [0..<16]) [0..<1])"
    proof (rule rows_cong)
      fix m n :: nat assume "m < 1" and n: "n < 16"
      then have m: "m = 0" by simp
      show "round_bf16 exact
              (fold (\<lambda>k c. accumulate AVX512 exact (rd (\<lambda>k. if k = 40 then 1 else 0, 0) (m * 64 + k))
               (dequant AVX512 exact (weight_nibble AVX512 16 (\<lambda>_. 0x99, 0) 8 k n)
                  (rd (\<lambda>i. if odd i then 0 else if i < 32 then 1 else 3, 0) ((k div 32) * 16 * 2 + n * 2))
                  (rd (\<lambda>i. if odd i then 0 else if i < 32 then 1 else 3, 0) ((k div 32) * 16 * 2 + n * 2 + 1)))
               c) [0..<64] 0) = 3"
        unfolding m f[OF n] by (simp add: exact_def)
    qed
    then show ?thesis unfolding k append_Nil by (simp add: u16 u1)
  qed
  with a i1 i2 show ?thesis by (simp only: simp_thms)
qed


text \<open>
  C8. Every element that \<^verbatim>\<open>tinygemm_kernel\<close> stores is the conversion to \<^verbatim>\<open>BFloat16\<close>,
  done once at the store, of a value accumulated in \<^verbatim>\<open>float\<close> operations over
  \<open>k = 0, ..., K - 1\<close> in this order, starting from 0; the accumulation and the
  dequantization do not use the conversion to \<^verbatim>\<open>BFloat16\<close>. For the vectorized kernels
  the tile width is one of 16, 32, 48, 64 and the group size a power of two.
\<close>

theorem accumulate_wide_narrow_once:
  assumes "v = Scalar \<or> BLOCK_K = 2 ^ j \<and> (BN = 16 \<or> BN = 32 \<or> BN = 48 \<or> BN = 64)"
  shows "tinygemm_kernel v fp BM BN A B S C_ptr lda ldb ldc K BLOCK_K C =
           C @ concat (map (\<lambda>m. map (\<lambda>n.
             (C_ptr + m * ldc + n,
              round_bf16 fp
                (fold (\<lambda>k c.
                   accumulate v fp (rd A (m * lda + k))
                     (dequant v fp (weight_nibble v BN B ldb k n)
                        (rd S ((k div BLOCK_K) * ldc * 2 + n * 2))
                        (rd S ((k div BLOCK_K) * ldc * 2 + n * 2 + 1)))
                     c)
                  [0..<K] 0)))
             [0..<BN]) [0..<BM]) \<and>
         accumulate v (fp\<lparr>round_bf16 := r\<rparr>) = accumulate v fp \<and>
         dequant v (fp\<lparr>round_bf16 := r\<rparr>) = dequant v fp"
proof -
  have 1: "accumulate v (fp\<lparr>round_bf16 := r\<rparr>) = accumulate v fp"
    by (intro ext) (simp add: accumulate_def f32_add_def f32_mul_def f32_fmadd_def split: isa.splits)
  have 2: "dequant v (fp\<lparr>round_bf16 := r\<rparr>) = dequant v fp"
    by (intro ext) (simp add: dequant_def f32_add_def f32_mul_def f32_fmadd_def split: isa.splits)
  have "tinygemm_kernel v fp BM BN A B S C_ptr lda ldb ldc K BLOCK_K C =
        tinygemm_ref v fp BM BN A B S C_ptr lda ldb ldc K BLOCK_K C"
  proof (cases "v = Scalar")
    case True
    show ?thesis unfolding True tinygemm_kernel_def isa.case by (rule tinygemm_scalar_ref)
  next
    case False
    then have "BLOCK_K = 2 ^ j" "BN = 16 \<or> BN = 32 \<or> BN = 48 \<or> BN = 64"
      using assms by simp_all
    then show ?thesis by (rule tinygemm_kernel_ref)
  qed
  then show ?thesis
    unfolding tinygemm_ref_def tile_element_def
    using 1 2 by (simp only: simp_thms)
qed

theorem accumulate_wide_narrow_once_witness:
  "(32::nat) = 2 ^ 5 \<and>
   tinygemm_kernel AVX512 exact 1 16 (\<lambda>k. real (k + 1), 0) (\<lambda>_. 0x53, 0)
     (\<lambda>i. if even i then 2 else 1, 0) 0 2 8 16 2 32 [] =
   [(0, -27), (1, -15), (2, -27), (3, -15), (4, -27), (5, -15), (6, -27), (7, -15),
    (8, -27), (9, -15), (10, -27), (11, -15), (12, -27), (13, -15), (14, -27), (15, -15)]"
proof -
  have a: "(32::nat) = 2 ^ 5" by simp
  have b: "AVX512 = Scalar \<or>
           (32::nat) = 2 ^ 5 \<and> ((16::nat) = 16 \<or> (16::nat) = 32 \<or> (16::nat) = 48 \<or> (16::nat) = 64)"
    by simp
  note t = accumulate_wide_narrow_once[OF b, of exact 1 "(\<lambda>k. real (k + 1), 0)"
      "(\<lambda>_. 0x53, 0)" "(\<lambda>i. if even i then 2 else 1, 0)" 0 2 8 16 2 "[]", THEN conjunct1]
  have u16: "[0..<16] = [0, 1, 2, 3, 4, 5, 6, 7, 8, 9, 10, 11, 12, 13, 14, 15::nat]"
    by (simp add: upt_rec)
  have u2: "[0..<2] = [0, 1::nat]" "[0..<1] = [0::nat]" by (simp_all add: upt_rec)
  have lo: "(0x53 :: 8 word) AND 0x0F = 3" and hi: "drop_bit 4 (0x53 :: 8 word) = 5" by simp_all
  have "tinygemm_kernel AVX512 exact 1 16 (\<lambda>k. real (k + 1), 0) (\<lambda>_. 0x53, 0)
     (\<lambda>i. if even i then 2 else 1, 0) 0 2 8 16 2 32 [] =
   [(0, -27), (1, -15), (2, -27), (3, -15), (4, -27), (5, -15), (6, -27), (7, -15),
    (8, -27), (9, -15), (10, -27), (11, -15), (12, -27), (13, -15), (14, -27), (15, -15)]"
    unfolding t u16 u2
    by (simp add: accumulate_def dequant_def weight_nibble_def rd_def f32_fmadd_def exact_def lut_def
          lo hi)
  with a show ?thesis by (simp only: simp_thms)
qed

section \<open>The stores of a tile and of the whole product\<close>

lemma kernel_rows:
  assumes BN: "BN = 16 \<or> BN = 32 \<or> BN = 48 \<or> BN = 64"
  shows "tinygemm_kernel v fp BM BN A B S C_ptr lda ldb ldc K BK C =
         C @ concat (map (\<lambda>m. map (\<lambda>n.
           (C_ptr + m * ldc + n, stored_value v fp BM BN A B S lda ldb ldc K BK m n))
           [0..<BN]) [0..<BM])"
proof (cases v)
  case AVX512
  define Cn where "Cn = BN div 16"
  have Cn: "0 < Cn" and BN': "16 * Cn = BN" using BN by (auto simp: Cn_def)
  show ?thesis
    unfolding AVX512 tinygemm_kernel_def stored_value_def isa.case tinygemm_kernel_avx512_def Let_def
      Cn_def[symmetric] store_sweep_512[OF Cn] BN'
    by (rule refl)
next
  case AVX2
  define H where "H = BN div 16"
  have Cn: "BN div 8 = 2 * H" and BN': "8 * (2 * H) = BN" using BN by (auto simp: H_def)
  show ?thesis
    unfolding AVX2 tinygemm_kernel_def stored_value_def isa.case tinygemm_kernel_avx2_def Let_def
      Cn store_sweep_256 BN'
    by (rule refl)
next
  case Scalar
  show ?thesis
    unfolding Scalar tinygemm_kernel_def stored_value_def isa.case tinygemm_kernel_scalar_def
    by (rule fold_append_concat) (rule fold_store)
qed

lemma stored_value_ref:
  assumes BK: "BK = 2 ^ j" and BN: "BN = 16 \<or> BN = 32 \<or> BN = 48 \<or> BN = 64"
    and m: "m < BM" and n: "n < BN"
  shows "stored_value v fp BM BN A B S lda ldb ldc K BK m n =
         round_bf16 fp (tile_element v fp BN A B S lda ldb ldc K BK m n)"
proof (cases v)
  case AVX512
  define Cn where "Cn = BN div 16"
  have Cn: "Cn \<le> 4" and BN': "BN = 16 * Cn" using BN by (auto simp: Cn_def)
  have c: "n div 16 < Cn" using n BN' by (simp add: less_mult_imp_div_less mult.commute)
  have l: "n mod 16 < 16" by simp
  have e: "16 * (n div 16) + n mod 16 = n" by simp
  show ?thesis
    unfolding AVX512 stored_value_def isa.case Cn_def[symmetric]
    by (simp only: vc_512[OF BK Cn m c l] e BN')
next
  case AVX2
  define Cn where "Cn = BN div 8"
  have BN': "BN = 8 * Cn" using BN by (auto simp: Cn_def)
  have c: "n div 8 < Cn" using n BN' by (simp add: less_mult_imp_div_less mult.commute)
  have l: "n mod 8 < 8" by simp
  have e: "8 * (n div 8) + n mod 8 = n" by simp
  show ?thesis
    unfolding AVX2 stored_value_def isa.case Cn_def[symmetric]
    by (simp only: vc_256[OF BK m c l] e BN')
next
  case Scalar
  show ?thesis
    unfolding Scalar stored_value_def isa.case by (simp only: c_val_loop_ref[where BN = BN])
qed

lemma ceil_mult_ge:
  fixes N BN :: nat
  assumes "0 < BN"
  shows "N \<le> (N + BN - 1) div BN * BN"
proof -
  define q where "q = (N + BN - 1) div BN"
  define r where "r = (N + BN - 1) mod BN"
  have e: "N + BN - 1 = q * BN + r" by (simp add: q_def r_def)
  have r: "r < BN" using assms by (simp add: r_def)
  have "N \<le> q * BN" using e r by linarith
  then show ?thesis by (simp only: q_def)
qed

lemma block_coords:
  fixes N BN :: nat
  assumes "0 < BN" and "nb < (N + BN - 1) div BN" and "n < min BN (N - nb * BN)"
  shows "nb * BN + n < N" and "(nb * BN + n) div BN = nb" and "(nb * BN + n) mod BN = n"
proof -
  have n: "n < BN" "n < N - nb * BN" using assms(3) by simp_all
  show "nb * BN + n < N" using n(2) by linarith
  show "(nb * BN + n) div BN = nb" "(nb * BN + n) mod BN = n" using n(1) by simp_all
qed

lemma block_coords_conv:
  fixes N BN :: nat
  assumes BN: "0 < BN" and c: "c < N"
  shows "c div BN < (N + BN - 1) div BN" and "c mod BN < min BN (N - c div BN * BN)"
proof -
  have 1: "c div BN * BN + c mod BN = c" by simp
  have "c div BN * BN \<le> c" by simp
  also have "c < (N + BN - 1) div BN * BN" using c ceil_mult_ge[OF BN, of N] by simp
  finally show "c div BN < (N + BN - 1) div BN" by simp
  have "c mod BN < N - c div BN * BN" using 1 c by linarith
  then show "c mod BN < min BN (N - c div BN * BN)" using BN by simp
qed

lemma int_min_size:
  fixes N BN :: nat
  assumes "0 < BN" and "nb < (N + BN - 1) div BN"
  shows "min (int BN) (int N - int (nb * BN)) = int (min BN (N - nb * BN))"
proof -
  have "nb * BN < N" by (rule below_ceil[OF assms])
  then have e: "int N - int (nb * BN) = int (N - nb * BN)" by (simp add: of_nat_diff)
  show ?thesis by (simp only: e of_nat_min)
qed

lemma mm_tile_ok:
  assumes BN: "BN = 32 \<or> BN = 64" and N: "N mod 16 = 0"
    and mb: "mb < (M + BLOCK_M - 1) div BLOCK_M" and nb: "nb < (N + BN - 1) div BN"
  shows "mm_tile kern BN M N K BK A B S mb nb C =
         (None, kern (min BLOCK_M (M - mb * BLOCK_M)) (min BN (N - nb * BN))
                  (ptr_add A (mb * BLOCK_M * K)) (ptr_add B (nb * BN * K div 2))
                  (ptr_add S (nb * BN * 2)) (mb * BLOCK_M * N + nb * BN)
                  K (min BN (N - nb * BN) div 2) N K BK C)"
    and "min BN (N - nb * BN) = 16 \<or> min BN (N - nb * BN) = 32 \<or>
         min BN (N - nb * BN) = 48 \<or> min BN (N - nb * BN) = 64"
proof -
  define mbs where "mbs = min BLOCK_M (M - mb * BLOCK_M)"
  define nbs where "nbs = min BN (N - nb * BN)"
  have BN0: "0 < BN" using BN by auto
  have im: "min (int BLOCK_M) (int M - int (mb * BLOCK_M)) = int mbs"
    unfolding mbs_def by (rule int_min_size[OF _ mb]) (simp add: BLOCK_M_def)
  have inb: "min (int BN) (int N - int (nb * BN)) = int nbs"
    unfolding nbs_def by (rule int_min_size[OF BN0 nb])
  have "int mbs \<in> {1, 2, 3, 4}" using mb_size_range[OF mb] im by simp
  then have m: "mbs = 1 \<or> mbs = 2 \<or> mbs = 3 \<or> mbs = 4" by auto
  have "int nbs \<in> {16, 32, 48, 64}" using nb_size_supported[OF BN N nb] inb by simp
  then have n: "nbs = 16 \<or> nbs = 32 \<or> nbs = 48 \<or> nbs = 64" by auto
  show "min BN (N - nb * BN) = 16 \<or> min BN (N - nb * BN) = 32 \<or>
         min BN (N - nb * BN) = 48 \<or> min BN (N - nb * BN) = 64"
    using n by (simp only: nbs_def)
  have "mm_dispatch kern (int mbs) (int nbs) A' B' S' C' N K BK C =
        (None, kern mbs nbs A' B' S' C' K (nbs div 2) N K BK C)" for A' B' S' C'
    using m n
    by (auto simp: mm_dispatch_def LAUNCH_TINYGEMM_NB_SIZE_def LAUNCH_TINYGEMM_KERNEL_def)
  then show "mm_tile kern BN M N K BK A B S mb nb C =
         (None, kern (min BLOCK_M (M - mb * BLOCK_M)) (min BN (N - nb * BN))
                  (ptr_add A (mb * BLOCK_M * K)) (ptr_add B (nb * BN * K div 2))
                  (ptr_add S (nb * BN * 2)) (mb * BLOCK_M * N + nb * BN)
                  K (min BN (N - nb * BN) div 2) N K BK C)"
    unfolding mm_tile_def Let_def im inb by (simp only: mbs_def nbs_def)
qed

lemma rows_cong2:
  assumes "\<And>m n. m < R \<Longrightarrow> n < W \<Longrightarrow> f m n = g m n"
  shows "concat (map (\<lambda>m. map (\<lambda>n. f m n) [0..<W]) [0..<R]) =
         concat (map (\<lambda>m. map (\<lambda>n. g m n) [0..<W]) [0..<R])"
proof -
  have "map (\<lambda>m. map (\<lambda>n. f m n) [0..<W]) [0..<R] = map (\<lambda>m. map (\<lambda>n. g m n) [0..<W]) [0..<R]"
  proof (rule map_cong[OF refl])
    fix m assume "m \<in> set [0..<R]"
    then have m: "m < R" by simp
    show "map (\<lambda>n. f m n) [0..<W] = map (\<lambda>n. g m n) [0..<W]"
    proof (rule map_cong[OF refl])
      fix n assume "n \<in> set [0..<W]"
      then have "n < W" by simp
      then show "f m n = g m n" by (rule assms[OF m])
    qed
  qed
  then show ?thesis by (simp only:)
qed

lemma tile_trace:
  assumes N: "N mod 16 = 0"
    and mb: "mb < (M + BLOCK_M - 1) div BLOCK_M"
    and nb: "nb < (N + BLOCK_N v - 1) div BLOCK_N v"
  shows "mm_tile (tinygemm_kernel v fp) (BLOCK_N v) M N K gs A B S mb nb C =
         (None, C @ tile_stores v fp A M B gs S N K mb nb)"
proof -
  let ?BN = "BLOCK_N v"
  let ?mbs = "min BLOCK_M (M - mb * BLOCK_M)" and ?nbs = "min ?BN (N - nb * ?BN)"
  have BN0: "0 < ?BN" by (rule BLOCK_N_pos)
  have BM0: "0 < BLOCK_M" by (simp add: BLOCK_M_def)
  note ok = mm_tile_ok[OF BLOCK_N_32_64 N mb nb]
  have "concat (map (\<lambda>m. map (\<lambda>n.
           (mb * BLOCK_M * N + nb * ?BN + m * N + n,
            stored_value v fp ?mbs ?nbs (ptr_add A (mb * BLOCK_M * K)) (ptr_add B (nb * ?BN * K div 2))
              (ptr_add S (nb * ?BN * 2)) K (?nbs div 2) N K gs m n))
           [0..<?nbs]) [0..<?mbs]) = tile_stores v fp A M B gs S N K mb nb"
    unfolding tile_stores_def
  proof (rule rows_cong2)
    fix m n assume m: "m < ?mbs" and n: "n < ?nbs"
    have r: "(mb * BLOCK_M + m) div BLOCK_M = mb" "(mb * BLOCK_M + m) mod BLOCK_M = m"
      using block_coords(2,3)[OF BM0 mb m] by simp_all
    have c: "(nb * ?BN + n) div ?BN = nb" "(nb * ?BN + n) mod ?BN = n"
      using block_coords(2,3)[OF BN0 nb n] by simp_all
    have i: "mb * BLOCK_M * N + nb * ?BN + m * N + n = (mb * BLOCK_M + m) * N + (nb * ?BN + n)"
      by (simp add: algebra_simps)
    show "(mb * BLOCK_M * N + nb * ?BN + m * N + n,
            stored_value v fp ?mbs ?nbs (ptr_add A (mb * BLOCK_M * K)) (ptr_add B (nb * ?BN * K div 2))
              (ptr_add S (nb * ?BN * 2)) K (?nbs div 2) N K gs m n) =
          ((mb * BLOCK_M + m) * N + (nb * ?BN + n),
           output_element v fp A M B gs S N K (mb * BLOCK_M + m) (nb * ?BN + n))"
      unfolding output_element_def Let_def r c i by (rule refl)
  qed
  then show ?thesis
    unfolding ok(1) kernel_rows[OF ok(2)] by (simp only:)
qed

lemma run_tiles_ok:
  assumes "\<And>mb nb C. (mb, nb) \<in> set ts \<Longrightarrow> tile mb nb C = (None, C @ w mb nb)"
  shows "run_tiles tile ts C = (None, C @ concat (map (\<lambda>(mb, nb). w mb nb) ts))"
  using assms
proof (induction ts arbitrary: C)
  case Nil
  show ?case by simp
next
  case (Cons t ts)
  obtain mb nb where t: "t = (mb, nb)" by (cases t)
  have 1: "tile mb nb C = (None, C @ w mb nb)" using Cons.prems[of mb nb C] t by simp
  have 2: "run_tiles tile ts (C @ w mb nb) =
           (None, (C @ w mb nb) @ concat (map (\<lambda>(mb, nb). w mb nb) ts))"
    by (rule Cons.IH) (use Cons.prems in auto)
  show ?case by (simp add: t 1 2)
qed

lemma flat_tile:
  fixes i MB NB :: nat
  assumes "i < MB * NB"
  shows "i div NB < MB" and "i mod NB < NB"
proof -
  have NB: "0 < NB" using assms by (cases "NB = 0") auto
  show "i div NB < MB" using assms NB by (simp add: less_mult_imp_div_less)
  show "i mod NB < NB" using NB by simp
qed

lemma sched_trace:
  assumes N: "N mod 16 = 0"
  shows "int4pack_mm_kernel v fp C A M B gs S N K =
         (None, C @ concat (map (\<lambda>i. tile_stores v fp A M B gs S N K
                                    (i div ((N + BLOCK_N v - 1) div BLOCK_N v))
                                    (i mod ((N + BLOCK_N v - 1) div BLOCK_N v)))
                    [0..<(M + BLOCK_M - 1) div BLOCK_M * ((N + BLOCK_N v - 1) div BLOCK_N v)]))"
proof -
  let ?NB = "(N + BLOCK_N v - 1) div BLOCK_N v" and ?MB = "(M + BLOCK_M - 1) div BLOCK_M"
  have "run_tiles (mm_tile (tinygemm_kernel v fp) (BLOCK_N v) M N K gs A B S)
          (map (\<lambda>j. (j div ?NB, j mod ?NB)) [0..<?MB * ?NB]) C =
        (None, C @ concat (map (\<lambda>(mb, nb). tile_stores v fp A M B gs S N K mb nb)
                             (map (\<lambda>j. (j div ?NB, j mod ?NB)) [0..<?MB * ?NB])))"
  proof (rule run_tiles_ok)
    fix mb nb C'
    assume "(mb, nb) \<in> set (map (\<lambda>j. (j div ?NB, j mod ?NB)) [0..<?MB * ?NB])"
    then obtain j where j: "j < ?MB * ?NB" "mb = j div ?NB" "nb = j mod ?NB" by auto
    show "mm_tile (tinygemm_kernel v fp) (BLOCK_N v) M N K gs A B S mb nb C' =
          (None, C' @ tile_stores v fp A M B gs S N K mb nb)"
      unfolding j(2,3) by (rule tile_trace[OF N flat_tile[OF j(1)]])
  qed
  then show ?thesis
    unfolding int4pack_mm_kernel_def sched_run by (simp add: comp_def)
qed

lemma rowmajor:
  fixes r c N :: nat
  assumes "c < N"
  shows "(r * N + c) div N = r" and "(r * N + c) mod N = c"
  using assms by simp_all

lemma mem_rows:
  assumes "m < R" and "n < W"
  shows "f m n \<in> set (concat (map (\<lambda>m. map (\<lambda>n. f m n) [0..<W]) [0..<R]))"
proof -
  have "f m n \<in> set (map (\<lambda>n. f m n) [0..<W])" using assms(2) by simp
  moreover have "map (\<lambda>n. f m n) [0..<W] \<in> set (map (\<lambda>m. map (\<lambda>n. f m n) [0..<W]) [0..<R])"
    using assms(1) by (auto intro!: image_eqI[where x = m])
  ultimately show ?thesis unfolding set_concat by blast
qed

lemma mem_concat_upt:
  assumes "i < n" and "p \<in> set (f i)"
  shows "p \<in> set (concat (map f [0..<n]))"
proof -
  have "f i \<in> set (map f [0..<n])" using assms(1) by (auto intro!: image_eqI[where x = i])
  then show ?thesis unfolding set_concat using assms(2) by blast
qed

lemma tile_stores_mem:
  assumes mb: "mb < (M + BLOCK_M - 1) div BLOCK_M"
    and nb: "nb < (N + BLOCK_N v - 1) div BLOCK_N v"
  shows "p \<in> set (tile_stores v fp A M B gs S N K mb nb) \<longleftrightarrow>
         (\<exists>r c. r < M \<and> c < N \<and> r div BLOCK_M = mb \<and> c div BLOCK_N v = nb \<and>
                p = (r * N + c, output_element v fp A M B gs S N K r c))"
proof
  let ?BN = "BLOCK_N v"
  have BN0: "0 < ?BN" by (rule BLOCK_N_pos)
  have BM0: "0 < BLOCK_M" by (simp add: BLOCK_M_def)
  assume "p \<in> set (tile_stores v fp A M B gs S N K mb nb)"
  then obtain m n where m: "m < min BLOCK_M (M - mb * BLOCK_M)"
    and n: "n < min ?BN (N - nb * ?BN)"
    and p: "p = ((mb * BLOCK_M + m) * N + (nb * ?BN + n),
                 output_element v fp A M B gs S N K (mb * BLOCK_M + m) (nb * ?BN + n))"
    unfolding tile_stores_def by auto
  note r = block_coords[OF BM0 mb m] and c = block_coords[OF BN0 nb n]
  show "\<exists>r c. r < M \<and> c < N \<and> r div BLOCK_M = mb \<and> c div ?BN = nb \<and>
                p = (r * N + c, output_element v fp A M B gs S N K r c)"
    using r(1,2) c(1,2) p by blast
next
  let ?BN = "BLOCK_N v"
  have BN0: "0 < ?BN" by (rule BLOCK_N_pos)
  have BM0: "0 < BLOCK_M" by (simp add: BLOCK_M_def)
  assume "\<exists>r c. r < M \<and> c < N \<and> r div BLOCK_M = mb \<and> c div ?BN = nb \<and>
                p = (r * N + c, output_element v fp A M B gs S N K r c)"
  then obtain r c where r: "r < M" and c: "c < N" and rm: "r div BLOCK_M = mb"
    and cn: "c div ?BN = nb" and p: "p = (r * N + c, output_element v fp A M B gs S N K r c)"
    by blast
  have m: "r mod BLOCK_M < min BLOCK_M (M - mb * BLOCK_M)"
    using block_coords_conv(2)[OF BM0 r] rm by simp
  have n: "c mod ?BN < min ?BN (N - nb * ?BN)"
    using block_coords_conv(2)[OF BN0 c] cn by simp
  have er: "mb * BLOCK_M + r mod BLOCK_M = r" using rm by auto
  have ec: "nb * ?BN + c mod ?BN = c" using cn by auto
  have "((mb * BLOCK_M + r mod BLOCK_M) * N + (nb * ?BN + c mod ?BN),
         output_element v fp A M B gs S N K (mb * BLOCK_M + r mod BLOCK_M) (nb * ?BN + c mod ?BN))
        \<in> set (tile_stores v fp A M B gs S N K mb nb)"
    unfolding tile_stores_def by (rule mem_rows[OF m n])
  then show "p \<in> set (tile_stores v fp A M B gs S N K mb nb)"
    unfolding er ec p .
qed

lemma trace_mem:
  "p \<in> set (concat (map (\<lambda>i. tile_stores v fp A M B gs S N K
                                    (i div ((N + BLOCK_N v - 1) div BLOCK_N v))
                                    (i mod ((N + BLOCK_N v - 1) div BLOCK_N v)))
                    [0..<(M + BLOCK_M - 1) div BLOCK_M * ((N + BLOCK_N v - 1) div BLOCK_N v)])) \<longleftrightarrow>
   (\<exists>r c. r < M \<and> c < N \<and> p = (r * N + c, output_element v fp A M B gs S N K r c))"
proof
  let ?NB = "(N + BLOCK_N v - 1) div BLOCK_N v" and ?MB = "(M + BLOCK_M - 1) div BLOCK_M"
  assume "p \<in> set (concat (map (\<lambda>i. tile_stores v fp A M B gs S N K (i div ?NB) (i mod ?NB))
                    [0..<?MB * ?NB]))"
  then obtain i where i: "i < ?MB * ?NB"
    and p: "p \<in> set (tile_stores v fp A M B gs S N K (i div ?NB) (i mod ?NB))" by auto
  show "\<exists>r c. r < M \<and> c < N \<and> p = (r * N + c, output_element v fp A M B gs S N K r c)"
    using p unfolding tile_stores_mem[OF flat_tile[OF i]] by blast
next
  let ?NB = "(N + BLOCK_N v - 1) div BLOCK_N v" and ?MB = "(M + BLOCK_M - 1) div BLOCK_M"
  have BN0: "0 < BLOCK_N v" by (rule BLOCK_N_pos)
  have BM0: "0 < BLOCK_M" by (simp add: BLOCK_M_def)
  assume "\<exists>r c. r < M \<and> c < N \<and> p = (r * N + c, output_element v fp A M B gs S N K r c)"
  then obtain r c where r: "r < M" and c: "c < N"
    and p: "p = (r * N + c, output_element v fp A M B gs S N K r c)" by blast
  define mb where "mb = r div BLOCK_M"
  define nb where "nb = c div BLOCK_N v"
  have mb: "mb < ?MB" unfolding mb_def by (rule block_coords_conv(1)[OF BM0 r])
  have nb: "nb < ?NB" unfolding nb_def by (rule block_coords_conv(1)[OF BN0 c])
  have i: "mb * ?NB + nb < ?MB * ?NB"
  proof -
    have "mb * ?NB + nb < mb * ?NB + ?NB" using nb by simp
    also have "\<dots> = Suc mb * ?NB" by simp
    also have "\<dots> \<le> ?MB * ?NB" using mb by (intro mult_le_mono1) simp
    finally show ?thesis .
  qed
  have d: "(mb * ?NB + nb) div ?NB = mb" "(mb * ?NB + nb) mod ?NB = nb"
    using rowmajor[OF nb] by simp_all
  have "p \<in> set (tile_stores v fp A M B gs S N K mb nb)"
    unfolding tile_stores_mem[OF mb nb] using r c p mb_def nb_def by blast
  then have "p \<in> set (tile_stores v fp A M B gs S N K ((mb * ?NB + nb) div ?NB) ((mb * ?NB + nb) mod ?NB))"
    by (simp only: d)
  then show "p \<in> set (concat (map (\<lambda>i. tile_stores v fp A M B gs S N K (i div ?NB) (i mod ?NB))
                    [0..<?MB * ?NB]))"
    by (rule mem_concat_upt[OF i])
qed

lemma distinct_concat_key:
  assumes "\<And>i. i < n \<Longrightarrow> distinct (f i)"
    and "\<And>i x. i < n \<Longrightarrow> x \<in> set (f i) \<Longrightarrow> key x = i"
  shows "distinct (concat (map f [0..<n]))"
  using assms
proof (induction n)
  case 0
  show ?case by simp
next
  case (Suc n)
  have ih: "distinct (concat (map f [0..<n]))"
    by (rule Suc.IH) (use Suc.prems in auto)
  have d: "distinct (f n)" using Suc.prems(1) by simp
  have "set (concat (map f [0..<n])) \<inter> set (f n) = {}"
  proof (rule ccontr)
    assume "set (concat (map f [0..<n])) \<inter> set (f n) \<noteq> {}"
    then obtain x i where i: "i < n" and x: "x \<in> set (f i)" "x \<in> set (f n)" by auto
    have "key x = i" using Suc.prems(2)[of i x] i x by simp
    moreover have "key x = n" using Suc.prems(2)[of n x] x by simp
    ultimately show False using i by simp
  qed
  then show ?case using ih d by simp
qed

lemma tile_indices_distinct:
  assumes mb: "mb < (M + BLOCK_M - 1) div BLOCK_M"
    and nb: "nb < (N + BLOCK_N v - 1) div BLOCK_N v"
  shows "distinct (map fst (tile_stores v fp A M B gs S N K mb nb))"
proof -
  let ?BN = "BLOCK_N v"
  let ?nbs = "min ?BN (N - nb * ?BN)"
  have BN0: "0 < ?BN" by (rule BLOCK_N_pos)
  have e: "map fst (tile_stores v fp A M B gs S N K mb nb) =
        concat (map (\<lambda>m. map (\<lambda>n. (mb * BLOCK_M + m) * N + (nb * ?BN + n)) [0..<?nbs])
          [0..<min BLOCK_M (M - mb * BLOCK_M)])"
    unfolding tile_stores_def by (simp add: map_concat comp_def)
  show ?thesis
    unfolding e
  proof (rule distinct_concat_key[where key = "\<lambda>x. x div N - mb * BLOCK_M"])
    fix m
    show "distinct (map (\<lambda>n. (mb * BLOCK_M + m) * N + (nb * ?BN + n)) [0..<?nbs])"
      by (simp add: distinct_map inj_on_def)
  next
    fix m x
    assume "x \<in> set (map (\<lambda>n. (mb * BLOCK_M + m) * N + (nb * ?BN + n)) [0..<?nbs])"
    then obtain n where n: "n < ?nbs" and x: "x = (mb * BLOCK_M + m) * N + (nb * ?BN + n)" by auto
    have "nb * ?BN + n < N" by (rule block_coords(1)[OF BN0 nb n])
    then have "x div N = mb * BLOCK_M + m" unfolding x by (rule rowmajor(1))
    then show "x div N - mb * BLOCK_M = m" by simp
  qed
qed

lemma trace_indices_distinct:
  "distinct (map fst (concat (map (\<lambda>i. tile_stores v fp A M B gs S N K
                                    (i div ((N + BLOCK_N v - 1) div BLOCK_N v))
                                    (i mod ((N + BLOCK_N v - 1) div BLOCK_N v)))
                    [0..<(M + BLOCK_M - 1) div BLOCK_M * ((N + BLOCK_N v - 1) div BLOCK_N v)])))"
proof -
  let ?NB = "(N + BLOCK_N v - 1) div BLOCK_N v" and ?MB = "(M + BLOCK_M - 1) div BLOCK_M"
  have e: "map fst (concat (map (\<lambda>i. tile_stores v fp A M B gs S N K (i div ?NB) (i mod ?NB))
                    [0..<?MB * ?NB])) =
        concat (map (\<lambda>i. map fst (tile_stores v fp A M B gs S N K (i div ?NB) (i mod ?NB)))
                    [0..<?MB * ?NB])"
    by (simp add: map_concat comp_def)
  show ?thesis
    unfolding e
  proof (rule distinct_concat_key[where key = "\<lambda>x. x div N div BLOCK_M * ?NB + x mod N div BLOCK_N v"])
    fix i assume i: "i < ?MB * ?NB"
    show "distinct (map fst (tile_stores v fp A M B gs S N K (i div ?NB) (i mod ?NB)))"
      by (rule tile_indices_distinct[OF flat_tile[OF i]])
  next
    fix i x assume i: "i < ?MB * ?NB"
      and "x \<in> set (map fst (tile_stores v fp A M B gs S N K (i div ?NB) (i mod ?NB)))"
    then obtain p where p: "p \<in> set (tile_stores v fp A M B gs S N K (i div ?NB) (i mod ?NB))"
      and x: "x = fst p" by auto
    obtain r c where c: "c < N" and rm: "r div BLOCK_M = i div ?NB"
      and cn: "c div BLOCK_N v = i mod ?NB" and pe: "p = (r * N + c, output_element v fp A M B gs S N K r c)"
      using p unfolding tile_stores_mem[OF flat_tile[OF i]] by blast
    have x': "x = r * N + c" using x pe by simp
    have k: "x div N = r" "x mod N = c" unfolding x' using rowmajor[OF c] by simp_all
    show "x div N div BLOCK_M * ?NB + x mod N div BLOCK_N v = i"
      unfolding k rm cn by (rule div_mult_mod_eq)
  qed
qed

lemma rowmajor_cover:
  fixes M N :: nat
  shows "{x. \<exists>r c. r < M \<and> c < N \<and> x = r * N + c} = {0..<M * N}"
proof (intro set_eqI iffI)
  fix x assume "x \<in> {x. \<exists>r c. r < M \<and> c < N \<and> x = r * N + c}"
  then obtain r c where r: "r < M" and c: "c < N" and x: "x = r * N + c" by blast
  have "r * N + c < r * N + N" using c by simp
  also have "\<dots> = Suc r * N" by simp
  also have "\<dots> \<le> M * N" using r by (intro mult_le_mono1) simp
  finally show "x \<in> {0..<M * N}" using x by simp
next
  fix x assume "x \<in> {0..<M * N}"
  then have x: "x < M * N" by simp
  then have N: "0 < N" by (cases "N = 0") auto
  have "x div N < M" using x N by (simp add: less_mult_imp_div_less)
  moreover have "x mod N < N" using N by simp
  moreover have "x = x div N * N + x mod N" by simp
  ultimately show "x \<in> {x. \<exists>r c. r < M \<and> c < N \<and> x = r * N + c}" by blast
qed

lemma tile_key:
  assumes i: "i < (M + BLOCK_M - 1) div BLOCK_M * ((N + BLOCK_N v - 1) div BLOCK_N v)"
    and p: "p \<in> set (tile_stores v fp A M B gs S N K
                       (i div ((N + BLOCK_N v - 1) div BLOCK_N v))
                       (i mod ((N + BLOCK_N v - 1) div BLOCK_N v)))"
  shows "fst p div N div BLOCK_M * ((N + BLOCK_N v - 1) div BLOCK_N v) + fst p mod N div BLOCK_N v = i"
proof -
  let ?NB = "(N + BLOCK_N v - 1) div BLOCK_N v"
  obtain r c where c: "c < N" and rm: "r div BLOCK_M = i div ?NB"
    and cn: "c div BLOCK_N v = i mod ?NB" and pe: "p = (r * N + c, output_element v fp A M B gs S N K r c)"
    using p unfolding tile_stores_mem[OF flat_tile[OF i]] by blast
  have x': "fst p = r * N + c" using pe by simp
  have k: "fst p div N = r" "fst p mod N = c" unfolding x' using rowmajor[OF c] by simp_all
  show ?thesis unfolding k rm cn by (rule div_mult_mod_eq)
qed

lemma trace_index_set:
  "fst ` set (concat (map (\<lambda>i. tile_stores v fp A M B gs S N K
                                    (i div ((N + BLOCK_N v - 1) div BLOCK_N v))
                                    (i mod ((N + BLOCK_N v - 1) div BLOCK_N v)))
                    [0..<(M + BLOCK_M - 1) div BLOCK_M * ((N + BLOCK_N v - 1) div BLOCK_N v)])) =
   {0..<M * N}"
proof -
  let ?T = "concat (map (\<lambda>i. tile_stores v fp A M B gs S N K
                                    (i div ((N + BLOCK_N v - 1) div BLOCK_N v))
                                    (i mod ((N + BLOCK_N v - 1) div BLOCK_N v)))
                    [0..<(M + BLOCK_M - 1) div BLOCK_M * ((N + BLOCK_N v - 1) div BLOCK_N v)])"
  have "fst ` set ?T = {x. \<exists>r c. r < M \<and> c < N \<and> x = r * N + c}"
  proof (intro set_eqI iffI)
    fix x assume "x \<in> fst ` set ?T"
    then obtain p where p: "p \<in> set ?T" and x: "x = fst p" by blast
    from p obtain r c where "r < M" "c < N" "p = (r * N + c, output_element v fp A M B gs S N K r c)"
      unfolding trace_mem by blast
    then show "x \<in> {x. \<exists>r c. r < M \<and> c < N \<and> x = r * N + c}" using x by auto
  next
    fix x assume "x \<in> {x. \<exists>r c. r < M \<and> c < N \<and> x = r * N + c}"
    then obtain r c where rc: "r < M" "c < N" and x: "x = r * N + c" by blast
    have "(r * N + c, output_element v fp A M B gs S N K r c) \<in> set ?T"
      unfolding trace_mem using rc by blast
    then show "x \<in> fst ` set ?T" unfolding x by force
  qed
  then show ?thesis by (simp only: rowmajor_cover)
qed

text \<open>
  C9. When \<^verbatim>\<open>int4pack_mm_kernel\<close> runs to its end (\<open>N\<close> is a multiple of 16): the sets
  of elements of the output that two different tiles store into are disjoint; the
  elements stored into by the \<open>MB * NB\<close> tiles together are all the \<open>M * N\<close> elements of
  the output; and no element is stored into twice in the invocation.
\<close>

theorem disjoint_exact_cover:
  assumes N: "N mod 16 = 0"
    and MB: "MB = (M + BLOCK_M - 1) div BLOCK_M"
    and NB: "NB = (N + BLOCK_N v - 1) div BLOCK_N v"
  shows "(\<forall>i i'. i < MB * NB \<and> i' < MB * NB \<and> i \<noteq> i' \<longrightarrow>
            fst ` set (snd (mm_tile (tinygemm_kernel v fp) (BLOCK_N v) M N K gs A B S
                              (i div NB) (i mod NB) [])) \<inter>
            fst ` set (snd (mm_tile (tinygemm_kernel v fp) (BLOCK_N v) M N K gs A B S
                              (i' div NB) (i' mod NB) [])) = {}) \<and>
         (\<Union>i \<in> {0..<MB * NB}.
            fst ` set (snd (mm_tile (tinygemm_kernel v fp) (BLOCK_N v) M N K gs A B S
                              (i div NB) (i mod NB) []))) = {0..<M * N} \<and>
         fst (int4pack_mm_kernel v fp [] A M B gs S N K) = None \<and>
         distinct (map fst (snd (int4pack_mm_kernel v fp [] A M B gs S N K))) \<and>
         set (map fst (snd (int4pack_mm_kernel v fp [] A M B gs S N K))) = {0..<M * N}"
proof -
  let ?t = "\<lambda>i. tile_stores v fp A M B gs S N K (i div NB) (i mod NB)"
  have tile: "snd (mm_tile (tinygemm_kernel v fp) (BLOCK_N v) M N K gs A B S (i div NB) (i mod NB) []) = ?t i"
    if "i < MB * NB" for i
    using tile_trace[OF N flat_tile[OF that[unfolded MB NB]], of fp K gs A B S "[]"]
    by (simp add: NB)
  have key: "fst p div N div BLOCK_M * NB + fst p mod N div BLOCK_N v = i"
    if "i < MB * NB" and "p \<in> set (?t i)" for i p
    using tile_key[OF that(1)[unfolded MB NB] that(2)[unfolded NB]] by (simp only: NB)
  have 1: "\<forall>i i'. i < MB * NB \<and> i' < MB * NB \<and> i \<noteq> i' \<longrightarrow>
            fst ` set (snd (mm_tile (tinygemm_kernel v fp) (BLOCK_N v) M N K gs A B S
                              (i div NB) (i mod NB) [])) \<inter>
            fst ` set (snd (mm_tile (tinygemm_kernel v fp) (BLOCK_N v) M N K gs A B S
                              (i' div NB) (i' mod NB) [])) = {}"
  proof (intro allI impI)
    fix i i' assume a: "i < MB * NB \<and> i' < MB * NB \<and> i \<noteq> i'"
    show "fst ` set (snd (mm_tile (tinygemm_kernel v fp) (BLOCK_N v) M N K gs A B S
                              (i div NB) (i mod NB) [])) \<inter>
            fst ` set (snd (mm_tile (tinygemm_kernel v fp) (BLOCK_N v) M N K gs A B S
                              (i' div NB) (i' mod NB) [])) = {}"
    proof (rule ccontr)
      assume "fst ` set (snd (mm_tile (tinygemm_kernel v fp) (BLOCK_N v) M N K gs A B S
                              (i div NB) (i mod NB) [])) \<inter>
            fst ` set (snd (mm_tile (tinygemm_kernel v fp) (BLOCK_N v) M N K gs A B S
                              (i' div NB) (i' mod NB) [])) \<noteq> {}"
      then obtain p q where p: "p \<in> set (?t i)" and q: "q \<in> set (?t i')" and e: "fst p = fst q"
        using a by (auto simp: tile)
      have "i = i'" using key[OF _ p] key[OF _ q] a e by simp
      then show False using a by simp
    qed
  qed
  have tr: "int4pack_mm_kernel v fp [] A M B gs S N K = (None, concat (map ?t [0..<MB * NB]))"
    using sched_trace[OF N, of v fp "[]" A M B gs S K] by (simp only: MB NB append_Nil)
  have s: "fst ` set (concat (map ?t [0..<MB * NB])) = {0..<M * N}"
    unfolding MB NB by (rule trace_index_set)
  have "(\<Union>i \<in> {0..<MB * NB}. fst ` set (?t i)) = fst ` set (concat (map ?t [0..<MB * NB]))"
    by auto
  then have u: "(\<Union>i \<in> {0..<MB * NB}. fst ` set (?t i)) = {0..<M * N}" by (simp only: s)
  have 2: "(\<Union>i \<in> {0..<MB * NB}.
            fst ` set (snd (mm_tile (tinygemm_kernel v fp) (BLOCK_N v) M N K gs A B S
                              (i div NB) (i mod NB) []))) = {0..<M * N}"
    using u tile by simp
  have 3: "fst (int4pack_mm_kernel v fp [] A M B gs S N K) = None" by (simp add: tr)
  have 4: "distinct (map fst (snd (int4pack_mm_kernel v fp [] A M B gs S N K)))"
    using trace_indices_distinct[of v fp A M B gs S N K] by (simp only: tr snd_conv MB NB)
  have 5: "set (map fst (snd (int4pack_mm_kernel v fp [] A M B gs S N K))) = {0..<M * N}"
    using s by (simp only: tr snd_conv set_map)
  from 1 2 3 4 5 show ?thesis by (simp only: simp_thms)
qed

theorem disjoint_exact_cover_witness:
  "(48::nat) mod 16 = 0 \<and> (2::nat) = (5 + BLOCK_M - 1) div BLOCK_M \<and>
   (2::nat) = (48 + BLOCK_N AVX2 - 1) div BLOCK_N AVX2 \<and>
   fst ` set (snd (mm_tile (tinygemm_kernel AVX2 ieee) (BLOCK_N AVX2) 5 48 64 32
                     (\<lambda>_. 1, 0) (\<lambda>_. 0x88, 0) (\<lambda>_. 1, 0) 0 1 [])) \<inter>
   fst ` set (snd (mm_tile (tinygemm_kernel AVX2 ieee) (BLOCK_N AVX2) 5 48 64 32
                     (\<lambda>_. 1, 0) (\<lambda>_. 0x88, 0) (\<lambda>_. 1, 0) 1 0 [])) = {} \<and>
   distinct (map fst (snd (int4pack_mm_kernel AVX2 ieee [] (\<lambda>_. 1, 0) 5 (\<lambda>_. 0x88, 0) 32
                             (\<lambda>_. 1, 0) 48 64))) \<and>
   set (map fst (snd (int4pack_mm_kernel AVX2 ieee [] (\<lambda>_. 1, 0) 5 (\<lambda>_. 0x88, 0) 32
                        (\<lambda>_. 1, 0) 48 64))) = {0..<5 * 48}"
proof -
  have a: "(48::nat) mod 16 = 0" by simp
  have b: "(2::nat) = (5 + BLOCK_M - 1) div BLOCK_M" by (simp add: BLOCK_M_def)
  have c: "(2::nat) = (48 + BLOCK_N AVX2 - 1) div BLOCK_N AVX2" by simp
  note t = disjoint_exact_cover[OF a b c, of ieee 64 32 "(\<lambda>_. 1, 0)" "(\<lambda>_. 0x88, 0)" "(\<lambda>_. 1, 0)"]
  have d: "fst ` set (snd (mm_tile (tinygemm_kernel AVX2 ieee) (BLOCK_N AVX2) 5 48 64 32
                     (\<lambda>_. 1, 0) (\<lambda>_. 0x88, 0) (\<lambda>_. 1, 0) 0 1 [])) \<inter>
   fst ` set (snd (mm_tile (tinygemm_kernel AVX2 ieee) (BLOCK_N AVX2) 5 48 64 32
                     (\<lambda>_. 1, 0) (\<lambda>_. 0x88, 0) (\<lambda>_. 1, 0) 1 0 [])) = {}"
    using t[THEN conjunct1, rule_format, of 1 2] by simp
  from a b c d t[THEN conjunct2, THEN conjunct2, THEN conjunct2]
  show ?thesis by (simp only: simp_thms)
qed

section \<open>The packed weights and the naive reference\<close>

lemma adjacent_block_byte:
  assumes N: "even N" and i: "i < (N + BLOCK_N v - 1) div BLOCK_N v" and k: "k < K"
    and t: "t < min (BLOCK_N v) (N - i * BLOCK_N v) div 2"
    and a: "v = Scalar \<or> min (BLOCK_N v) (N - i * BLOCK_N v) \<noteq> BLOCK_N v"
  shows "weight_to_int4pack_kernel v P0 w N K
           ((i * K * BLOCK_N v) div 2 + k * (min (BLOCK_N v) (N - i * BLOCK_N v) div 2) + t) =
         packed_byte (w ((i * BLOCK_N v + (2 * t + 1)) * K + k)) (w ((i * BLOCK_N v + 2 * t) * K + k))"
proof -
  have "weight_to_int4pack_kernel v P0 w N K
           ((i * K * BLOCK_N v) div 2 + k * (min (BLOCK_N v) (N - i * BLOCK_N v) div 2) + t) =
        packed_byte (w (i * BLOCK_N v * K + (2 * t + 1) * K + k)) (w (i * BLOCK_N v * K + 2 * t * K + k))"
    unfolding packed_at[OF N i k t, of P0 w P0]
    by (rule pack_row_adjacent[OF a even_nb_size[OF N] t])
  moreover have "i * BLOCK_N v * K + (2 * t + 1) * K + k = (i * BLOCK_N v + (2 * t + 1)) * K + k"
    "i * BLOCK_N v * K + 2 * t * K + k = (i * BLOCK_N v + 2 * t) * K + k"
    by (simp_all add: algebra_simps)
  ultimately show ?thesis by (simp only:)
qed

lemma rd_base [simp]: "rd (P, 0) i = P i"
  by (simp add: rd_def)

lemma packed_nibble:
  assumes N: "even N" and nb: "nb < (N + BLOCK_N v - 1) div BLOCK_N v" and k: "k < K"
    and n: "n < min (BLOCK_N v) (N - nb * BLOCK_N v)"
    and w16: "\<And>c. c < N \<Longrightarrow> w (c * K + k) < 16"
  shows "weight_nibble v (min (BLOCK_N v) (N - nb * BLOCK_N v))
           (ptr_add (weight_to_int4pack_kernel v P0 w N K, 0) (nb * BLOCK_N v * K div 2))
           (min (BLOCK_N v) (N - nb * BLOCK_N v) div 2) k n =
         ucast (w ((nb * BLOCK_N v + n) * K + k))"
proof -
  let ?BN = "BLOCK_N v"
  define nbs where "nbs = min ?BN (N - nb * ?BN)"
  define H where "H = ?BN div 2"
  have BN: "?BN = 2 * H" using BLOCK_N_32_64[of v] by (auto simp: H_def)
  have BN0: "0 < ?BN" by (rule BLOCK_N_pos)
  have n': "n < nbs" using n by (simp add: nbs_def)
  have lim: "nb * ?BN + nbs \<le> N"
  proof -
    have "nb * ?BN < N" by (rule below_ceil[OF BN0 nb])
    then show ?thesis by (simp add: nbs_def)
  qed
  have ev: "even nbs" unfolding nbs_def by (rule even_nb_size[OF N])
  have base: "nb * ?BN * K div 2 = (nb * K * ?BN) div 2" by (simp add: mult.commute mult.left_commute)
  show ?thesis
  proof (cases "v \<noteq> Scalar \<and> nbs = ?BN")
    case True
    then have v: "v \<noteq> Scalar" and full: "nbs = ?BN" by simp_all
    have fl: "(nb + 1) * ?BN \<le> N" using lim full by simp
    define t where "t = n mod H"
    have H0: "0 < H" using BN BN0 by simp
    have t: "t < ?BN div 2" using H0 by (simp add: t_def H_def)
    have idx: "nb * ?BN * K div 2 + (k * (?BN div 2) + t) = nb * K * (?BN div 2) + k * (?BN div 2) + t"
      unfolding BN by (simp add: algebra_simps)
    have c0: "nb * ?BN + t < N" using fl t BN by simp
    have c1: "nb * ?BN + t + ?BN div 2 < N" using fl t BN by simp
    note nib = packed_byte_nibbles[OF w16[OF c0] w16[OF c1]]
    have byte: "rd (ptr_add (weight_to_int4pack_kernel v P0 w N K, 0) (nb * ?BN * K div 2))
                  (k * (?BN div 2) + n mod (?BN div 2)) =
          packed_byte (w ((nb * ?BN + t + ?BN div 2) * K + k)) (w ((nb * ?BN + t) * K + k))"
      unfolding rd_ptr_add rd_base H_def[symmetric] t_def[symmetric]
      using full_block_byte[OF v N fl k t, of P0 w] idx by (simp only: H_def)
    show ?thesis
    proof (cases "n < H")
      case True
      then have tn: "t = n" by (simp add: t_def)
      show ?thesis
        unfolding weight_nibble_def nbs_def[symmetric] full Let_def byte
        using v True nib(1) by (simp add: H_def tn)
    next
      case False
      then have "n mod H = n - H" using n' full BN by (simp add: mod_if)
      then have tn: "t + H = n" using False by (simp add: t_def)
      have e: "nb * ?BN + t + ?BN div 2 = nb * ?BN + n" using tn by (simp add: H_def)
      have "drop_bit 4 (packed_byte (w ((nb * ?BN + t + ?BN div 2) * K + k)) (w ((nb * ?BN + t) * K + k))) =
            ucast (w ((nb * ?BN + n) * K + k))"
        using nib(2) by (simp only: e)
      then show ?thesis
        unfolding weight_nibble_def nbs_def[symmetric] full Let_def byte
        using v False by (simp add: H_def)
    qed
  next
    case False
    then have a: "v = Scalar \<or> min ?BN (N - nb * ?BN) \<noteq> ?BN" by (auto simp: nbs_def)
    define t where "t = n div 2"
    have t: "t < min ?BN (N - nb * ?BN) div 2"
      using n' ev unfolding nbs_def[symmetric] t_def by (auto elim!: evenE)
    have t2: "2 * t + 1 < nbs"
      using t ev unfolding nbs_def[symmetric] by (auto elim!: evenE)
    have c0: "nb * ?BN + 2 * t < N" and c1: "nb * ?BN + (2 * t + 1) < N" using t2 lim by simp_all
    note nib = packed_byte_nibbles[OF w16[OF c0] w16[OF c1]]
    have byte: "rd (ptr_add (weight_to_int4pack_kernel v P0 w N K, 0) (nb * ?BN * K div 2))
                  (k * (nbs div 2) + n div 2) =
          packed_byte (w ((nb * ?BN + (2 * t + 1)) * K + k)) (w ((nb * ?BN + 2 * t) * K + k))"
      unfolding rd_ptr_add rd_base base t_def[symmetric] nbs_def
      using adjacent_block_byte[OF N nb k t a, of P0 w] by (simp only: add.assoc)
    have cnd: "(v \<noteq> Scalar \<and> nbs = ?BN) = False" using False by simp
    have wn: "weight_nibble v nbs (ptr_add (weight_to_int4pack_kernel v P0 w N K, 0) (nb * ?BN * K div 2))
                (nbs div 2) k n =
          (if even n
           then packed_byte (w ((nb * ?BN + (2 * t + 1)) * K + k)) (w ((nb * ?BN + 2 * t) * K + k)) AND 0x0F
           else drop_bit 4 (packed_byte (w ((nb * ?BN + (2 * t + 1)) * K + k)) (w ((nb * ?BN + 2 * t) * K + k))))"
      unfolding weight_nibble_def cnd if_False Let_def byte by (rule refl)
    show ?thesis
    proof (cases "even n")
      case True
      then have tn: "2 * t = n" by (auto simp: t_def)
      show ?thesis
        unfolding nbs_def[symmetric] wn using True nib(1) by (simp only: if_True tn)
    next
      case False
      then have tn: "2 * t + 1 = n" by (auto simp: t_def elim!: oddE)
      show ?thesis
        unfolding nbs_def[symmetric] wn using False nib(2) by (simp only: if_False tn)
    qed
  qed
qed

lemma lut_nth: "q < 16 \<Longrightarrow> lut ! q = real q - 8"
  using lt16_cases[of q] by (auto simp: lut_def)

lemma weight_nibble_lt16: "unat (weight_nibble v BN B ldb k n) < 16"
  unfolding weight_nibble_def Let_def by (simp add: nibble_lt16)

lemma fold_add_sum: "fold (\<lambda>k c. f k + c) xs a = sum_list (map f xs) + (a::real)"
  by (induction xs arbitrary: a) (simp_all add: algebra_simps)

lemma tile_element_exact:
  "tile_element v exact BN A B S lda ldb ldc K BK m n =
   (\<Sum>k\<leftarrow>[0..<K]. rd A (m * lda + k) *
      ((real (unat (weight_nibble v BN B ldb k n)) - 8) * rd S ((k div BK) * ldc * 2 + n * 2) +
       rd S ((k div BK) * ldc * 2 + n * 2 + 1)))"
proof -
  let ?f = "\<lambda>k. rd A (m * lda + k) *
      ((real (unat (weight_nibble v BN B ldb k n)) - 8) * rd S ((k div BK) * ldc * 2 + n * 2) +
       rd S ((k div BK) * ldc * 2 + n * 2 + 1))"
  have "(\<lambda>k c. accumulate v exact (rd A (m * lda + k))
          (dequant v exact (weight_nibble v BN B ldb k n)
             (rd S ((k div BK) * ldc * 2 + n * 2))
             (rd S ((k div BK) * ldc * 2 + n * 2 + 1))) c) = (\<lambda>k c. ?f k + c)"
  proof (intro ext)
    fix k c
    have g: "accumulate v exact a (dequant v exact q s z) c = a * ((real (unat q) - 8) * s + z) + c"
      if "lut ! unat q = real (unat q) - 8" for a q s z
      by (cases v)
         (simp_all add: accumulate_def dequant_def f32_add_def f32_mul_def f32_fmadd_def exact_def that
            algebra_simps)
    show "accumulate v exact (rd A (m * lda + k))
          (dequant v exact (weight_nibble v BN B ldb k n)
             (rd S ((k div BK) * ldc * 2 + n * 2))
             (rd S ((k div BK) * ldc * 2 + n * 2 + 1))) c = ?f k + c"
      by (rule g) (rule lut_nth[OF weight_nibble_lt16])
  qed
  then show ?thesis
    unfolding tile_element_def by (simp only: fold_add_sum add_0_right)
qed

lemma unat_ucast_nibble:
  fixes w :: "32 word"
  assumes "w < 16"
  shows "unat (ucast w :: 8 word) = unat w"
proof -
  have "unat w < 16" using assms by (simp add: word_less_nat_alt)
  then show ?thesis by (simp add: unsigned_ucast_eq take_bit_nat_eq_self)
qed

lemma output_element_reference:
  assumes N: "N mod 16 = 0" and gs: "gs = 2 ^ j"
    and w16: "\<And>n k. n < N \<Longrightarrow> k < K \<Longrightarrow> w (n * K + k) < 16"
    and r: "r < M" and c: "c < N"
  shows "output_element v exact (A, 0) M (weight_to_int4pack_kernel v P0 w N K, 0) gs (S, 0) N K r c =
         reference_mm A (\<lambda>k n. real (unat (w (n * K + k))) - 8) S gs N K r c"
proof -
  let ?BN = "BLOCK_N v"
  define mb where "mb = r div BLOCK_M"
  define nb where "nb = c div ?BN"
  define m where "m = r mod BLOCK_M"
  define n where "n = c mod ?BN"
  define nbs where "nbs = min ?BN (N - nb * ?BN)"
  define mbs where "mbs = min BLOCK_M (M - mb * BLOCK_M)"
  have BN0: "0 < ?BN" by (rule BLOCK_N_pos)
  have BM0: "0 < BLOCK_M" by (simp add: BLOCK_M_def)
  have evN: "even N" using N by presburger
  have mb: "mb < (M + BLOCK_M - 1) div BLOCK_M" unfolding mb_def by (rule block_coords_conv(1)[OF BM0 r])
  have nb: "nb < (N + ?BN - 1) div ?BN" unfolding nb_def by (rule block_coords_conv(1)[OF BN0 c])
  have m: "m < mbs" unfolding m_def mbs_def mb_def by (rule block_coords_conv(2)[OF BM0 r])
  have n: "n < nbs" unfolding n_def nbs_def nb_def by (rule block_coords_conv(2)[OF BN0 c])
  have re: "mb * BLOCK_M + m = r" by (simp add: mb_def m_def)
  have ce: "nb * ?BN + n = c" by (simp add: nb_def n_def)
  have sup: "nbs = 16 \<or> nbs = 32 \<or> nbs = 48 \<or> nbs = 64"
    unfolding nbs_def by (rule mm_tile_ok(2)[OF BLOCK_N_32_64 N mb nb])
  let ?At = "ptr_add (A, 0) (mb * BLOCK_M * K)"
  let ?Bt = "ptr_add (weight_to_int4pack_kernel v P0 w N K, 0) (nb * ?BN * K div 2)"
  let ?St = "ptr_add (S, 0) (nb * ?BN * 2)"
  have "output_element v exact (A, 0) M (weight_to_int4pack_kernel v P0 w N K, 0) gs (S, 0) N K r c =
        stored_value v exact mbs nbs ?At ?Bt ?St K (nbs div 2) N K gs m n"
    unfolding output_element_def Let_def mb_def[symmetric] nb_def[symmetric] m_def[symmetric]
      n_def[symmetric] nbs_def[symmetric] mbs_def[symmetric]
    by (rule refl)
  also have "\<dots> = tile_element v exact nbs ?At ?Bt ?St K (nbs div 2) N K gs m n"
    unfolding stored_value_ref[OF gs sup m n] by (simp add: exact_def)
  also have "\<dots> = (\<Sum>k\<leftarrow>[0..<K]. rd ?At (m * K + k) *
      ((real (unat (weight_nibble v nbs ?Bt (nbs div 2) k n)) - 8) * rd ?St ((k div gs) * N * 2 + n * 2) +
       rd ?St ((k div gs) * N * 2 + n * 2 + 1)))"
    by (rule tile_element_exact)
  also have "\<dots> = (\<Sum>k\<leftarrow>[0..<K]. A (r * K + k) *
        ((real (unat (w (c * K + k))) - 8) * S (((k div gs) * N + c) * 2) +
         S (((k div gs) * N + c) * 2 + 1)))"
  proof (rule arg_cong[where f = sum_list], rule map_cong[OF refl])
    fix k assume "k \<in> set [0..<K]"
    then have k: "k < K" by simp
    have a: "rd ?At (m * K + k) = A (r * K + k)"
      unfolding re[symmetric] by (simp add: algebra_simps)
    have s0: "rd ?St ((k div gs) * N * 2 + n * 2) = S (((k div gs) * N + c) * 2)"
      unfolding ce[symmetric] by (simp add: algebra_simps)
    have s1: "rd ?St ((k div gs) * N * 2 + n * 2 + 1) = S (((k div gs) * N + c) * 2 + 1)"
      unfolding ce[symmetric] by (simp add: algebra_simps)
    have "weight_nibble v nbs ?Bt (nbs div 2) k n = ucast (w ((nb * ?BN + n) * K + k))"
      unfolding nbs_def
      by (rule packed_nibble[OF evN nb k n[unfolded nbs_def]]) (rule w16[OF _ k])
    then have q: "unat (weight_nibble v nbs ?Bt (nbs div 2) k n) = unat (w (c * K + k))"
      using unat_ucast_nibble[OF w16[OF c k]] by (simp only: ce)
    show "rd ?At (m * K + k) *
      ((real (unat (weight_nibble v nbs ?Bt (nbs div 2) k n)) - 8) * rd ?St ((k div gs) * N * 2 + n * 2) +
       rd ?St ((k div gs) * N * 2 + n * 2 + 1)) =
       A (r * K + k) *
        ((real (unat (w (c * K + k))) - 8) * S (((k div gs) * N + c) * 2) +
         S (((k div gs) * N + c) * 2 + 1))"
      by (simp only: a s0 s1 q)
  qed
  finally show ?thesis by (simp only: reference_mm_def)
qed

lemma apply_writes_other:
  assumes "i \<notin> fst ` set xs"
  shows "apply_writes xs f i = f i"
  using assms unfolding apply_writes_def
  by (induction xs arbitrary: f) (auto split: prod.splits)

lemma apply_writes_distinct:
  assumes "distinct (map fst xs)" and "(i, y) \<in> set xs"
  shows "apply_writes xs f i = y"
  using assms
proof (induction xs arbitrary: f)
  case Nil
  then show ?case by simp
next
  case (Cons x xs)
  obtain i' y' where x: "x = (i', y')" by (cases x)
  have a: "apply_writes (x # xs) f = apply_writes xs (f(i' := y'))"
    by (simp add: apply_writes_def x)
  show ?case
  proof (cases "(i, y) = x")
    case True
    from Cons.prems(1) have "fst x \<notin> fst ` set xs" by simp
    moreover have "fst x = i" using True by auto
    ultimately have "i \<notin> fst ` set xs" by simp
    then show ?thesis unfolding a using True x by (simp add: apply_writes_other)
  next
    case False
    then have "(i, y) \<in> set xs" using Cons.prems(2) by simp
    moreover have "distinct (map fst xs)" using Cons.prems(1) by simp
    ultimately show ?thesis unfolding a by (rule Cons.IH[rotated])
  qed
qed

lemma sum_list_indicator:
  fixes g :: "nat \<Rightarrow> real"
  assumes "k0 < n"
  shows "(\<Sum>k\<leftarrow>[0..<n]. (if k = k0 then 1 else 0) * g k) = g k0"
  using assms
proof (induction n)
  case 0
  then show ?case by simp
next
  case (Suc n)
  show ?case
  proof (cases "k0 = n")
    case True
    have "(\<Sum>k\<leftarrow>[0..<n]. (if k = k0 then 1 else 0) * g k) = (\<Sum>k\<leftarrow>[0..<n]. 0)"
      by (rule arg_cong[where f = sum_list], rule map_cong[OF refl]) (use True in auto)
    then show ?thesis using True by simp
  next
    case False
    then have "k0 < n" using Suc.prems by simp
    then show ?thesis using Suc.IH False by simp
  qed
qed

text \<open>
  C2 (amended). For \<open>N\<close> a multiple of 16, a group size that is a power of two (as 32,
  64, 128 and 256 are) and weights between 0 and 15 handed to
  \<^verbatim>\<open>weight_to_int4pack_kernel\<close> of the same variant: in arithmetic without rounding,
  \<^verbatim>\<open>int4pack_mm_kernel\<close> throws nothing and stores, at every element \<open>(m, n)\<close> of the
  output and nowhere else, the value of the naive reference, the sum over \<open>k\<close> of
  \<open>A[m, k] * (W[k, n] * scale + zero)\<close> with the pair of the group \<open>k div group_size\<close>
  and the column \<open>n\<close>; the output buffer holds these values afterwards. \<open>W[k, n]\<close> is
  the weight handed to the packer minus 8.
\<close>

theorem reference_equivalence:
  assumes N: "N mod 16 = 0" and gs: "group_size = 2 ^ j"
    and w16: "\<And>n k. n < N \<Longrightarrow> k < K \<Longrightarrow> weight (n * K + k) < 16"
    and B: "B_data = (weight_to_int4pack_kernel v P0 weight N K, 0)"
    and W: "W = (\<lambda>k n. real (unat (weight (n * K + k))) - 8)"
  shows "fst (int4pack_mm_kernel v exact [] (A, 0) M B_data group_size (S, 0) N K) = None \<and>
         set (snd (int4pack_mm_kernel v exact [] (A, 0) M B_data group_size (S, 0) N K)) =
           {(m * N + n, reference_mm A W S group_size N K m n) | m n. m < M \<and> n < N} \<and>
         (\<forall>m<M. \<forall>n<N.
            apply_writes (snd (int4pack_mm_kernel v exact [] (A, 0) M B_data group_size (S, 0) N K))
              C0 (m * N + n) =
            reference_mm A W S group_size N K m n)"
proof -
  let ?NB = "(N + BLOCK_N v - 1) div BLOCK_N v" and ?MB = "(M + BLOCK_M - 1) div BLOCK_M"
  let ?T = "concat (map (\<lambda>i. tile_stores v exact (A, 0) M B_data group_size (S, 0) N K
                            (i div ?NB) (i mod ?NB)) [0..<?MB * ?NB])"
  have tr: "int4pack_mm_kernel v exact [] (A, 0) M B_data group_size (S, 0) N K = (None, ?T)"
    using sched_trace[OF N, of v exact "[]" "(A, 0)" M B_data group_size "(S, 0)" K]
    by (simp only: append_Nil)
  have ref: "output_element v exact (A, 0) M B_data group_size (S, 0) N K m n =
             reference_mm A W S group_size N K m n" if "m < M" "n < N" for m n
    unfolding B W by (rule output_element_reference[where w = weight and K = K, OF N gs w16 that])
  have 1: "fst (int4pack_mm_kernel v exact [] (A, 0) M B_data group_size (S, 0) N K) = None"
    by (simp add: tr)
  have mem: "p \<in> set ?T \<longleftrightarrow> (\<exists>m n. m < M \<and> n < N \<and> p = (m * N + n, reference_mm A W S group_size N K m n))"
    for p
    unfolding trace_mem using ref by metis
  have 2: "set (snd (int4pack_mm_kernel v exact [] (A, 0) M B_data group_size (S, 0) N K)) =
           {(m * N + n, reference_mm A W S group_size N K m n) | m n. m < M \<and> n < N}"
    unfolding tr snd_conv using mem by blast
  have d: "distinct (map fst ?T)" by (rule trace_indices_distinct)
  have 3: "\<forall>m<M. \<forall>n<N.
            apply_writes (snd (int4pack_mm_kernel v exact [] (A, 0) M B_data group_size (S, 0) N K))
              C0 (m * N + n) =
            reference_mm A W S group_size N K m n"
  proof (intro allI impI)
    fix m n assume m: "m < M" and n: "n < N"
    have "(m * N + n, reference_mm A W S group_size N K m n) \<in> set ?T"
      unfolding mem using m n by blast
    then show "apply_writes (snd (int4pack_mm_kernel v exact [] (A, 0) M B_data group_size (S, 0) N K))
              C0 (m * N + n) = reference_mm A W S group_size N K m n"
      unfolding tr snd_conv by (rule apply_writes_distinct[OF d])
  qed
  from 1 2 3 show ?thesis by (simp only: simp_thms)
qed

theorem reference_equivalence_witness:
  "(16::nat) mod 16 = 0 \<and> (32::nat) = 2 ^ 5 \<and>
   fst (int4pack_mm_kernel AVX2 exact [] (\<lambda>i. if i = 3 then 1 else 0, 0) 1
          (weight_to_int4pack_kernel AVX2 (\<lambda>_. 0) (\<lambda>i. if i = 163 then 11 else 9) 16 32, 0) 32
          (\<lambda>i. if even i then 2 else 1, 0) 16 32) = None \<and>
   apply_writes (snd (int4pack_mm_kernel AVX2 exact [] (\<lambda>i. if i = 3 then 1 else 0, 0) 1
          (weight_to_int4pack_kernel AVX2 (\<lambda>_. 0) (\<lambda>i. if i = 163 then 11 else 9) 16 32, 0) 32
          (\<lambda>i. if even i then 2 else 1, 0) 16 32)) (\<lambda>_. 0) (0 * 16 + 5) = 7"
proof -
  have a: "(16::nat) mod 16 = 0" by simp
  have b: "(32::nat) = 2 ^ 5" by simp
  have c: "(if n * 32 + k = 163 then 11 else 9 :: 32 word) < 16" for n k :: nat by simp
  note t = reference_equivalence[where N = 16 and group_size = 32 and j = 5 and K = 32
             and weight = "\<lambda>i. if i = 163 then 11 else 9" and v = AVX2 and ?P0.0 = "\<lambda>_. 0"
             and A = "\<lambda>i. if i = 3 then 1 else 0" and M = 1 and S = "\<lambda>i. if even i then 2 else 1"
             and ?C0.0 = "\<lambda>_. 0", OF a b c refl refl]
  have r: "reference_mm (\<lambda>i. if i = 3 then 1 else 0)
             (\<lambda>k n. real (unat (if n * 32 + k = 163 then 11 else 9 :: 32 word)) - 8)
             (\<lambda>i. if even i then 2 else 1) 32 16 32 0 5 = 7"
  proof -
    let ?G = "\<lambda>k::nat. (real (unat (if 5 * 32 + k = 163 then 11 else 9 :: 32 word)) - 8) *
                  (if even (((k div 32) * 16 + 5) * 2) then 2 else 1) +
                  (if even (((k div 32) * 16 + 5) * 2 + 1) then 2 else 1 :: real)"
    have "reference_mm (\<lambda>i. if i = 3 then 1 else 0)
             (\<lambda>k n. real (unat (if n * 32 + k = 163 then 11 else 9 :: 32 word)) - 8)
             (\<lambda>i. if even i then 2 else 1) 32 16 32 0 5 =
          (\<Sum>k\<leftarrow>[0..<32]. (if k = 3 then 1 else 0) * ?G k)"
      unfolding reference_mm_def by (simp only: mult_zero_left add_0)
    also have "\<dots> = ?G 3" by (rule sum_list_indicator) simp
    also have "\<dots> = 7" by simp
    finally show ?thesis .
  qed
  have m: "(0::nat) < 1" "(5::nat) < 16" by simp_all
  note e = t[THEN conjunct2, THEN conjunct2, rule_format, OF m]
  have f: "apply_writes (snd (int4pack_mm_kernel AVX2 exact [] (\<lambda>i. if i = 3 then 1 else 0, 0) 1
          (weight_to_int4pack_kernel AVX2 (\<lambda>_. 0) (\<lambda>i. if i = 163 then 11 else 9) 16 32, 0) 32
          (\<lambda>i. if even i then 2 else 1, 0) 16 32)) (\<lambda>_. 0) (0 * 16 + 5) = 7"
    by (simp only: e r)
  from a b t[THEN conjunct1] f show ?thesis by (simp only: simp_thms)
qed

section \<open>The product on uniform weights\<close>

text \<open>
  The shape \<open>M = 1\<close>, \<open>N = 16\<close>, \<open>K = 32\<close> with one group of 32, scale 1 and zero 0, in
  IEEE arithmetic: when every byte of the tile holds the same nibbles, each element of
  the output is 32 times the nibble minus 8, a value that neither \<^verbatim>\<open>float\<close> nor
  \<^verbatim>\<open>BFloat16\<close> rounds.
\<close>

lemma ieee_f32_int:
  assumes "\<bar>m\<bar> < 2 ^ 24"
  shows "round_f32 ieee (of_int m) = of_int m"
  using round_to_precision_int[OF assms] by (simp add: ieee_def)

lemma dequant_unit_nat:
  fixes q :: "8 word"
  assumes u: "u < 16" and q: "unat q = u"
  shows "dequant v ieee q 1 0 = of_int (int u - 8)"
proof -
  define d where "d = int u - 8"
  have l: "lut ! u = of_int d" using lut_nth[OF u] by (simp add: d_def)
  have b: "\<bar>d\<bar> < 2 ^ 24" "\<bar>int u\<bar> < 2 ^ 24" "\<bar>- 8 :: int\<bar> < 2 ^ 24"
    using u by (simp_all add: d_def)
  note r = ieee_f32_int[OF b(1)] ieee_f32_int[OF b(2)] ieee_f32_int[OF b(3)]
  have e: "real u + - 8 = of_int d" "real u - 8 = of_int d" by (simp_all add: d_def)
  show ?thesis
    unfolding d_def[symmetric]
  proof (cases v)
    case AVX512
    show "dequant v ieee q 1 0 = of_int d"
      unfolding AVX512 dequant_def isa.case f32_fmadd_def q l using r(1) by simp
  next
    case AVX2
    have 1: "round_f32 ieee (real u) = real u" using r(2) by simp
    have 2: "round_f32 ieee (- 8) = - 8" using r(3) by simp
    show "dequant v ieee q 1 0 = of_int d"
      unfolding AVX2 dequant_def isa.case f32_fmadd_def q using r(1) by (simp add: 1 2 e)
  next
    case Scalar
    show "dequant v ieee q 1 0 = of_int d"
      unfolding Scalar dequant_def isa.case f32_add_def f32_mul_def q l using r(1) by simp
  qed
qed

lemma accumulate_int:
  assumes "\<bar>d\<bar> < 2 ^ 24" and "\<bar>s + d\<bar> < 2 ^ 24"
  shows "accumulate v ieee 1 (of_int d) (of_int s) = of_int (s + d)"
proof -
  note r = ieee_f32_int[OF assms(1)] ieee_f32_int[OF assms(2)]
  have e: "real_of_int d + real_of_int s = of_int (s + d)" "real_of_int s + real_of_int d = of_int (s + d)"
    by simp_all
  show ?thesis
    by (cases v)
       (simp_all only: accumulate_def isa.case f32_fmadd_def f32_add_def f32_mul_def mult_1 r e)
qed

lemma fold_accumulate_ones:
  assumes "\<bar>d\<bar> * int n < 2 ^ 24"
  shows "fold (\<lambda>k c. accumulate v ieee 1 (of_int d) c) [0..<n] 0 = of_int (d * int n)"
  using assms
proof (induction n)
  case 0
  show ?case by simp
next
  case (Suc n)
  have le: "\<bar>d\<bar> * int n \<le> \<bar>d\<bar> * int (Suc n)" by (simp add: mult_left_mono)
  have ih: "fold (\<lambda>k c. accumulate v ieee 1 (of_int d) c) [0..<n] 0 = of_int (d * int n)"
    by (rule Suc.IH) (use le Suc.prems in linarith)
  have d: "\<bar>d\<bar> < 2 ^ 24"
  proof -
    have "\<bar>d\<bar> \<le> \<bar>d\<bar> * int (Suc n)" by (simp add: mult_le_cancel_left1)
    then show ?thesis using Suc.prems by linarith
  qed
  have s: "\<bar>d * int n + d\<bar> < 2 ^ 24"
  proof -
    have "d * int n + d = d * int (Suc n)" by (simp add: algebra_simps)
    then show ?thesis using Suc.prems by (simp add: abs_mult)
  qed
  have "fold (\<lambda>k c. accumulate v ieee 1 (of_int d) c) [0..<Suc n] 0 =
        accumulate v ieee 1 (of_int d) (of_int (d * int n))"
    by (simp add: ih)
  also have "\<dots> = of_int (d * int n + d)" by (rule accumulate_int[OF d s])
  also have "d * int n + d = d * int (Suc n)" by (simp add: algebra_simps)
  finally show ?case .
qed

lemma ieee_round_zero: "round_f32 ieee 0 = 0" "round_bf16 ieee 0 = 0"
  by (simp_all add: ieee_def round_to_precision_def)

lemma fold_accumulate_zero:
  "fold (\<lambda>k c. accumulate v ieee (a k) 0 c) xs 0 = 0"
proof (induction xs)
  case Nil
  show ?case by simp
next
  case (Cons x xs)
  have "accumulate v ieee (a x) 0 0 = 0"
    by (cases v) (simp_all add: accumulate_def f32_fmadd_def f32_add_def f32_mul_def ieee_round_zero)
  then show ?case using Cons.IH by simp
qed

lemma fold_cong_upt:
  assumes "\<And>k c. k < n \<Longrightarrow> f k c = g k c"
  shows "fold f [0..<n] a = fold g [0..<n] a"
  by (rule fold_cong) (use assms in auto)

lemma scenario_element:
  fixes Q :: "8 word"
  assumes n: "n < 16"
    and nib: "\<And>k. k < 32 \<Longrightarrow>
                weight_nibble v 16 (ptr_add (B, 0) (0 * BLOCK_N v * 32 div 2)) 8 k n = Q"
    and un: "unat Q = un" "un < 16"
    and A: "(\<forall>i. A i = 1) \<or> un = 8"
  shows "output_element v ieee (A, 0) 1 (B, 0) 32 (\<lambda>i. if even i then 1 else 0, 0) 16 32 0 n =
         round_bf16 ieee (of_int ((int un - 8) * 32))"
proof -
  let ?BN = "BLOCK_N v"
  let ?S = "\<lambda>i::nat. if even i then 1 else 0 :: real"
  define d where "d = int un - 8"
  have BN: "?BN = 32 \<or> ?BN = 64" by (rule BLOCK_N_32_64)
  have nbs: "min ?BN (16 - 0 * ?BN) = 16" using BN by auto
  have nd: "n div ?BN = 0" "n mod ?BN = n" using n BN by auto
  have gs: "(32::nat) = 2 ^ 5" by simp
  have sup: "(16::nat) = 16 \<or> (16::nat) = 32 \<or> (16::nat) = 48 \<or> (16::nat) = 64" by simp
  have m0: "(0::nat) < 1" by simp
  have "output_element v ieee (A, 0) 1 (B, 0) 32 (?S, 0) 16 32 0 n =
        stored_value v ieee 1 16 (ptr_add (A, 0) 0) (ptr_add (B, 0) (0 * ?BN * 32 div 2))
          (ptr_add (?S, 0) 0) 32 8 16 32 32 0 n"
    unfolding output_element_def Let_def nd using nbs by (simp add: BLOCK_M_def)
  also have "\<dots> = round_bf16 ieee (tile_element v ieee 16 (ptr_add (A, 0) 0)
          (ptr_add (B, 0) (0 * ?BN * 32 div 2)) (ptr_add (?S, 0) 0) 32 8 16 32 32 0 n)"
    by (rule stored_value_ref[OF gs sup m0 n])
  also have "tile_element v ieee 16 (ptr_add (A, 0) 0)
          (ptr_add (B, 0) (0 * ?BN * 32 div 2)) (ptr_add (?S, 0) 0) 32 8 16 32 32 0 n =
        fold (\<lambda>k c. accumulate v ieee (A k) (of_int d) c) [0..<32] 0"
    unfolding tile_element_def
  proof (rule fold_cong_upt)
    fix k :: nat and c :: real
    assume k: "k < 32"
    note wn = nib[OF k]
    have dq: "dequant v ieee Q 1 0 = of_int d"
      unfolding d_def by (rule dequant_unit_nat[OF un(2) un(1)])
    have s0: "rd (ptr_add (?S, 0) 0) ((k div 32) * 16 * 2 + n * 2) = 1" by simp
    have s1: "rd (ptr_add (?S, 0) 0) ((k div 32) * 16 * 2 + n * 2 + 1) = 0" by simp
    have a: "rd (ptr_add (A, 0) 0) (0 * 32 + k) = A k" by simp
    show "accumulate v ieee (rd (ptr_add (A, 0) 0) (0 * 32 + k))
            (dequant v ieee (weight_nibble v 16 (ptr_add (B, 0) (0 * ?BN * 32 div 2)) 8 k n)
               (rd (ptr_add (?S, 0) 0) ((k div 32) * 16 * 2 + n * 2))
               (rd (ptr_add (?S, 0) 0) ((k div 32) * 16 * 2 + n * 2 + 1))) c =
          accumulate v ieee (A k) (of_int d) c"
      by (simp only: wn s0 s1 a dq)
  qed
  also have "fold (\<lambda>k c. accumulate v ieee (A k) (of_int d) c) [0..<32] 0 = of_int (d * 32)"
  proof (cases "\<forall>i. A i = 1")
    case True
    have b: "\<bar>d\<bar> * int 32 < 2 ^ 24" using un(2) by (simp add: d_def)
    have "fold (\<lambda>k c. accumulate v ieee (A k) (of_int d) c) [0..<32] 0 =
          fold (\<lambda>k c. accumulate v ieee 1 (of_int d) c) [0..<32] 0"
      using True by simp
    also have "\<dots> = of_int (d * int 32)" by (rule fold_accumulate_ones[OF b])
    finally show ?thesis by simp
  next
    case False
    then have "un = 8" using A by blast
    then have "d = 0" by (simp add: d_def)
    then show ?thesis using fold_accumulate_zero[of v A "[0..<32]"] by simp
  qed
  finally show ?thesis by (simp only: d_def)
qed

lemma scenario_output:
  fixes Q :: "nat \<Rightarrow> 8 word"
  assumes nib: "\<And>n k. n < 16 \<Longrightarrow> k < 32 \<Longrightarrow>
                weight_nibble v 16 (ptr_add (B, 0) (0 * BLOCK_N v * 32 div 2)) 8 k n = Q n"
    and un: "\<And>n. n < 16 \<Longrightarrow> unat (Q n) = un n \<and> un n < 16"
    and A: "(\<forall>i. A i = 1) \<or> (\<forall>n<16. un n = 8)"
  shows "int4pack_mm_kernel v ieee [] (A, 0) 1 (B, 0) 32 (\<lambda>i. if even i then 1 else 0, 0) 16 32 =
         (None, map (\<lambda>n. (n, round_bf16 ieee (of_int ((int (un n) - 8) * 32)))) [0..<16])"
proof -
  let ?BN = "BLOCK_N v"
  let ?S = "\<lambda>i::nat. if even i then 1 else 0 :: real"
  have BN: "?BN = 32 \<or> ?BN = 64" by (rule BLOCK_N_32_64)
  have NB: "(16 + ?BN - 1) div ?BN = 1" using BN by auto
  have MB: "(1 + BLOCK_M - 1) div BLOCK_M = 1" by (simp add: BLOCK_M_def)
  have nbs: "min ?BN (16 - 0 * ?BN) = 16" using BN by auto
  have N: "(16::nat) mod 16 = 0" by simp
  have "int4pack_mm_kernel v ieee [] (A, 0) 1 (B, 0) 32 (?S, 0) 16 32 =
        (None, tile_stores v ieee (A, 0) 1 (B, 0) 32 (?S, 0) 16 32 0 0)"
    unfolding sched_trace[OF N] NB MB by simp
  also have "tile_stores v ieee (A, 0) 1 (B, 0) 32 (?S, 0) 16 32 0 0 =
        map (\<lambda>n. (n, output_element v ieee (A, 0) 1 (B, 0) 32 (?S, 0) 16 32 0 n)) [0..<16]"
    unfolding tile_stores_def nbs by (simp add: BLOCK_M_def)
  also have "\<dots> = map (\<lambda>n. (n, round_bf16 ieee (of_int ((int (un n) - 8) * 32)))) [0..<16]"
  proof (rule map_cong[OF refl])
    fix n :: nat assume "n \<in> set [0..<16]"
    then have n: "n < 16" by simp
    have a: "(\<forall>i. A i = 1) \<or> un n = 8" using A n by blast
    show "(n, output_element v ieee (A, 0) 1 (B, 0) 32 (?S, 0) 16 32 0 n) =
          (n, round_bf16 ieee (of_int ((int (un n) - 8) * 32)))"
      using scenario_element[OF n nib[OF n] un[OF n, THEN conjunct1] un[OF n, THEN conjunct2] a]
      by (simp only:)
  qed
  finally show ?thesis .
qed

lemma uniform_scenario:
  fixes q :: "32 word"
  assumes q: "q < 16" and A: "(\<forall>i. A i = 1) \<or> unat q = 8"
  shows "int4pack_mm_kernel v ieee [] (A, 0) 1 (weight_to_int4pack_kernel v P0 (\<lambda>_. q) 16 32, 0) 32
           (\<lambda>i. if even i then 1 else 0, 0) 16 32 =
         (None, map (\<lambda>n. (n, round_bf16 ieee (of_int ((int (unat q) - 8) * 32)))) [0..<16])"
proof (rule scenario_output[where Q = "\<lambda>_. ucast q" and un = "\<lambda>_. unat q"])
  let ?BN = "BLOCK_N v"
  have BN: "?BN = 32 \<or> ?BN = 64" by (rule BLOCK_N_32_64)
  have nb0: "(0::nat) < (16 + ?BN - 1) div ?BN" using BN by auto
  have nbs: "min ?BN (16 - 0 * ?BN) = 16" using BN by auto
  fix n k :: nat assume n: "n < 16" and k: "k < 32"
  have "weight_nibble v (min ?BN (16 - 0 * ?BN))
          (ptr_add (weight_to_int4pack_kernel v P0 (\<lambda>_. q) 16 32, 0) (0 * ?BN * 32 div 2))
          (min ?BN (16 - 0 * ?BN) div 2) k n = ucast ((\<lambda>_. q) ((0 * ?BN + n) * 32 + k))"
    by (rule packed_nibble[where N = 16 and nb = 0 and K = 32 and w = "\<lambda>_. q"])
       (use nb0 k n nbs q in simp_all)
  then show "weight_nibble v 16
          (ptr_add (weight_to_int4pack_kernel v P0 (\<lambda>_. q) 16 32, 0) (0 * ?BN * 32 div 2)) 8 k n =
          ucast q"
    unfolding nbs by simp
next
  fix n :: nat assume "n < 16"
  have "unat q < 16" using q by (simp add: word_less_nat_alt)
  then show "unat (ucast q :: 8 word) = unat q \<and> unat q < 16"
    using unat_ucast_nibble[OF q] by simp
next
  show "(\<forall>i. A i = 1) \<or> (\<forall>n<16. unat q = 8)" using A by blast
qed

lemma bf16_values:
  "round_bf16 ieee (of_int ((0 - 8) * 32)) = - 256"
  "round_bf16 ieee (of_int ((7 - 8) * 32)) = - 32"
  "round_bf16 ieee (of_int ((8 - 8) * 32)) = 0"
  "round_bf16 ieee (of_int ((15 - 8) * 32)) = 224"
proof -
  have a: "round_to_precision 8 (of_int (- 1) * 2 ^ 8) = of_int (- 1) * 2 ^ 8"
    by (rule round_to_precision_exact) simp
  have b: "round_to_precision 8 (of_int (- 1) * 2 ^ 5) = of_int (- 1) * 2 ^ 5"
    by (rule round_to_precision_exact) simp
  have c: "round_to_precision 8 (of_int 7 * 2 ^ 5) = of_int 7 * 2 ^ 5"
    by (rule round_to_precision_exact) simp
  show "round_bf16 ieee (of_int ((0 - 8) * 32)) = - 256" using a by (simp add: ieee_def)
  show "round_bf16 ieee (of_int ((7 - 8) * 32)) = - 32" using b by (simp add: ieee_def)
  show "round_bf16 ieee (of_int ((8 - 8) * 32)) = 0" by (simp add: ieee_round_zero)
  show "round_bf16 ieee (of_int ((15 - 8) * 32)) = 224" using c by (simp add: ieee_def)
qed

lemma scalar_nibble_minus8:
  assumes n: "n < 16" and k: "k < 32"
  shows "weight_nibble Scalar 16
           (ptr_add (weight_to_int4pack_kernel Scalar P0 (\<lambda>_. - 8) 16 32, 0)
              (0 * BLOCK_N Scalar * 32 div 2)) 8 k n =
         (if even n then 8 else 15)"
proof -
  have N: "even (16::nat)" by simp
  have i: "(0::nat) < (16 + BLOCK_N Scalar - 1) div BLOCK_N Scalar" by simp
  have t: "n div 2 < min (BLOCK_N Scalar) (16 - 0 * BLOCK_N Scalar) div 2" using n by simp
  have a: "Scalar = Scalar \<or> min (BLOCK_N Scalar) (16 - 0 * BLOCK_N Scalar) \<noteq> BLOCK_N Scalar"
    by simp
  have pb: "packed_byte (- 8) (- 8) = 0xF8" by (simp add: packed_byte_def)
  have "weight_to_int4pack_kernel Scalar P0 (\<lambda>_. - 8) 16 32
           ((0 * 32 * BLOCK_N Scalar) div 2 + k * (min (BLOCK_N Scalar) (16 - 0 * BLOCK_N Scalar) div 2) + n div 2) =
         0xF8"
    using adjacent_block_byte[OF N i k t a, of P0 "\<lambda>_. - 8"] by (simp only: pb)
  then have b: "weight_to_int4pack_kernel Scalar P0 (\<lambda>_. - 8) 16 32 (k * 8 + n div 2) = 0xF8"
    by simp
  have lo: "(0xF8 :: 8 word) AND 0x0F = 8" and hi: "drop_bit 4 (0xF8 :: 8 word) = 15" by simp_all
  show ?thesis
    unfolding weight_nibble_def Let_def by (simp add: b lo hi)
qed

lemma ones_reference:
  "map (reference_mm (\<lambda>_. 1) (\<lambda>k n. w) (\<lambda>i. if even i then 1 else 0) 32 16 32 0) [0..<16] =
   replicate 16 (32 * w)"
proof -
  have "reference_mm (\<lambda>_. 1) (\<lambda>k n. w) (\<lambda>i. if even i then 1 else 0) 32 16 32 0 n = 32 * w" for n
    unfolding reference_mm_def by (simp add: sum_list_triv)
  then have "map (reference_mm (\<lambda>_. 1) (\<lambda>k n. w) (\<lambda>i. if even i then 1 else 0) 32 16 32 0) [0..<16] =
             map (\<lambda>n. 32 * w) [0..<16]"
    by simp
  then show ?thesis by (simp add: map_replicate_const)
qed

text \<open>
  C2 as stated, with \<open>W\<close> the weights handed to the packer, between \<open>- 8\<close> and 7
  (\<open>M = 1\<close>, \<open>N = 16\<close>, \<open>K = 32\<close>, one group of 32, scale 1, zero 0, activations 1, the
  non-vectorized variant in IEEE arithmetic). With every weight 7 the kernel stores
  \<open>- 32\<close> in every element, where the naive reference on \<open>W = 7\<close> gives 224. With every
  weight \<open>- 8\<close> the kernel stores 0 in the even columns and 224 in the odd ones, where
  the naive reference on \<open>W = - 8\<close> gives \<open>- 256\<close>.
\<close>

theorem reference_equivalence_counterexample:
  "int4pack_mm_kernel Scalar ieee [] (\<lambda>_. 1, 0) 1
     (weight_to_int4pack_kernel Scalar (\<lambda>_. 0) (\<lambda>_. 7) 16 32, 0) 32
     (\<lambda>i. if even i then 1 else 0, 0) 16 32 =
     (None, map (\<lambda>n. (n, - 32)) [0..<16]) \<and>
   map (reference_mm (\<lambda>_. 1) (\<lambda>k n. 7) (\<lambda>i. if even i then 1 else 0) 32 16 32 0) [0..<16] =
     replicate 16 224 \<and>
   int4pack_mm_kernel Scalar ieee [] (\<lambda>_. 1, 0) 1
     (weight_to_int4pack_kernel Scalar (\<lambda>_. 0) (\<lambda>_. - 8) 16 32, 0) 32
     (\<lambda>i. if even i then 1 else 0, 0) 16 32 =
     (None, map (\<lambda>n. (n, if even n then 0 else 224)) [0..<16]) \<and>
   map (reference_mm (\<lambda>_. 1) (\<lambda>k n. - 8) (\<lambda>i. if even i then 1 else 0) 32 16 32 0) [0..<16] =
     replicate 16 (- 256)"
proof -
  have q: "(7 :: 32 word) < 16" "(\<forall>i::nat. (\<lambda>_. 1::real) i = 1) \<or> unat (7 :: 32 word) = 8" by simp_all
  have 1: "int4pack_mm_kernel Scalar ieee [] (\<lambda>_. 1, 0) 1
     (weight_to_int4pack_kernel Scalar (\<lambda>_. 0) (\<lambda>_. 7) 16 32, 0) 32
     (\<lambda>i. if even i then 1 else 0, 0) 16 32 =
     (None, map (\<lambda>n. (n, - 32)) [0..<16])"
    unfolding uniform_scenario[OF q] using bf16_values(2) by simp
  have 2: "map (reference_mm (\<lambda>_. 1) (\<lambda>k n. 7) (\<lambda>i. if even i then 1 else 0) 32 16 32 0) [0..<16] =
     replicate 16 224"
    unfolding ones_reference by simp
  have 3: "int4pack_mm_kernel Scalar ieee [] (\<lambda>_. 1, 0) 1
     (weight_to_int4pack_kernel Scalar (\<lambda>_. 0) (\<lambda>_. - 8) 16 32, 0) 32
     (\<lambda>i. if even i then 1 else 0, 0) 16 32 =
     (None, map (\<lambda>n. (n, round_bf16 ieee (of_int ((int (if even n then 8 else 15) - 8) * 32)))) [0..<16])"
  proof (rule scenario_output[where Q = "\<lambda>n. if even n then 8 else 15"
        and un = "\<lambda>n. if even n then 8 else 15"])
    fix n k :: nat assume "n < 16" "k < 32"
    then show "weight_nibble Scalar 16
           (ptr_add (weight_to_int4pack_kernel Scalar (\<lambda>_. 0) (\<lambda>_. - 8) 16 32, 0)
              (0 * BLOCK_N Scalar * 32 div 2)) 8 k n = (if even n then 8 else 15)"
      by (rule scalar_nibble_minus8)
  next
    fix n :: nat
    show "unat (if even n then 8 else 15 :: 8 word) = (if even n then 8 else 15) \<and>
          (if even n then 8 else 15 :: nat) < 16" by simp
  next
    show "(\<forall>i::nat. (1::real) = 1) \<or> (\<forall>n<16. (if even n then 8 else 15 :: nat) = 8)" by simp
  qed
  have e: "(\<lambda>n::nat. (n, round_bf16 ieee (of_int ((int (if even n then 8 else 15) - 8) * 32)))) =
           (\<lambda>n. (n, if even n then 0 else 224))"
    using bf16_values(3,4) by (intro ext) simp
  have 4: "map (reference_mm (\<lambda>_. 1) (\<lambda>k n. - 8) (\<lambda>i. if even i then 1 else 0) 32 16 32 0) [0..<16] =
     replicate 16 (- 256)"
    unfolding ones_reference by simp
  from 1 2 3[unfolded e] 4 show ?thesis by (simp only: simp_thms)
qed

section \<open>The concrete scenarios\<close>






section \<open>Packing, then converting back\<close>

text \<open>
  One row of activations that is 1 at \<open>k\<close> and 0 elsewhere, with scale 1 and zero 0,
  reads row \<open>k\<close> of the weights back through the whole product.
\<close>

lemma accumulate_zero_act:
  assumes "\<bar>s\<bar> < 2 ^ 24"
  shows "accumulate v ieee 0 b (of_int s) = of_int s"
proof -
  note r = ieee_f32_int[OF assms]
  show ?thesis
    by (cases v)
       (simp_all add: accumulate_def f32_fmadd_def f32_add_def f32_mul_def ieee_round_zero r)
qed

lemma fold_accumulate_skip:
  assumes "k0 \<notin> set xs" and "\<bar>s\<bar> < 2 ^ 24"
  shows "fold (\<lambda>k c. accumulate v ieee (if k = k0 then 1 else 0) (g k) c) xs (of_int s) = of_int s"
  using assms(1)
proof (induction xs)
  case Nil
  show ?case by simp
next
  case (Cons x xs)
  have x: "x \<noteq> k0" and xs: "k0 \<notin> set xs" using Cons.prems by auto
  have "accumulate v ieee (if x = k0 then 1 else 0) (g x) (of_int s) = of_int s"
    using x accumulate_zero_act[OF assms(2)] by simp
  then show ?case using Cons.IH[OF xs] by simp
qed

lemma fold_accumulate_indicator:
  assumes k0: "k0 < K" and d: "\<bar>d\<bar> < 2 ^ 24" and g: "g k0 = of_int d"
  shows "fold (\<lambda>k c. accumulate v ieee (if k = k0 then 1 else 0) (g k) c) [0..<K] 0 = of_int d"
proof -
  let ?F = "\<lambda>k c. accumulate v ieee (if k = k0 then 1 else 0) (g k) c"
  have s: "[0..<K] = [0..<k0] @ k0 # [Suc k0..<K]"
    using k0 by (metis le_add1 less_imp_add_positive upt_add_eq_append upt_conv_Cons zero_le)
  have z: "\<bar>0::int\<bar> < 2 ^ 24" by simp
  have 1: "fold ?F [0..<k0] 0 = 0"
    using fold_accumulate_skip[of k0 "[0..<k0]" 0 v g] by simp
  have 2: "?F k0 0 = of_int d"
    using accumulate_int[of d 0 v] d by (simp add: g)
  have 3: "fold ?F [Suc k0..<K] (of_int d) = of_int d"
    by (rule fold_accumulate_skip[OF _ d]) simp
  show ?thesis
    unfolding s fold_append comp_apply fold_Cons 1 2 3 by (rule refl)
qed

lemma output_element_unit:
  assumes N: "N mod 16 = 0" and gs: "gs = 2 ^ j" and k: "k < K"
    and w16: "\<And>c. c < N \<Longrightarrow> w (c * K + k) < 16"
    and c: "c < N"
  shows "output_element v ieee (\<lambda>i. if i = k then 1 else 0, 0) 1
           (weight_to_int4pack_kernel v P0 w N K, 0) gs (\<lambda>i. if even i then 1 else 0, 0) N K 0 c =
         real (unat (w (c * K + k))) - 8"
proof -
  let ?BN = "BLOCK_N v"
  let ?A = "\<lambda>i::nat. if i = k then 1 else 0 :: real"
  let ?S = "\<lambda>i::nat. if even i then 1 else 0 :: real"
  define nb where "nb = c div ?BN"
  define n where "n = c mod ?BN"
  define nbs where "nbs = min ?BN (N - nb * ?BN)"
  define u where "u = unat (w (c * K + k))"
  define d where "d = int u - 8"
  have BN0: "0 < ?BN" by (rule BLOCK_N_pos)
  have BM0: "0 < BLOCK_M" by (simp add: BLOCK_M_def)
  have evN: "even N" using N by presburger
  have mb: "(0::nat) < (1 + BLOCK_M - 1) div BLOCK_M" by (simp add: BLOCK_M_def)
  have nb: "nb < (N + ?BN - 1) div ?BN" unfolding nb_def by (rule block_coords_conv(1)[OF BN0 c])
  have n: "n < nbs" unfolding n_def nbs_def nb_def by (rule block_coords_conv(2)[OF BN0 c])
  have ce: "nb * ?BN + n = c" by (simp add: nb_def n_def)
  have sup: "nbs = 16 \<or> nbs = 32 \<or> nbs = 48 \<or> nbs = 64"
    unfolding nbs_def by (rule mm_tile_ok(2)[OF BLOCK_N_32_64 N mb nb])
  have m: "(0::nat) < 1" by simp
  have wl: "w (c * K + k) < 16" by (rule w16[OF c])
  have u16: "u < 16" unfolding u_def using wl by (simp add: word_less_nat_alt)
  have db: "\<bar>d\<bar> < 2 ^ 24" "\<bar>d\<bar> < 2 ^ 8" using u16 by (simp_all add: d_def)
  let ?At = "ptr_add (?A, 0) (0 * BLOCK_M * K)"
  let ?Bt = "ptr_add (weight_to_int4pack_kernel v P0 w N K, 0) (nb * ?BN * K div 2)"
  let ?St = "ptr_add (?S, 0) (nb * ?BN * 2)"
  have z: "(0::nat) div BLOCK_M = 0" "(0::nat) mod BLOCK_M = 0" by simp_all
  have mbs: "min BLOCK_M (1 - 0 * BLOCK_M) = 1" by (simp add: BLOCK_M_def)
  have "output_element v ieee (?A, 0) 1 (weight_to_int4pack_kernel v P0 w N K, 0) gs (?S, 0) N K 0 c =
        stored_value v ieee 1 nbs ?At ?Bt ?St K (nbs div 2) N K gs 0 n"
    unfolding output_element_def Let_def nb_def[symmetric] n_def[symmetric] nbs_def[symmetric] z mbs
    by (rule refl)
  also have "\<dots> = round_bf16 ieee (tile_element v ieee nbs ?At ?Bt ?St K (nbs div 2) N K gs 0 n)"
    by (rule stored_value_ref[OF gs sup m n])
  also have "tile_element v ieee nbs ?At ?Bt ?St K (nbs div 2) N K gs 0 n =
        fold (\<lambda>k' c. accumulate v ieee (if k' = k then 1 else 0)
                 (dequant v ieee (weight_nibble v nbs ?Bt (nbs div 2) k' n) 1 0) c) [0..<K] 0"
    unfolding tile_element_def
  proof (rule fold_cong_upt)
    fix k' :: nat and c' :: real
    assume "k' < K"
    have a: "rd ?At (0 * K + k') = (if k' = k then 1 else 0)" by (simp add: rd_def ptr_add_def)
    have s0: "rd ?St ((k' div gs) * N * 2 + n * 2) = 1" by (simp add: rd_def ptr_add_def)
    have s1: "rd ?St ((k' div gs) * N * 2 + n * 2 + 1) = 0" by (simp add: rd_def ptr_add_def)
    show "accumulate v ieee (rd ?At (0 * K + k'))
            (dequant v ieee (weight_nibble v nbs ?Bt (nbs div 2) k' n)
               (rd ?St ((k' div gs) * N * 2 + n * 2))
               (rd ?St ((k' div gs) * N * 2 + n * 2 + 1))) c' =
          accumulate v ieee (if k' = k then 1 else 0)
            (dequant v ieee (weight_nibble v nbs ?Bt (nbs div 2) k' n) 1 0) c'"
      by (simp only: a s0 s1)
  qed
  also have "\<dots> = of_int d"
  proof (rule fold_accumulate_indicator[OF k db(1)])
    have "weight_nibble v nbs ?Bt (nbs div 2) k n = ucast (w ((nb * ?BN + n) * K + k))"
      unfolding nbs_def
      by (rule packed_nibble[where w = w and K = K and k = k, OF evN nb k n[unfolded nbs_def] w16])
    then have q: "unat (weight_nibble v nbs ?Bt (nbs div 2) k n) = u"
      unfolding u_def using unat_ucast_nibble[OF wl] by (simp only: ce)
    show "dequant v ieee (weight_nibble v nbs ?Bt (nbs div 2) k n) 1 0 = of_int d"
      unfolding d_def by (rule dequant_unit_nat[OF u16 q])
  qed
  also have "round_bf16 ieee (of_int d) = of_int d"
    using round_to_precision_int[OF db(2)] by (simp add: ieee_def)
  finally show ?thesis by (simp add: d_def u_def)
qed

lemma unit_product_element:
  assumes N: "N mod 16 = 0" and gs: "gs = 2 ^ j" and k: "k < K"
    and w16: "\<And>c. c < N \<Longrightarrow> w (c * K + k) < 16"
    and c: "c < N"
  shows "fst (int4pack_mm_kernel v ieee [] (\<lambda>i. if i = k then 1 else 0, 0) 1
           (weight_to_int4pack_kernel v P0 w N K, 0) gs (\<lambda>i. if even i then 1 else 0, 0) N K) = None \<and>
         apply_writes (snd (int4pack_mm_kernel v ieee [] (\<lambda>i. if i = k then 1 else 0, 0) 1
           (weight_to_int4pack_kernel v P0 w N K, 0) gs (\<lambda>i. if even i then 1 else 0, 0) N K)) C0 c =
         real (unat (w (c * K + k))) - 8"
proof -
  let ?A = "(\<lambda>i::nat. if i = k then 1 else 0 :: real, 0::nat)"
  let ?S = "(\<lambda>i::nat. if even i then 1 else 0 :: real, 0::nat)"
  let ?B = "(weight_to_int4pack_kernel v P0 w N K, 0::nat)"
  let ?NB = "(N + BLOCK_N v - 1) div BLOCK_N v" and ?MB = "(1 + BLOCK_M - 1) div BLOCK_M"
  let ?T = "concat (map (\<lambda>i. tile_stores v ieee ?A 1 ?B gs ?S N K (i div ?NB) (i mod ?NB))
                      [0..<?MB * ?NB])"
  have tr: "int4pack_mm_kernel v ieee [] ?A 1 ?B gs ?S N K = (None, ?T)"
    using sched_trace[OF N, of v ieee "[]" ?A 1 ?B gs ?S K] by (simp only: append_Nil)
  have d: "distinct (map fst ?T)" by (rule trace_indices_distinct)
  have mem: "(0 * N + c, output_element v ieee ?A 1 ?B gs ?S N K 0 c) \<in> set ?T"
    unfolding trace_mem using c by blast
  have i: "0 * N + c = c" by simp
  note e = output_element_unit[where w = w and K = K and k = k, OF N gs k w16 c]
  have e': "output_element v ieee ?A 1 ?B gs ?S N K 0 c = real (unat (w (c * K + k))) - 8"
    by (rule e)
  from mem have "(c, real (unat (w (c * K + k))) - 8) \<in> set ?T"
    by (simp only: i e')
  then have "apply_writes ?T C0 c = real (unat (w (c * K + k))) - 8"
    by (rule apply_writes_distinct[OF d])
  then show ?thesis unfolding tr by simp
qed

text \<open>
  C1 (amended). For \<open>N\<close> even, every block of columns of each of the three variants and
  weights between 0 and 15: the nibble that the kernel reads for column \<open>n\<close> of the block
  at the reduction index \<open>k\<close> in the buffer packed by \<^verbatim>\<open>weight_to_int4pack_kernel\<close>,
  dequantized by the kernel with scale 1 and zero 0 in IEEE arithmetic, is the weight
  of that column at \<open>k\<close> minus 8, exactly. In the non-vectorized variant this is
  \<^verbatim>\<open>convert_int4_to_float\<close> of the byte \<open>n div 2\<close> of row \<open>k\<close>, times 1, plus 0. And
  for \<open>N\<close> a multiple of 16 and a group size that is a power of two,
  \<^verbatim>\<open>int4pack_mm_kernel\<close> on the packed buffer, with one row of activations that is 1 at
  \<open>k\<close> and 0 elsewhere, scale 1 and zero 0, throws nothing and leaves in the element of
  that column the weight of the column at \<open>k\<close> minus 8.
\<close>

theorem pack_unpack_offset:
  assumes N: "even N" and nb: "nb < (N + BLOCK_N v - 1) div BLOCK_N v" and k: "k < K"
    and nbs: "nb_size = min (BLOCK_N v) (N - nb * BLOCK_N v)" and n: "n < nb_size"
    and w16: "\<And>c. c < N \<Longrightarrow> weight (c * K + k) < 16"
    and B: "B_ptr = ptr_add (weight_to_int4pack_kernel v P0 weight N K, 0) (nb * BLOCK_N v * K div 2)"
  shows "dequant v ieee (weight_nibble v nb_size B_ptr (nb_size div 2) k n) 1 0 =
           real (unat (weight ((nb * BLOCK_N v + n) * K + k))) - 8 \<and>
         (v = Scalar \<longrightarrow>
            f32_add ieee
              (f32_mul ieee
                 (convert_int4_to_float (rd B_ptr (k * (nb_size div 2) + n div 2)) (n mod 2 = 0)) 1)
              0 =
            real (unat (weight ((nb * BLOCK_N v + n) * K + k))) - 8) \<and>
         (N mod 16 = 0 \<and> group_size = 2 ^ j \<longrightarrow>
            fst (int4pack_mm_kernel v ieee [] (\<lambda>i. if i = k then 1 else 0, 0) 1
                   (weight_to_int4pack_kernel v P0 weight N K, 0) group_size
                   (\<lambda>i. if even i then 1 else 0, 0) N K) = None \<and>
            apply_writes
              (snd (int4pack_mm_kernel v ieee [] (\<lambda>i. if i = k then 1 else 0, 0) 1
                      (weight_to_int4pack_kernel v P0 weight N K, 0) group_size
                      (\<lambda>i. if even i then 1 else 0, 0) N K))
              C0 (nb * BLOCK_N v + n) =
            real (unat (weight ((nb * BLOCK_N v + n) * K + k))) - 8)"
proof -
  let ?w = "weight ((nb * BLOCK_N v + n) * K + k)"
  have c: "nb * BLOCK_N v + n < N"
    using block_coords(1)[OF BLOCK_N_pos nb n[unfolded nbs]] .
  have wl: "?w < 16" by (rule w16[OF c])
  have u: "unat ?w < 16" using wl by (simp add: word_less_nat_alt)
  have nibble: "weight_nibble v nb_size B_ptr (nb_size div 2) k n = ucast ?w"
    unfolding nbs B
    by (rule packed_nibble[where w = weight and K = K and k = k, OF N nb k n[unfolded nbs] w16])
  have 1: "dequant v ieee (weight_nibble v nb_size B_ptr (nb_size div 2) k n) 1 0 =
           real (unat ?w) - 8"
    unfolding nibble using dequant_unit_nat[OF u unat_ucast_nibble[OF wl], of v] by simp
  have 2: "v = Scalar \<longrightarrow>
            f32_add ieee
              (f32_mul ieee
                 (convert_int4_to_float (rd B_ptr (k * (nb_size div 2) + n div 2)) (n mod 2 = 0)) 1)
              0 =
            real (unat ?w) - 8"
  proof
    assume v: "v = Scalar"
    have "f32_add ieee
              (f32_mul ieee
                 (convert_int4_to_float (rd B_ptr (k * (nb_size div 2) + n div 2)) (n mod 2 = 0)) 1)
              0 =
          dequant Scalar ieee (weight_nibble Scalar nb_size B_ptr (nb_size div 2) k n) 1 0"
      unfolding dequant_def isa.case weight_nibble_def convert_int4_to_float_def Let_def
      by (simp add: even_iff_mod_2_eq_zero)
    then show "f32_add ieee
              (f32_mul ieee
                 (convert_int4_to_float (rd B_ptr (k * (nb_size div 2) + n div 2)) (n mod 2 = 0)) 1)
              0 = real (unat ?w) - 8"
      using 1 v by simp
  qed
  have 3: "N mod 16 = 0 \<and> group_size = 2 ^ j \<longrightarrow>
            fst (int4pack_mm_kernel v ieee [] (\<lambda>i. if i = k then 1 else 0, 0) 1
                   (weight_to_int4pack_kernel v P0 weight N K, 0) group_size
                   (\<lambda>i. if even i then 1 else 0, 0) N K) = None \<and>
            apply_writes
              (snd (int4pack_mm_kernel v ieee [] (\<lambda>i. if i = k then 1 else 0, 0) 1
                      (weight_to_int4pack_kernel v P0 weight N K, 0) group_size
                      (\<lambda>i. if even i then 1 else 0, 0) N K))
              C0 (nb * BLOCK_N v + n) =
            real (unat ?w) - 8"
  proof (intro impI, elim conjE)
    assume N16: "N mod 16 = 0" and gs: "group_size = 2 ^ j"
    show "fst (int4pack_mm_kernel v ieee [] (\<lambda>i. if i = k then 1 else 0, 0) 1
                   (weight_to_int4pack_kernel v P0 weight N K, 0) group_size
                   (\<lambda>i. if even i then 1 else 0, 0) N K) = None \<and>
            apply_writes
              (snd (int4pack_mm_kernel v ieee [] (\<lambda>i. if i = k then 1 else 0, 0) 1
                      (weight_to_int4pack_kernel v P0 weight N K, 0) group_size
                      (\<lambda>i. if even i then 1 else 0, 0) N K))
              C0 (nb * BLOCK_N v + n) =
            real (unat ?w) - 8"
      by (rule unit_product_element[where w = weight and K = K and k = k, OF N16 gs k w16 c])
  qed
  from 1 2 3 show ?thesis by (simp only: simp_thms)
qed

theorem pack_unpack_offset_witness:
  "even (64::nat) \<and> (0::nat) < (64 + BLOCK_N AVX512 - 1) div BLOCK_N AVX512 \<and> (7::nat) < 32 \<and>
   (40::nat) < min (BLOCK_N AVX512) (64 - 0 * BLOCK_N AVX512) \<and>
   (64::nat) mod 16 = 0 \<and> (32::nat) = 2 ^ 5 \<and>
   dequant AVX512 ieee
     (weight_nibble AVX512 64
        (ptr_add (weight_to_int4pack_kernel AVX512 (\<lambda>_. 0) (\<lambda>i. if i = 1287 then 11 else 2) 64 32, 0) 0)
        32 7 40) 1 0 = 3 \<and>
   fst (int4pack_mm_kernel AVX512 ieee [] (\<lambda>i. if i = 7 then 1 else 0, 0) 1
          (weight_to_int4pack_kernel AVX512 (\<lambda>_. 0) (\<lambda>i. if i = 1287 then 11 else 2) 64 32, 0) 32
          (\<lambda>i. if even i then 1 else 0, 0) 64 32) = None \<and>
   apply_writes
     (snd (int4pack_mm_kernel AVX512 ieee [] (\<lambda>i. if i = 7 then 1 else 0, 0) 1
             (weight_to_int4pack_kernel AVX512 (\<lambda>_. 0) (\<lambda>i. if i = 1287 then 11 else 2) 64 32, 0) 32
             (\<lambda>i. if even i then 1 else 0, 0) 64 32))
     (\<lambda>_. 0) (0 * BLOCK_N AVX512 + 40) = 3 \<and>
   even (16::nat) \<and> (0::nat) < (16 + BLOCK_N Scalar - 1) div BLOCK_N Scalar \<and>
   (5::nat) < min (BLOCK_N Scalar) (16 - 0 * BLOCK_N Scalar) \<and>
   f32_add ieee
     (f32_mul ieee
        (convert_int4_to_float
           (rd (ptr_add (weight_to_int4pack_kernel Scalar (\<lambda>_. 0) (\<lambda>i. if i = 167 then 11 else 2) 16 32, 0) 0)
              (7 * (16 div 2) + 5 div 2)) (5 mod 2 = (0::nat))) 1) 0 = 3"
proof -
  let ?w = "\<lambda>i::nat. if i = 1287 then 11 else 2 :: 32 word"
  let ?u = "\<lambda>i::nat. if i = 167 then 11 else 2 :: 32 word"
  have a: "even (64::nat)" "(0::nat) < (64 + BLOCK_N AVX512 - 1) div BLOCK_N AVX512" "(7::nat) < 32"
    by simp_all
  have n: "(40::nat) < 64" by simp
  have nbs: "(64::nat) = min (BLOCK_N AVX512) (64 - 0 * BLOCK_N AVX512)" by simp
  have w16: "?w (c * 32 + 7) < 16" for c by simp
  have B: "ptr_add (weight_to_int4pack_kernel AVX512 (\<lambda>_. 0) ?w 64 32, 0) 0 =
           ptr_add (weight_to_int4pack_kernel AVX512 (\<lambda>_. 0) ?w 64 32, 0) (0 * BLOCK_N AVX512 * 32 div 2)"
    by simp
  note t = pack_unpack_offset[where v = AVX512 and N = 64 and nb = 0 and k = 7 and K = 32
      and nb_size = 64 and n = 40 and weight = ?w and ?P0.0 = "\<lambda>_. 0" and group_size = 32
      and j = 5 and ?C0.0 = "\<lambda>_. 0", OF a nbs n w16 B]
  have w40: "real (unat (?w ((0 * BLOCK_N AVX512 + 40) * 32 + 7))) - 8 = 3" by simp
  have g1: "(64::nat) mod 16 = 0" and g2: "(32::nat) = 2 ^ 5" by simp_all
  have g: "(64::nat) mod 16 = 0 \<and> (32::nat) = 2 ^ 5" by simp
  have f1: "dequant AVX512 ieee
     (weight_nibble AVX512 64
        (ptr_add (weight_to_int4pack_kernel AVX512 (\<lambda>_. 0) ?w 64 32, 0) 0)
        32 7 40) 1 0 = 3"
    using t[THEN conjunct1] unfolding w40 by simp
  note f3 = t[THEN conjunct2, THEN conjunct2, rule_format, OF g, unfolded w40]
  have f3a: "fst (int4pack_mm_kernel AVX512 ieee [] (\<lambda>i. if i = 7 then 1 else 0, 0) 1
          (weight_to_int4pack_kernel AVX512 (\<lambda>_. 0) ?w 64 32, 0) 32
          (\<lambda>i. if even i then 1 else 0, 0) 64 32) = None"
    by (rule f3[THEN conjunct1])
  have f3b: "apply_writes
     (snd (int4pack_mm_kernel AVX512 ieee [] (\<lambda>i. if i = 7 then 1 else 0, 0) 1
             (weight_to_int4pack_kernel AVX512 (\<lambda>_. 0) ?w 64 32, 0) 32
             (\<lambda>i. if even i then 1 else 0, 0) 64 32))
     (\<lambda>_. 0) (0 * BLOCK_N AVX512 + 40) = 3"
    by (rule f3[THEN conjunct2])
  have a': "even (16::nat)" "(0::nat) < (16 + BLOCK_N Scalar - 1) div BLOCK_N Scalar" "(7::nat) < 32"
    by simp_all
  have n': "(5::nat) < 16" by simp
  have nbs': "(16::nat) = min (BLOCK_N Scalar) (16 - 0 * BLOCK_N Scalar)" by simp
  have u16: "?u (c * 32 + 7) < 16" for c by simp
  have B': "ptr_add (weight_to_int4pack_kernel Scalar (\<lambda>_. 0) ?u 16 32, 0) 0 =
           ptr_add (weight_to_int4pack_kernel Scalar (\<lambda>_. 0) ?u 16 32, 0) (0 * BLOCK_N Scalar * 32 div 2)"
    by simp
  note s = pack_unpack_offset[where v = Scalar and N = 16 and nb = 0 and k = 7 and K = 32
      and nb_size = 16 and n = 5 and weight = ?u and ?P0.0 = "\<lambda>_. 0", OF a' nbs' n' u16 B']
  have u5: "real (unat (?u ((0 * BLOCK_N Scalar + 5) * 32 + 7))) - 8 = 3" by simp
  have f2: "f32_add ieee
     (f32_mul ieee
        (convert_int4_to_float
           (rd (ptr_add (weight_to_int4pack_kernel Scalar (\<lambda>_. 0) ?u 16 32, 0) 0)
              (7 * (16 div 2) + 5 div 2)) (5 mod 2 = (0::nat))) 1) 0 = 3"
    by (rule s[THEN conjunct2, THEN conjunct1, rule_format, OF refl, unfolded u5])
  have m: "(40::nat) < min (BLOCK_N AVX512) (64 - 0 * BLOCK_N AVX512)"
    "(5::nat) < min (BLOCK_N Scalar) (16 - 0 * BLOCK_N Scalar)" by simp_all
  note F = a m g1 g2 f1 f3a f3b a'(1,2) f2
  show ?thesis by (intro conjI; fact F)
qed

text \<open>
  C1 as stated, for weights between \<open>- 8\<close> and 7 and the conversion giving the weight
  back (\<open>N = 16\<close>, \<open>K = 1\<close>, the non-vectorized variant, byte 0 of the packed buffer,
  which holds columns 0 and 1). With every weight 7 the conversion of the low nibble
  gives \<open>- 1\<close>, not 7. With the weight \<open>- 8\<close> in column 0 and 3 in the other columns the
  byte is \<open>0xF8\<close>: the conversion gives 0 for column 0, not \<open>- 8\<close>, and 7 for column 1,
  not 3.
\<close>

theorem pack_unpack_offset_counterexample:
  "convert_int4_to_float
     (weight_to_int4pack_kernel Scalar (\<lambda>_. 0) (\<lambda>_. 7) 16 1 0) True = - 1 \<and>
   convert_int4_to_float
     (weight_to_int4pack_kernel Scalar (\<lambda>_. 0) (\<lambda>j. if j = 0 then - 8 else 3) 16 1 0) True = 0 \<and>
   convert_int4_to_float
     (weight_to_int4pack_kernel Scalar (\<lambda>_. 0) (\<lambda>j. if j = 0 then - 8 else 3) 16 1 0) False = 7"
  by code_simp

section \<open>An invocation that throws\<close>








end
